(* ===== verification/Prelude.thy ===== *)
theory Prelude
  imports Main "HOL-Library.Char_ord" "HOL-Library.List_Lexorder" "HOL-Library.Code_Target_Nat"
begin

section \<open>Prelude: bytes, results and list searches\<close>

text \<open>
  The vocabulary every component shares. A Rust \<open>u8\<close> is an Isabelle \<open>char\<close> (eight bits, with
  the literals \<open>CHR ''a''\<close> and \<open>CHR 0x0A\<close>), a byte slice or \<open>Vec<u8>\<close> is a list of them, and so
  is a Rust \<open>String\<close>, which is its UTF-8 encoding. A Rust \<open>Result\<close> is a sum with the error on the
  left; \<open>and_then\<close> is the \<open>?\<close> operator, \<open>map_res\<close> collects an iterator of results, and
  \<open>fold_res\<close> is a \<open>for\<close> loop whose body may return early with an error. \<open>find_byte\<close> is
  \<open>iter().position(|b| *b == x)\<close>, of which the \<open>memchr\<close> calls of the source are the optimised
  form.
\<close>

type_synonym bytes = "char list"

abbreviation byte_val :: "char \<Rightarrow> nat" where
  "byte_val c \<equiv> of_char c"

abbreviation NL :: char where "NL \<equiv> CHR 0x0A"
abbreviation CR :: char where "CR \<equiv> CHR 0x0D"
abbreviation TAB :: char where "TAB \<equiv> CHR 0x09"
abbreviation BSL :: char where "BSL \<equiv> CHR 0x5C"
abbreviation DQ :: char where "DQ \<equiv> CHR 0x22"

named_theorems res_simps \<open>equations of the result combinators\<close>
named_theorems byte_defs \<open>definitions of the byte classes\<close>

subsection \<open>Results\<close>

definition and_then :: "'e + 'a \<Rightarrow> ('a \<Rightarrow> 'e + 'b) \<Rightarrow> 'e + 'b" where
  "and_then r f = (case r of Inl e \<Rightarrow> Inl e | Inr x \<Rightarrow> f x)"

lemma and_then_simps [simp, res_simps]:
  "and_then (Inl e) f = Inl e" "and_then (Inr x) f = f x"
  by (simp_all add: and_then_def)

lemma and_then_cong [fundef_cong]:
  "r = r' \<Longrightarrow> (\<And>x. r' = Inr x \<Longrightarrow> f x = g x) \<Longrightarrow> and_then r f = and_then r' g"
  by (cases r') auto

lemma and_then_eq_Inr: "and_then r f = Inr y \<longleftrightarrow> (\<exists>x. r = Inr x \<and> f x = Inr y)"
  by (cases r) auto

lemma and_then_eq_Inl:
  "and_then r f = Inl e \<longleftrightarrow> r = Inl e \<or> (\<exists>x. r = Inr x \<and> f x = Inl e)"
  by (cases r) auto

lemma and_then_assoc: "and_then (and_then r f) g = and_then r (\<lambda>x. and_then (f x) g)"
  by (cases r) auto

lemma and_then_InrE [elim!]:
  assumes "and_then r f = Inr y"
  obtains x where "r = Inr x" "f x = Inr y"
  using assms by (auto simp: and_then_eq_Inr)

text \<open>An option turned into a result, Rust's \<open>ok_or\<close>.\<close>

definition ok_or :: "'e \<Rightarrow> 'a option \<Rightarrow> 'e + 'a" where
  "ok_or e x = (case x of None \<Rightarrow> Inl e | Some y \<Rightarrow> Inr y)"

lemma ok_or_simps [simp, res_simps]: "ok_or e None = Inl e" "ok_or e (Some x) = Inr x"
  by (simp_all add: ok_or_def)

lemma ok_or_eq_Inr [simp]: "ok_or e x = Inr y \<longleftrightarrow> x = Some y"
  by (cases x) auto

lemma ok_or_eq_Inl [simp]: "ok_or e x = Inl e' \<longleftrightarrow> x = None \<and> e' = e"
  by (cases x) auto

fun map_res :: "('a \<Rightarrow> 'e + 'b) \<Rightarrow> 'a list \<Rightarrow> 'e + 'b list" where
  "map_res f [] = Inr []"
| "map_res f (x # xs) = and_then (f x) (\<lambda>y. and_then (map_res f xs) (\<lambda>ys. Inr (y # ys)))"

lemma map_res_all_Inr: "(\<And>x. x \<in> set xs \<Longrightarrow> f x = Inr (g x)) \<Longrightarrow> map_res f xs = Inr (map g xs)"
  by (induction xs) auto

lemma length_map_res: "map_res f xs = Inr ys \<Longrightarrow> length ys = length xs"
  by (induction xs arbitrary: ys) auto

lemma map_res_Inr_nth: "map_res f xs = Inr ys \<Longrightarrow> i < length xs \<Longrightarrow> f (xs ! i) = Inr (ys ! i)"
proof (induction xs arbitrary: ys i)
  case (Cons x xs)
  then show ?case by (cases i) auto
qed simp

lemma map_res_append:
  "map_res f (xs @ ys) = and_then (map_res f xs) (\<lambda>us. and_then (map_res f ys) (\<lambda>vs. Inr (us @ vs)))"
proof (induction xs)
  case Nil
  then show ?case by (cases "map_res f ys") auto
next
  case (Cons x xs)
  then show ?case by (simp add: and_then_assoc)
qed

fun fold_res :: "('a \<Rightarrow> 's \<Rightarrow> 'e + 's) \<Rightarrow> 'a list \<Rightarrow> 's \<Rightarrow> 'e + 's" where
  "fold_res f [] s = Inr s"
| "fold_res f (x # xs) s = and_then (f x s) (fold_res f xs)"

lemma fold_res_append: "fold_res f (xs @ ys) s = and_then (fold_res f xs s) (fold_res f ys)"
proof (induction xs arbitrary: s)
  case (Cons x xs)
  have "fold_res f (xs @ ys) = (\<lambda>u. and_then (fold_res f xs u) (fold_res f ys))"
    using Cons.IH by blast
  then show ?case by (simp add: and_then_assoc)
qed simp

text \<open>The invariant rule of such a loop.\<close>

lemma fold_res_invariant:
  assumes "fold_res f xs s = Inr t" and "P s"
    and "\<And>x u v. x \<in> set xs \<Longrightarrow> P u \<Longrightarrow> f x u = Inr v \<Longrightarrow> P v"
  shows "P t"
  using assms
proof (induction xs arbitrary: s)
  case (Cons x xs)
  from Cons.prems(1) obtain u where u: "f x s = Inr u" "fold_res f xs u = Inr t" by auto
  have "P u" using Cons.prems(2,3) u(1) by auto
  with u(2) show ?case using Cons.IH Cons.prems(3) by auto
qed simp

subsection \<open>Searching a byte\<close>

fun find_byte :: "'a \<Rightarrow> 'a list \<Rightarrow> nat option" where
  "find_byte b [] = None"
| "find_byte b (x # xs) = (if x = b then Some 0 else map_option Suc (find_byte b xs))"

lemma find_byte_None [simp]: "find_byte b xs = None \<longleftrightarrow> b \<notin> set xs"
  by (induction xs) auto

lemma find_byte_notin [simp]: "b \<notin> set xs \<Longrightarrow> find_byte b xs = None"
  by simp

lemma find_byte_SomeD:
  assumes "find_byte b xs = Some i"
  shows "i < length xs" "xs ! i = b" "b \<notin> set (take i xs)" "xs = take i xs @ b # drop (Suc i) xs"
proof -
  have *: "i < length xs \<and> xs ! i = b \<and> b \<notin> set (take i xs)"
    using assms by (induction xs arbitrary: i) (auto split: if_splits)
  then show "i < length xs" "xs ! i = b" "b \<notin> set (take i xs)" by auto
  then show "xs = take i xs @ b # drop (Suc i) xs" by (metis id_take_nth_drop)
qed

lemma find_byte_append_in: "b \<in> set xs \<Longrightarrow> find_byte b (xs @ ys) = find_byte b xs"
  by (induction xs) auto

lemma find_byte_append_notin:
  "b \<notin> set xs \<Longrightarrow> find_byte b (xs @ ys) = map_option (\<lambda>i. length xs + i) (find_byte b ys)"
proof (induction xs)
  case Nil
  show ?case by (simp add: option.map_ident)
next
  case (Cons x xs)
  then show ?case by (auto simp: option.map_comp comp_def)
qed

lemma find_byte_here: "b \<notin> set xs \<Longrightarrow> find_byte b (xs @ b # ys) = Some (length xs)"
  by (simp add: find_byte_append_notin)

lemma find_byte_SomeE:
  assumes "find_byte b xs = Some i"
  obtains us vs where "xs = us @ b # vs" "length us = i" "b \<notin> set us"
  using find_byte_SomeD[OF assms] by (metis length_take min.absorb4)

text \<open>The last occurrence (\<open>memrchr\<close>, \<open>rfind\<close>).\<close>

definition rfind_byte :: "'a \<Rightarrow> 'a list \<Rightarrow> nat option" where
  "rfind_byte b xs = map_option (\<lambda>i. length xs - Suc i) (find_byte b (rev xs))"

lemma rfind_byte_None [simp]: "rfind_byte b xs = None \<longleftrightarrow> b \<notin> set xs"
  by (simp add: rfind_byte_def)

lemma rfind_byte_notin [simp]: "b \<notin> set xs \<Longrightarrow> rfind_byte b xs = None"
  by simp

lemma rfind_byte_SomeE:
  assumes "rfind_byte b xs = Some i"
  obtains us vs where "xs = us @ b # vs" "length us = i" "b \<notin> set vs"
proof -
  from assms obtain j where j: "find_byte b (rev xs) = Some j" "i = length xs - Suc j"
    by (auto simp: rfind_byte_def)
  from find_byte_SomeE[OF j(1)] obtain us vs where
    uv: "rev xs = us @ b # vs" "length us = j" "b \<notin> set us" .
  from uv(1) have xs: "xs = rev vs @ b # rev us" by (metis rev_append rev_rev_ident rev.simps(2) append_assoc append_Cons append_Nil)
  have "length (rev vs) = i" using j(2) uv(2) xs by simp
  with xs uv(3) show thesis by (intro that[of "rev vs" "rev us"]) auto
qed

subsection \<open>Splitting at a separator and joining\<close>

text \<open>
  The reference semantics of separated text: \<open>split_on\<close> cuts at every separator, so it yields
  one piece more than there are separators, and \<open>join_with\<close> is its inverse.
\<close>

fun split_on :: "'a \<Rightarrow> 'a list \<Rightarrow> 'a list list" where
  "split_on sep [] = [[]]"
| "split_on sep (x # xs) =
     (if x = sep then [] # split_on sep xs
      else (case split_on sep xs of [] \<Rightarrow> [[x]] | p # ps \<Rightarrow> (x # p) # ps))"

fun join_with :: "'a \<Rightarrow> 'a list list \<Rightarrow> 'a list" where
  "join_with sep [] = []"
| "join_with sep [p] = p"
| "join_with sep (p # q # ps) = p @ sep # join_with sep (q # ps)"

lemma split_on_nonempty [simp]: "split_on sep xs \<noteq> []"
  by (induction xs) (auto split: list.splits)

lemma split_on_notin [simp]: "sep \<notin> set xs \<Longrightarrow> split_on sep xs = [xs]"
  by (induction xs) auto

lemma split_on_sep: "sep \<notin> set p \<Longrightarrow> split_on sep (p @ sep # xs) = p # split_on sep xs"
  by (induction p) auto

lemma split_on_pieces: "p \<in> set (split_on sep xs) \<Longrightarrow> sep \<notin> set p"
proof (induction xs arbitrary: p)
  case (Cons x xs)
  show ?case
  proof (cases "split_on sep xs")
    case (Cons q qs)
    then show ?thesis using Cons.IH Cons.prems \<open>split_on sep xs = q # qs\<close>
      by (auto split: if_splits)
  qed simp
qed simp

lemma join_split: "join_with sep (split_on sep xs) = xs"
proof (induction xs)
  case (Cons x xs)
  show ?case
  proof (cases "split_on sep xs")
    case (Cons p ps)
    then show ?thesis using Cons.IH by (cases ps) auto
  qed simp
qed simp

lemma split_join:
  "ps \<noteq> [] \<Longrightarrow> (\<And>p. p \<in> set ps \<Longrightarrow> sep \<notin> set p) \<Longrightarrow> split_on sep (join_with sep ps) = ps"
proof (induction sep ps rule: join_with.induct)
  case (3 sep p q ps)
  then show ?case by (simp add: split_on_sep)
qed auto

lemma length_split_on: "length (split_on sep xs) = Suc (count_list xs sep)"
proof (induction xs)
  case (Cons x xs)
  then show ?case by (cases "split_on sep xs") auto
qed simp

lemma split_on_append_last:
  "split_on sep (xs @ ys)
     = butlast (split_on sep xs) @ (case split_on sep ys of p # ps \<Rightarrow> (last (split_on sep xs) @ p) # ps)"
proof (induction xs)
  case Nil
  then show ?case by (cases "split_on sep ys") auto
next
  case (Cons x xs)
  obtain q qs where q: "split_on sep ys = q # qs" by (cases "split_on sep ys") auto
  obtain p ps where p: "split_on sep xs = p # ps" by (cases "split_on sep xs") auto
  show ?case
  proof (cases ps)
    case Nil
    then show ?thesis using Cons.IH p q by auto
  next
    case (Cons r rs)
    then show ?thesis using Cons.IH p q by auto
  qed
qed

lemma join_with_nonempty [simp]: "p \<noteq> [] \<Longrightarrow> join_with sep (p # ps) \<noteq> []"
  by (cases ps) auto

lemma set_join_with: "x \<in> set (join_with sep ps) \<Longrightarrow> x = sep \<or> (\<exists>p\<in>set ps. x \<in> set p)"
  by (induction sep ps rule: join_with.induct) auto

subsection \<open>Prefixes, suffixes and runs\<close>

definition starts_with :: "'a list \<Rightarrow> 'a list \<Rightarrow> bool" where
  "starts_with s p \<longleftrightarrow> take (length p) s = p"

definition ends_with :: "'a list \<Rightarrow> 'a list \<Rightarrow> bool" where
  "ends_with s p \<longleftrightarrow> length p \<le> length s \<and> drop (length s - length p) s = p"

lemma starts_with_append [simp]: "starts_with (p @ s) p"
  by (simp add: starts_with_def)

lemma ends_with_append [simp]: "ends_with (s @ p) p"
  by (simp add: ends_with_def)

lemma ends_withE:
  assumes "ends_with s p"
  obtains us where "s = us @ p"
  using assms by (metis append_take_drop_id ends_with_def)

lemma starts_withE:
  assumes "starts_with s p"
  obtains us where "s = p @ us"
  using assms by (metis append_take_drop_id starts_with_def)

text \<open>A list with its trailing elements of a class dropped.\<close>

definition drop_end :: "('a \<Rightarrow> bool) \<Rightarrow> 'a list \<Rightarrow> 'a list" where
  "drop_end P xs = rev (dropWhile P (rev xs))"

lemma drop_end_simps [simp]:
  "drop_end P [] = []" "\<not> P x \<Longrightarrow> drop_end P (xs @ [x]) = xs @ [x]"
  "P x \<Longrightarrow> drop_end P (xs @ [x]) = drop_end P xs"
  by (simp_all add: drop_end_def)

lemma drop_end_id: "xs = [] \<or> \<not> P (last xs) \<Longrightarrow> drop_end P xs = xs"
  by (cases xs rule: rev_cases) auto

lemma length_drop_end: "length (drop_end P xs) \<le> length xs"
  by (metis drop_end_def length_dropWhile_le length_rev)

lemma drop_end_prefix: "\<exists>ys. xs = drop_end P xs @ ys"
proof -
  have "rev xs = takeWhile P (rev xs) @ dropWhile P (rev xs)" by simp
  then have "xs = rev (dropWhile P (rev xs)) @ rev (takeWhile P (rev xs))"
    by (metis rev_append rev_rev_ident)
  then show ?thesis by (auto simp: drop_end_def)
qed

lemma dropWhile_id: "xs = [] \<or> \<not> P (hd xs) \<Longrightarrow> dropWhile P xs = xs"
  by (cases xs) auto

end
