(* ===== verification/Rust_Std.thy ===== *)
theory Rust_Std
  imports Prelude
begin

section \<open>What the program uses of Rust's standard library\<close>

text \<open>
  ASCII byte classes and trimming, UTF-8 validation and lossy decoding, the trimming of a \<open>str\<close> by
  Unicode white space, the decimal parsers \<open>parse::<uN>\<close> and \<open>parse::<iN>\<close>, and decimal printing.
  A \<open>str\<close> is its UTF-8 bytes. Nothing here models a line of the repository: these are the
  documented functions of \<open>core\<close> and \<open>alloc\<close> that its code calls.
\<close>

subsection \<open>ASCII\<close>

definition is_ascii_digit :: "char \<Rightarrow> bool" where
  [byte_defs]: "is_ascii_digit c \<longleftrightarrow> 48 \<le> byte_val c \<and> byte_val c \<le> 57"

definition is_ascii_whitespace :: "char \<Rightarrow> bool" where
  [byte_defs]: "is_ascii_whitespace c \<longleftrightarrow> byte_val c \<in> {9, 10, 12, 13, 32}"

definition is_ascii_upper :: "char \<Rightarrow> bool" where
  [byte_defs]: "is_ascii_upper c \<longleftrightarrow> 65 \<le> byte_val c \<and> byte_val c \<le> 90"

definition is_ascii_lower :: "char \<Rightarrow> bool" where
  [byte_defs]: "is_ascii_lower c \<longleftrightarrow> 97 \<le> byte_val c \<and> byte_val c \<le> 122"

definition is_ascii_alnum :: "char \<Rightarrow> bool" where
  [byte_defs]: "is_ascii_alnum c \<longleftrightarrow> is_ascii_digit c \<or> is_ascii_upper c \<or> is_ascii_lower c"

definition is_ascii_byte :: "char \<Rightarrow> bool" where
  [byte_defs]: "is_ascii_byte c \<longleftrightarrow> byte_val c < 128"

definition to_ascii_lower :: "char \<Rightarrow> char" where
  "to_ascii_lower c = (if is_ascii_upper c then char_of (byte_val c + 32) else c)"

definition eq_ignore_ascii_case :: "bytes \<Rightarrow> bytes \<Rightarrow> bool" where
  "eq_ignore_ascii_case a b \<longleftrightarrow> map to_ascii_lower a = map to_ascii_lower b"

definition trim_ascii_start :: "bytes \<Rightarrow> bytes" where
  "trim_ascii_start s = dropWhile is_ascii_whitespace s"

definition trim_ascii_end :: "bytes \<Rightarrow> bytes" where
  "trim_ascii_end s = drop_end is_ascii_whitespace s"

definition trim_ascii :: "bytes \<Rightarrow> bytes" where
  "trim_ascii s = trim_ascii_end (trim_ascii_start s)"

lemma eq_ignore_ascii_case_refl [simp]: "eq_ignore_ascii_case a a"
  by (simp add: eq_ignore_ascii_case_def)

lemma is_ascii_digit_ascii: "is_ascii_digit c \<Longrightarrow> is_ascii_byte c"
  by (simp add: byte_defs)

subsection \<open>UTF-8\<close>

text \<open>
  \<open>utf8_tail b\<close> lists what must follow a lead byte \<open>b\<close> (Table 3-7 of the Unicode standard, which
  \<open>core::str\<close> implements), \<open>None\<close> when \<open>b\<close> leads no character. \<open>utf8_head s\<close> looks at the front of a
  byte string: \<open>Inr n\<close> when it starts with a well-formed character of \<open>n\<close> bytes, \<open>Inl n\<close> when the
  maximal ill-formed subpart there has \<open>n\<close> bytes.
\<close>

definition utf8_cont :: "char \<Rightarrow> bool" where
  [byte_defs]: "utf8_cont c \<longleftrightarrow> 128 \<le> byte_val c \<and> byte_val c \<le> 191"

definition byte_within :: "nat \<Rightarrow> nat \<Rightarrow> char \<Rightarrow> bool" where
  [byte_defs]: "byte_within lo hi c \<longleftrightarrow> lo \<le> byte_val c \<and> byte_val c \<le> hi"

definition utf8_tail :: "nat \<Rightarrow> (char \<Rightarrow> bool) list option" where
  "utf8_tail b =
     (if b < 128 then Some []
      else if 194 \<le> b \<and> b \<le> 223 then Some [utf8_cont]
      else if b = 224 then Some [byte_within 160 191, utf8_cont]
      else if b = 237 then Some [byte_within 128 159, utf8_cont]
      else if 225 \<le> b \<and> b \<le> 239 then Some [utf8_cont, utf8_cont]
      else if b = 240 then Some [byte_within 144 191, utf8_cont, utf8_cont]
      else if b = 244 then Some [byte_within 128 143, utf8_cont, utf8_cont]
      else if 241 \<le> b \<and> b \<le> 243 then Some [utf8_cont, utf8_cont, utf8_cont]
      else None)"

fun matching_run :: "('a \<Rightarrow> bool) list \<Rightarrow> 'a list \<Rightarrow> nat" where
  "matching_run (P # Ps) (c # r) = (if P c then Suc (matching_run Ps r) else 0)"
| "matching_run _ _ = 0"

fun utf8_head :: "bytes \<Rightarrow> nat + nat" where
  "utf8_head [] = Inl 0"
| "utf8_head (b # r) =
     (case utf8_tail (byte_val b) of
        None \<Rightarrow> Inl 1
      | Some Ps \<Rightarrow>
          (if matching_run Ps r = length Ps then Inr (Suc (length Ps)) else Inl (Suc (matching_run Ps r))))"

lemma matching_run_le: "matching_run Ps r \<le> length r"
  by (induction Ps r rule: matching_run.induct) auto

lemma matching_run_full: "matching_run Ps r = length Ps \<Longrightarrow> length Ps \<le> length r"
  using matching_run_le[of Ps r] by simp

lemma matching_run_append: "matching_run Ps r = length Ps \<Longrightarrow> matching_run Ps (r @ t) = length Ps"
  by (induction Ps r rule: matching_run.induct) (auto split: if_splits)

lemma matching_run_take: "matching_run Ps r = length Ps \<Longrightarrow> matching_run Ps (take (length Ps) r) = length Ps"
  by (induction Ps r rule: matching_run.induct) (auto split: if_splits)

lemma utf8_head_Inr: "utf8_head s = Inr n \<Longrightarrow> 0 < n \<and> n \<le> length s"
  by (cases s) (auto split: option.splits if_splits intro: matching_run_full)

lemma utf8_head_Inl: "utf8_head s = Inl n \<Longrightarrow> s \<noteq> [] \<Longrightarrow> 0 < n \<and> n \<le> length s"
  by (cases s) (auto split: option.splits if_splits intro: matching_run_le)

lemma utf8_head_ascii: "is_ascii_byte c \<Longrightarrow> utf8_head (c # s) = Inr 1"
  by (simp add: utf8_tail_def byte_defs)

lemma utf8_head_append: "utf8_head s = Inr n \<Longrightarrow> utf8_head (s @ t) = Inr n"
  by (cases s) (auto split: option.splits if_splits simp: matching_run_append)

lemma utf8_head_take: "utf8_head s = Inr n \<Longrightarrow> utf8_head (take n s) = Inr n"
  by (cases s) (auto split: option.splits if_splits simp: matching_run_take)

declare utf8_head.simps(2) [simp del]

function (sequential) utf8_valid :: "bytes \<Rightarrow> bool" where
  "utf8_valid [] = True"
| "utf8_valid (c # s) = (case utf8_head (c # s) of Inl _ \<Rightarrow> False | Inr n \<Rightarrow> utf8_valid (drop n (c # s)))"
  by pat_completeness auto
termination
  by (relation "measure length") (auto dest: utf8_head_Inr simp: diff_less)

text \<open>The replacement character U+FFFD.\<close>

definition replacement :: bytes where
  "replacement = [CHR 0xEF, CHR 0xBF, CHR 0xBD]"

function (sequential) from_utf8_lossy :: "bytes \<Rightarrow> bytes" where
  "from_utf8_lossy [] = []"
| "from_utf8_lossy (c # s) =
     (case utf8_head (c # s) of
        Inl n \<Rightarrow> replacement @ from_utf8_lossy (drop n (c # s))
      | Inr n \<Rightarrow> take n (c # s) @ from_utf8_lossy (drop n (c # s)))"
  by pat_completeness auto
termination
  by (relation "measure length") (auto dest: utf8_head_Inr utf8_head_Inl simp: diff_less)

declare utf8_valid.simps(2) [simp del] from_utf8_lossy.simps(2) [simp del]

lemma utf8_valid_ascii_Cons: "is_ascii_byte c \<Longrightarrow> utf8_valid (c # s) = utf8_valid s"
  by (simp add: utf8_valid.simps(2) utf8_head_ascii)

lemma utf8_valid_ascii: "(\<And>c. c \<in> set s \<Longrightarrow> is_ascii_byte c) \<Longrightarrow> utf8_valid s"
  by (induction s) (auto simp: utf8_valid_ascii_Cons)

lemma from_utf8_lossy_valid: "utf8_valid s \<Longrightarrow> from_utf8_lossy s = s"
proof (induction s rule: from_utf8_lossy.induct)
  case (2 c s)
  then obtain n where n: "utf8_head (c # s) = Inr n" "utf8_valid (drop n (c # s))"
    by (auto simp: utf8_valid.simps(2) split: sum.splits)
  with 2 have "from_utf8_lossy (drop n (c # s)) = drop n (c # s)" by blast
  with n show ?case by (simp only: from_utf8_lossy.simps(2) sum.case append_take_drop_id)
qed simp

lemma utf8_valid_append: "utf8_valid s \<Longrightarrow> utf8_valid t \<Longrightarrow> utf8_valid (s @ t)"
proof (induction s rule: utf8_valid.induct)
  case (2 c s)
  then obtain n where n: "utf8_head (c # s) = Inr n" "utf8_valid (drop n (c # s))"
    by (auto simp: utf8_valid.simps(2) split: sum.splits)
  with 2 have *: "utf8_valid (drop n (c # s) @ t)" by blast
  have h: "utf8_head ((c # s) @ t) = Inr n" by (rule utf8_head_append[OF n(1)])
  have "n \<le> length (c # s)" using utf8_head_Inr[OF n(1)] by blast
  then have "drop n ((c # s) @ t) = drop n (c # s) @ t" by (simp only: drop_append) simp
  with * h show ?case by (simp add: utf8_valid.simps(2))
qed simp

lemma utf8_valid_take_head:
  assumes "utf8_head s = Inr n" shows "utf8_valid (take n s)"
proof -
  have h: "utf8_head (take n s) = Inr n" by (rule utf8_head_take[OF assms])
  then obtain c r where cr: "take n s = c # r" by (cases "take n s") auto
  have "drop n (take n s) = []" by simp
  with h cr show ?thesis by (simp add: utf8_valid.simps(2))
qed

lemma utf8_valid_replacement [simp]: "utf8_valid replacement"
  by (simp add: replacement_def utf8_valid.simps(2) utf8_head.simps(2) utf8_tail_def byte_defs)

lemma utf8_valid_lossy [simp]: "utf8_valid (from_utf8_lossy s)"
proof (induction s rule: from_utf8_lossy.induct)
  case (2 c s)
  show ?case
  proof (cases "utf8_head (c # s)")
    case (Inl n)
    then show ?thesis using 2(1)
      by (simp add: from_utf8_lossy.simps(2) utf8_valid_append)
  next
    case (Inr n)
    then show ?thesis using 2(2)
      by (simp add: from_utf8_lossy.simps(2) utf8_valid_append utf8_valid_take_head del: take_Cons drop_Cons)
  qed
qed simp

subsection \<open>White space of a \<open>str\<close>\<close>

text \<open>
  \<open>char::is_whitespace\<close> is the Unicode property White\_Space. \<open>ws_front s\<close> is the number of bytes of a
  white-space character at the front of \<open>s\<close>, and \<open>ws_back r\<close> the same for the end of a string given
  by its reversal \<open>r\<close>; both are 0 when there is none.
\<close>

definition ws_front :: "bytes \<Rightarrow> nat" where
  "ws_front s =
     (case map byte_val (take 3 s) of
        [] \<Rightarrow> 0
      | a # r \<Rightarrow>
        (if (9 \<le> a \<and> a \<le> 13) \<or> a = 32 then 1
         else (case r of
            [] \<Rightarrow> 0
          | b # r' \<Rightarrow>
            (if a = 194 \<and> (b = 133 \<or> b = 160) then 2
             else (case r' of
                [] \<Rightarrow> 0
              | c # _ \<Rightarrow>
                (if (a = 225 \<and> b = 154 \<and> c = 128)
                   \<or> (a = 226 \<and> b = 128 \<and> ((128 \<le> c \<and> c \<le> 138) \<or> c = 168 \<or> c = 169 \<or> c = 175))
                   \<or> (a = 226 \<and> b = 129 \<and> c = 159)
                   \<or> (a = 227 \<and> b = 128 \<and> c = 128) then 3 else 0))))))"

definition ws_back :: "bytes \<Rightarrow> nat" where
  "ws_back r =
     (if r = [] then 0
      else if ws_front (take 1 r) = 1 then 1
      else if ws_front (rev (take 2 r)) = 2 then 2
      else if ws_front (rev (take 3 r)) = 3 then 3 else 0)"

lemma ws_front_le: "ws_front s \<le> length s"
  by (cases s; cases "tl s"; cases "tl (tl s)") (auto simp: ws_front_def)

lemma ws_back_le: "ws_back r \<le> length r"
proof -
  have "ws_front (rev (take k r)) \<le> length r" for k
    using ws_front_le[of "rev (take k r)"] by simp
  from this[of 2] this[of 3] show ?thesis by (cases r) (auto simp: ws_back_def)
qed

function trim_start :: "bytes \<Rightarrow> bytes" where
  "trim_start s = (if ws_front s = 0 then s else trim_start (drop (ws_front s) s))"
  by pat_completeness auto
termination
proof (relation "measure length")
  fix s :: bytes assume "ws_front s \<noteq> 0"
  then show "(drop (ws_front s) s, s) \<in> measure length"
    using ws_front_le[of s] by (cases s) (auto simp: ws_front_def)
qed simp

function trim_back :: "bytes \<Rightarrow> bytes" where
  "trim_back r = (if ws_back r = 0 then r else trim_back (drop (ws_back r) r))"
  by pat_completeness auto
termination
proof (relation "measure length")
  fix r :: bytes assume "ws_back r \<noteq> 0"
  then show "(drop (ws_back r) r, r) \<in> measure length"
    using ws_back_le[of r] by (cases r) (auto simp: ws_back_def)
qed simp

declare trim_start.simps [simp del] trim_back.simps [simp del]

definition trim_end :: "bytes \<Rightarrow> bytes" where
  "trim_end s = rev (trim_back (rev s))"

definition trim :: "bytes \<Rightarrow> bytes" where
  "trim s = trim_end (trim_start s)"

text \<open>Text whose two ends are graphic ASCII is its own trimming.\<close>

definition solid :: "char \<Rightarrow> bool" where
  [byte_defs]: "solid c \<longleftrightarrow> 33 \<le> byte_val c \<and> byte_val c \<le> 126"

lemma ws_front_solid: "solid c \<Longrightarrow> ws_front (c # s) = 0"
  by (auto simp: ws_front_def byte_defs split: list.splits)

lemma ws_front_2: "ws_front [b, c] = 2 \<Longrightarrow> \<not> solid c"
  by (auto simp: ws_front_def byte_defs split: if_splits)

lemma ws_front_3: "ws_front [a, b, c] = 3 \<Longrightarrow> \<not> solid c"
  by (simp add: ws_front_def byte_defs split: if_splits) linarith

lemma ws_back_solid:
  assumes "solid c" shows "ws_back (c # r) = 0"
proof -
  have "ws_front [c] \<noteq> 1" using ws_front_solid[OF assms, of "[]"] by simp
  moreover have "ws_front (rev (take 2 (c # r))) \<noteq> 2"
    using assms ws_front_2 ws_front_solid[OF assms] by (cases r) auto
  moreover have "ws_front (rev (take 3 (c # r))) \<noteq> 3"
  proof (cases r)
    case Nil
    then show ?thesis using ws_front_solid[OF assms] by simp
  next
    case (Cons d r')
    then show ?thesis using assms ws_front_3 ws_front_le[of "[d, c]"] by (cases r') auto
  qed
  ultimately show ?thesis by (simp add: ws_back_def)
qed

lemma trim_start_solid: "s = [] \<or> solid (hd s) \<Longrightarrow> trim_start s = s"
proof (cases s)
  case Nil
  then show ?thesis by (simp add: trim_start.simps[of "[]"] ws_front_def)
next
  case (Cons c r)
  assume "s = [] \<or> solid (hd s)"
  with Cons have "ws_front s = 0" by (simp add: ws_front_solid)
  then show ?thesis by (simp add: trim_start.simps[of s])
qed

lemma trim_end_solid: "s = [] \<or> solid (last s) \<Longrightarrow> trim_end s = s"
proof (cases "rev s")
  case Nil
  then show ?thesis by (simp add: trim_end_def trim_back.simps[of "[]"] ws_back_def)
next
  case (Cons c r)
  assume "s = [] \<or> solid (last s)"
  with Cons have "ws_back (rev s) = 0" by (metis Nil_is_rev_conv hd_rev list.distinct(1) list.sel(1) ws_back_solid)
  then show ?thesis by (simp add: trim_end_def trim_back.simps[of "rev s"])
qed

lemma trim_solid: "s = [] \<or> solid (hd s) \<and> solid (last s) \<Longrightarrow> trim s = s"
  by (auto simp: trim_def trim_start_solid trim_end_solid)

subsection \<open>Decimal numbers\<close>

text \<open>
  \<open>parse_nat\<close> reads a non-empty run of decimal digits; \<open>parse_unsigned\<close> and \<open>parse_signed\<close> are
  \<open>str::parse\<close> at an unsigned type of maximum \<open>hi\<close> and at a signed type of range \<open>lo..hi\<close>: an
  optional sign (no minus for an unsigned type), then digits, and an error on overflow.
\<close>

definition digit_val :: "char \<Rightarrow> nat" where
  "digit_val c = byte_val c - 48"

definition digit_char :: "nat \<Rightarrow> char" where
  "digit_char d = char_of (d + 48)"

definition digits_val :: "bytes \<Rightarrow> nat" where
  "digits_val s = foldl (\<lambda>n c. n * 10 + digit_val c) 0 s"

definition parse_nat :: "bytes \<Rightarrow> nat option" where
  "parse_nat s = (if s \<noteq> [] \<and> list_all is_ascii_digit s then Some (digits_val s) else None)"

definition parse_unsigned :: "nat \<Rightarrow> bytes \<Rightarrow> nat option" where
  "parse_unsigned hi s =
     (case parse_nat (case s of c # r \<Rightarrow> if c = CHR ''+'' then r else s | [] \<Rightarrow> s) of
        None \<Rightarrow> None
      | Some n \<Rightarrow> if n \<le> hi then Some n else None)"

definition parse_signed :: "int \<Rightarrow> int \<Rightarrow> bytes \<Rightarrow> int option" where
  "parse_signed lo hi s =
     (let (neg, r) =
        (case s of c # r \<Rightarrow> if c = CHR ''-'' then (True, r) else if c = CHR ''+'' then (False, r) else (False, s)
                 | [] \<Rightarrow> (False, s))
      in case parse_nat r of
           None \<Rightarrow> None
         | Some n \<Rightarrow> (let v = (if neg then - int n else int n) in if lo \<le> v \<and> v \<le> hi then Some v else None))"

fun nat_str :: "nat \<Rightarrow> bytes" where
  "nat_str n = (if n < 10 then [digit_char n] else nat_str (n div 10) @ [digit_char (n mod 10)])"

definition int_str :: "int \<Rightarrow> bytes" where
  "int_str i = (if i < 0 then CHR ''-'' # nat_str (nat (- i)) else nat_str (nat i))"

declare nat_str.simps [simp del]

lemma byte_val_char_of: "n < 256 \<Longrightarrow> byte_val (char_of n) = n"
  by simp

lemma digit_char_val [simp]: "d < 10 \<Longrightarrow> byte_val (digit_char d) = d + 48"
  by (simp add: digit_char_def byte_val_char_of)

lemma digit_val_char [simp]: "d < 10 \<Longrightarrow> digit_val (digit_char d) = d"
  by (simp add: digit_val_def)

lemma is_ascii_digit_char [simp]: "d < 10 \<Longrightarrow> is_ascii_digit (digit_char d)"
  by (simp add: is_ascii_digit_def)

lemma digits_val_snoc [simp]: "digits_val (s @ [c]) = digits_val s * 10 + digit_val c"
  by (simp add: digits_val_def)

lemma digits_val_Nil [simp]: "digits_val [] = 0"
  by (simp add: digits_val_def)

lemma digits_val_nat_str [simp]: "digits_val (nat_str n) = n"
proof (induction n rule: nat_str.induct)
  case (1 n)
  show ?case
  proof (cases "n < 10")
    case True
    have "digits_val ([] @ [digit_char n]) = n" using True by (subst digits_val_snoc) simp
    then show ?thesis using True by (simp add: nat_str.simps[of n])
  next
    case False
    then show ?thesis using 1 by (simp add: nat_str.simps[of n])
  qed
qed

lemma nat_str_digits: "c \<in> set (nat_str n) \<Longrightarrow> is_ascii_digit c"
proof (induction n rule: nat_str.induct)
  case (1 n)
  then show ?case by (cases "n < 10") (auto simp: nat_str.simps[of n])
qed

lemma nat_str_nonempty [simp]: "nat_str n \<noteq> []"
  by (subst nat_str.simps) simp

lemma parse_nat_str [simp]: "parse_nat (nat_str n) = Some n"
  by (auto simp: parse_nat_def list_all_iff nat_str_digits)

lemma not_digit_sign: "\<not> is_ascii_digit (CHR ''-'')" "\<not> is_ascii_digit (CHR ''+'')"
  by (simp_all add: byte_defs)

lemma nat_str_hd: "\<exists>c r. nat_str n = c # r \<and> is_ascii_digit c \<and> c \<noteq> CHR ''-'' \<and> c \<noteq> CHR ''+''"
proof (cases "nat_str n")
  case (Cons c r)
  then have "is_ascii_digit c" using nat_str_digits[of c n] by simp
  with Cons show ?thesis using not_digit_sign by auto
qed simp

lemma parse_unsigned_nat_str: "n \<le> hi \<Longrightarrow> parse_unsigned hi (nat_str n) = Some n"
proof -
  assume "n \<le> hi"
  obtain c r where "nat_str n = c # r" "c \<noteq> CHR ''+''" using nat_str_hd by blast
  then have "parse_unsigned hi (nat_str n) = (case parse_nat (nat_str n) of None \<Rightarrow> None | Some m \<Rightarrow> if m \<le> hi then Some m else None)"
    by (simp add: parse_unsigned_def)
  with \<open>n \<le> hi\<close> show ?thesis by simp
qed

lemma parse_signed_int_str: "lo \<le> i \<Longrightarrow> i \<le> hi \<Longrightarrow> parse_signed lo hi (int_str i) = Some i"
proof -
  assume r: "lo \<le> i" "i \<le> hi"
  show ?thesis
  proof (cases "i < 0")
    case True
    then show ?thesis using r by (simp add: parse_signed_def int_str_def)
  next
    case False
    obtain c s where cs: "nat_str (nat i) = c # s" "c \<noteq> CHR ''-''" "c \<noteq> CHR ''+''"
      using nat_str_hd by blast
    have "parse_nat (c # s) = Some (nat i)" using cs(1) parse_nat_str[of "nat i"] by simp
    then show ?thesis using False r cs by (simp add: parse_signed_def int_str_def)
  qed
qed

lemma parse_signed_range: "parse_signed lo hi s = Some i \<Longrightarrow> lo \<le> i \<and> i \<le> hi"
  by (auto simp: parse_signed_def Let_def split: prod.splits option.splits if_splits)

lemma parse_unsigned_range: "parse_unsigned hi s = Some n \<Longrightarrow> n \<le> hi"
  by (auto simp: parse_unsigned_def split: option.splits if_splits)

lemma digit_solid: "is_ascii_digit c \<Longrightarrow> solid c"
  by (simp add: byte_defs)

lemma int_str_solid: "c \<in> set (int_str i) \<Longrightarrow> solid c"
  by (auto simp: int_str_def digit_solid dest: nat_str_digits split: if_splits) (simp add: byte_defs)

lemma solid_ascii: "solid c \<Longrightarrow> is_ascii_byte c"
  by (simp add: byte_defs)

lemma trim_all_solid: "(\<And>c. c \<in> set s \<Longrightarrow> solid c) \<Longrightarrow> trim s = s"
  by (rule trim_solid) (metis hd_in_set last_in_set)

lemma utf8_valid_all_solid: "(\<And>c. c \<in> set s \<Longrightarrow> solid c) \<Longrightarrow> utf8_valid s"
  by (rule utf8_valid_ascii) (simp add: solid_ascii)

end
