(* ===== verification/Errors.thy ===== *)
theory Errors
  imports Rust_Std
begin

section \<open>The error type\<close>

text \<open>
  \<open>src/error.rs\<close>: the variants of \<open>Error\<close> with their fields in the order of the source, and the
  rendering of \<open>fmt::Display\<close>. Counts and byte lengths (\<open>usize\<close>, \<open>u64\<close>, \<open>u32\<close>) are naturals, and
  table, column and message strings are UTF-8 bytes. The lemmas say what the message of a failed
  commit burst tells the operator.
\<close>

datatype error =
    FieldTooLarge nat nat
  | RowTooLarge nat nat
  | TooManyColumns nat nat
  | FieldCountMismatch nat nat
  | TruncatedEscape
  | InvalidHexEscape
  | UnterminatedCopy bytes
  | MalformedCopyHeader nat
  | MalformedCreateTable bytes
  | UnsupportedDumpVersion nat
  | MissingDumpVersion
  | UnsafeTableName bytes
  | UnparsableValue bytes bytes
  | NonUtf8Text bytes
  | UnsupportedCompression bytes
  | ArrowError bytes
  | DeltaError bytes
  | TableExists bytes
  | IoError bytes
  | Interrupted
  | SchemaChanged bytes bytes
  | ManagedTableTarget bytes bytes
  | CommitFailed bytes nat nat bytes
  | Internal bytes

type_synonym 'a res = "error + 'a"

fun display :: "error \<Rightarrow> bytes" where
  "display (FieldTooLarge len limit) =
     ''field of '' @ nat_str len @ '' bytes exceeds limit of '' @ nat_str limit"
| "display (RowTooLarge len limit) =
     ''row of '' @ nat_str len @ '' bytes exceeds limit of '' @ nat_str limit"
| "display (TooManyColumns count limit) =
     ''row has '' @ nat_str count @ '' fields, exceeding limit of '' @ nat_str limit"
| "display (FieldCountMismatch found expected) =
     ''row has '' @ nat_str found @ '' fields, expected '' @ nat_str expected"
| "display TruncatedEscape = ''backslash escape truncated at end of field''"
| "display InvalidHexEscape = BSL # ''x escape not followed by a hex digit''"
| "display (UnterminatedCopy table) = ''end of input inside COPY block for table '' @ table"
| "display (MalformedCopyHeader offset) = ''malformed COPY statement at byte '' @ nat_str offset"
| "display (MalformedCreateTable table) = ''malformed CREATE TABLE for '' @ table"
| "display (UnsupportedDumpVersion found) =
     ''dump produced by unqualified pg_dump major version '' @ nat_str found"
| "display MissingDumpVersion = ''dump preamble carries no pg_dump version comment''"
| "display (UnsafeTableName name) = ''table name escapes the output prefix: '' @ name"
| "display (UnparsableValue column expected) =
     ''value in column '' @ column @ '' is not a valid '' @ expected"
| "display (NonUtf8Text column) =
     ''column '' @ column @ '' carries bytes that are not valid UTF-8''"
| "display (UnsupportedCompression format) =
     ''dump uses '' @ format @ '' compression, which this build cannot decode''"
| "display (ArrowError message) = ''arrow error: '' @ message"
| "display (DeltaError message) = ''delta error: '' @ message"
| "display (TableExists table) =
     ''table '' @ table @ '' already holds data and mode is error-if-exists''"
| "display (IoError message) = ''io error: '' @ message"
| "display Interrupted = ''load interrupted by caller''"
| "display (CommitFailed table committed tot message) =
     (if committed = 0 then
        ''commit failed on table '' @ table @ '', the first of '' @ nat_str tot
        @ '', so no table changed: '' @ message
      else
        ''commit failed on table '' @ table @ ''; '' @ nat_str committed @ '' of '' @ nat_str tot
        @ '' tables were committed, so those '' @ nat_str committed
        @ '' now hold the new contents and the rest hold the previous run's; re-run to restore consistency: ''
        @ message)"
| "display (SchemaChanged table detail) =
     ''schema of table '' @ table @ '' differs from the Delta table ('' @ detail
     @ ''); only overwrite mode may change a schema''"
| "display (ManagedTableTarget uri marker) =
     ''output prefix '' @ uri @ '' is catalog-managed storage (matched '' @ marker
     @ '');                  write to an external location and register the tables instead''"
| "display (Internal detail) = ''internal invariant violated: '' @ detail"

text \<open>
  An \<open>io::Error\<close> is its message; \<open>from_io\<close> is the conversion the \<open>?\<close> operator applies to it.
\<close>

type_synonym 'a io_res = "bytes + 'a"

definition from_io :: "bytes \<Rightarrow> error" where
  "from_io message = IoError message"

end
