(* ===== verification/Codecs.thy ===== *)
theory Codecs
  imports Prelude
begin

section \<open>Interfaces of encoders and decoders\<close>

text \<open>
  The contract between a text format and the routine that reads it, stated once and used for every
  format of the program: \<open>codec\<close> is an encoder with a fallible decoder that takes its output back,
  \<open>separated_codec\<close> one whose output never holds the separator byte the elements of a sequence are
  cut at, and \<open>terminated_codec\<close> a sequence in which every element is ended by its byte. Their lemmas
  lift the round trip of an element to sequences. The components interpret them on their own
  definitions: COPY fields, COPY rows, decimal integers.
\<close>

locale codec =
  fixes enc :: "'v \<Rightarrow> 'b list" and dec :: "'b list \<Rightarrow> 'e + 'v" and ok :: "'v \<Rightarrow> bool"
  assumes dec_enc: "ok v \<Longrightarrow> dec (enc v) = Inr v"
begin

lemma enc_inj: "ok v \<Longrightarrow> ok w \<Longrightarrow> enc v = enc w \<Longrightarrow> v = w"
  by (metis dec_enc sum.inject(2))

lemma map_dec_enc: "(\<And>v. v \<in> set vs \<Longrightarrow> ok v) \<Longrightarrow> map_res dec (map enc vs) = Inr vs"
  by (induction vs) (auto simp: dec_enc)

end

locale separated_codec = codec enc dec ok
  for enc :: "'v \<Rightarrow> 'b list" and dec :: "'b list \<Rightarrow> 'e + 'v" and ok +
  fixes sep :: 'b
  assumes sep_free: "ok v \<Longrightarrow> sep \<notin> set (enc v)"
begin

lemma split_enc:
  "vs \<noteq> [] \<Longrightarrow> (\<And>v. v \<in> set vs \<Longrightarrow> ok v) \<Longrightarrow> split_on sep (join_with sep (map enc vs)) = map enc vs"
  by (rule split_join) (auto simp: sep_free)

lemma dec_join:
  "vs \<noteq> [] \<Longrightarrow> (\<And>v. v \<in> set vs \<Longrightarrow> ok v) \<Longrightarrow>
     map_res dec (split_on sep (join_with sep (map enc vs))) = Inr vs"
  by (simp add: split_enc map_dec_enc)

lemma join_inj:
  "vs \<noteq> [] \<Longrightarrow> ws \<noteq> [] \<Longrightarrow> (\<And>v. v \<in> set vs \<union> set ws \<Longrightarrow> ok v) \<Longrightarrow>
     join_with sep (map enc vs) = join_with sep (map enc ws) \<Longrightarrow> vs = ws"
  by (metis UnCI dec_join sum.inject(2))

end

end
