(* ===== verification/Copy_Text.thy ===== *)
theory Copy_Text
  imports Errors Codecs
begin

section \<open>COPY TEXT decoding\<close>

text \<open>
  \<open>src/copy.rs\<close>: classification and unescaping of a field, the row iterator \<open>Rows\<close>, the field
  iterator \<open>Fields\<close> with its limits, and \<open>decode_row\<close>. An iterator is its state and a \<open>next\<close>
  function; a Rust loop over an index into a slice is a recursion over the bytes from that index.
  Lemmas: the iterators compute the reference splitting of \<open>Prelude\<close>, \<open>decode_row\<close> is equivalent to
  decoding the tab-separated pieces one by one, the limits hold of whatever is decoded, and text
  escaped the way PostgreSQL documents it is decoded back.
\<close>

subsection \<open>Limits and fields\<close>

record limits =
  max_field_bytes :: nat
  max_row_bytes :: nat
  max_columns :: nat

definition default_limits :: limits where
  "default_limits =
     \<lparr>max_field_bytes = 64 * 2 ^ 20, max_row_bytes = 256 * 2 ^ 20, max_columns = 1600\<rparr>"

definition END_OF_DATA :: bytes where
  "END_OF_DATA = [BSL, CHR ''.'']"

definition NULL_MARKER :: bytes where
  "NULL_MARKER = [BSL, CHR ''N'']"

datatype field = Null | Plain bytes | Escaped bytes

definition is_null :: "field \<Rightarrow> bool" where
  "is_null f = (f = Null)"

fun raw :: "field \<Rightarrow> bytes option" where
  "raw Null = None"
| "raw (Plain b) = Some b"
| "raw (Escaped b) = Some b"

subsection \<open>Unescaping\<close>

definition hex_digit :: "char \<Rightarrow> nat option" where
  "hex_digit b =
     (if 48 \<le> byte_val b \<and> byte_val b \<le> 57 then Some (byte_val b - 48)
      else if 97 \<le> byte_val b \<and> byte_val b \<le> 102 then Some (byte_val b - 97 + 10)
      else if 65 \<le> byte_val b \<and> byte_val b \<le> 70 then Some (byte_val b - 65 + 10)
      else None)"

text \<open>
  The two digit loops. \<open>hex_loop n v s\<close> reads at most \<open>n\<close> more hexadecimal digits into the \<open>u8\<close> value
  \<open>v\<close> and says how many it read; \<open>octal_loop n v s\<close> the same for octal digits into a \<open>u32\<close>.
\<close>

fun hex_loop :: "nat \<Rightarrow> nat \<Rightarrow> nat \<Rightarrow> bytes \<Rightarrow> nat \<times> nat \<times> bytes" where
  "hex_loop 0 digits value s = (value, digits, s)"
| "hex_loop (Suc n) digits value s =
     (case s of
        [] \<Rightarrow> (value, digits, s)
      | b # r \<Rightarrow>
          (case hex_digit b of
             None \<Rightarrow> (value, digits, s)
           | Some d \<Rightarrow> hex_loop n (Suc digits) (value * 16 mod 256 + d) r))"

definition is_octal :: "char \<Rightarrow> bool" where
  "is_octal b \<longleftrightarrow> 48 \<le> byte_val b \<and> byte_val b \<le> 55"

fun octal_loop :: "nat \<Rightarrow> nat \<Rightarrow> bytes \<Rightarrow> nat \<times> bytes" where
  "octal_loop 0 value s = (value, s)"
| "octal_loop (Suc n) value s =
     (case s of
        [] \<Rightarrow> (value, s)
      | d # r \<Rightarrow> if \<not> is_octal d then (value, s) else octal_loop n (value * 8 + (byte_val d - 48)) r)"

text \<open>The \<open>match c\<close> of the loop body: what one escape stands for, and the bytes after it.\<close>

definition escape_value :: "char \<Rightarrow> bytes \<Rightarrow> (char \<times> bytes) res" where
  "escape_value c s =
     (if c = CHR ''b'' then Inr (CHR 0x08, s)
      else if c = CHR ''f'' then Inr (CHR 0x0C, s)
      else if c = CHR ''n'' then Inr (NL, s)
      else if c = CHR ''r'' then Inr (CR, s)
      else if c = CHR ''t'' then Inr (TAB, s)
      else if c = CHR ''v'' then Inr (CHR 0x0B, s)
      else if c = CHR ''x'' then
        (case hex_loop 2 0 0 s of (value, digits, s') \<Rightarrow>
           if digits = 0 then Inl InvalidHexEscape else Inr (char_of value, s'))
      else if is_octal c then
        (case octal_loop 2 (byte_val c - 48) s of (value, s') \<Rightarrow> Inr (char_of (value mod 256), s'))
      else Inr (c, s))"

lemma hex_loop_length: "hex_loop n d v s = (v', d', s') \<Longrightarrow> length s' \<le> length s"
  by (induction n d v s rule: hex_loop.induct) (auto split: list.splits option.splits intro: le_SucI)

lemma octal_loop_length: "octal_loop n v s = (v', s') \<Longrightarrow> length s' \<le> length s"
  by (induction n v s rule: octal_loop.induct) (auto split: list.splits if_splits intro: le_SucI)

lemma escape_value_length: "escape_value c s = Inr (b, s') \<Longrightarrow> length s' \<le> length s"
  by (auto simp: escape_value_def hex_loop_length octal_loop_length split: if_splits prod.splits)

text \<open>
  \<open>unescape_loop rest out\<close>: the \<open>while\<close> loop, with \<open>rest\<close> the bytes from index \<open>i\<close> on.
\<close>

function unescape_loop :: "bytes \<Rightarrow> bytes \<Rightarrow> bytes res" where
  "unescape_loop rest out =
     (if rest = [] then Inr out
      else (case find_byte BSL rest of
          None \<Rightarrow> Inr (out @ rest)
        | Some off \<Rightarrow>
            (case drop (off + 1) rest of
               [] \<Rightarrow> Inl TruncatedEscape
             | c # after \<Rightarrow>
                 (case escape_value c after of
                    Inl e \<Rightarrow> Inl e
                  | Inr (b, rest') \<Rightarrow> unescape_loop rest' (out @ take off rest @ [b])))))"
  by pat_completeness auto
termination
proof (relation "measure (\<lambda>(rest, out). length rest)")
  fix rest out :: bytes and off c after p b rest'
  assume d: "drop (off + 1) rest = c # after" and e: "escape_value c after = Inr p" "(b, rest') = p"
  have "length rest' \<le> length after" using e by (metis escape_value_length)
  moreover have "length after < length rest" using arg_cong[OF d, of length] by simp
  ultimately show "((rest', out @ take off rest @ [b]), rest, out) \<in> measure (\<lambda>(rest, out). length rest)"
    by simp
qed simp

declare unescape_loop.simps [simp del]

fun unescape_into :: "field \<Rightarrow> bytes \<Rightarrow> bytes res" where
  "unescape_into Null out = Inr out"
| "unescape_into (Plain b) out = Inr (out @ b)"
| "unescape_into (Escaped b) out = unescape_loop b out"

definition to_vec :: "field \<Rightarrow> bytes option res" where
  "to_vec f =
     (if is_null f then Inr None else and_then (unescape_into f []) (\<lambda>out. Inr (Some out)))"

definition is_end_of_data :: "bytes \<Rightarrow> bool" where
  "is_end_of_data line \<longleftrightarrow> line = END_OF_DATA"

subsection \<open>Rows\<close>

definition strip_cr :: "bytes \<Rightarrow> bytes" where
  "strip_cr line = (if line \<noteq> [] \<and> last line = CR then butlast line else line)"

text \<open>\<open>Rows::next\<close>: the next line, without its newline and one carriage return, and the rest.\<close>

definition rows_next :: "bytes \<Rightarrow> (bytes \<times> bytes) option" where
  "rows_next rest =
     (case find_byte NL rest of
        None \<Rightarrow> None
      | Some nl \<Rightarrow> Some (strip_cr (take nl rest), drop (nl + 1) rest))"

lemma rows_next_length: "rows_next s = Some (line, s') \<Longrightarrow> length s' < length s"
  by (auto simp: rows_next_def split: option.splits dest: find_byte_SomeD)

text \<open>The iterator run to its end: the complete rows and \<open>Rows::remainder\<close>.\<close>

function rows :: "bytes \<Rightarrow> bytes list \<times> bytes" where
  "rows rest =
     (case rows_next rest of
        None \<Rightarrow> ([], rest)
      | Some (line, rest') \<Rightarrow> (case rows rest' of (ls, r) \<Rightarrow> (line # ls, r)))"
  by pat_completeness auto
termination
  by (relation "measure length") (auto simp: rows_next_length)

declare rows.simps [simp del]

subsection \<open>Fields of a row\<close>

definition classify :: "bytes \<Rightarrow> field" where
  "classify r = (if r = NULL_MARKER then Null else if BSL \<in> set r then Escaped r else Plain r)"

record fields_iter =
  it_row :: bytes
  it_pos :: nat
  it_count :: nat
  it_limits :: limits
  it_finished :: bool
  it_row_checked :: bool

definition fields :: "bytes \<Rightarrow> limits \<Rightarrow> fields_iter" where
  "fields r lim = \<lparr>it_row = r, it_pos = 0, it_count = 0, it_limits = lim, it_finished = False, it_row_checked = False\<rparr>"

text \<open>\<open>Fields::next\<close>, in the order of its checks.\<close>

definition fields_next :: "fields_iter \<Rightarrow> (field res) option \<times> fields_iter" where
  "fields_next it0 =
     (let it = it0\<lparr>it_row_checked := True\<rparr> in
      if \<not> it_row_checked it0 \<and> max_row_bytes (it_limits it) < length (it_row it) then
        (Some (Inl (RowTooLarge (length (it_row it)) (max_row_bytes (it_limits it)))), it\<lparr>it_finished := True\<rparr>)
      else if it_finished it then (None, it)
      else
        (let tail = drop (it_pos it) (it_row it);
             (r, it1) =
               (case find_byte TAB tail of
                  Some off \<Rightarrow> (take off tail, it\<lparr>it_pos := it_pos it + off + 1\<rparr>)
                | None \<Rightarrow> (tail, it\<lparr>it_finished := True\<rparr>));
             it2 = it1\<lparr>it_count := it_count it1 + 1\<rparr>
         in if max_columns (it_limits it2) < it_count it2 then
              (Some (Inl (TooManyColumns (it_count it2) (max_columns (it_limits it2)))), it2\<lparr>it_finished := True\<rparr>)
            else if max_field_bytes (it_limits it2) < length r then
              (Some (Inl (FieldTooLarge (length r) (max_field_bytes (it_limits it2)))), it2\<lparr>it_finished := True\<rparr>)
            else (Some (Inr (classify r)), it2)))"


lemma fields_next_rowE:
  "it_row (snd (fields_next it)) = it_row it" "it_limits (snd (fields_next it)) = it_limits it"
  by (auto simp: fields_next_def Let_def split: option.splits)

text \<open>
  How many more fields an iterator can yield: the measure of every loop over it.
\<close>

definition fields_left :: "fields_iter \<Rightarrow> nat" where
  "fields_left it = (if it_finished it then 0 else Suc (length (it_row it) - it_pos it))"

lemma fields_next_left:
  assumes "fields_next it = (Some (Inr f), it')"
  shows "fields_left it' < fields_left it"
  using assms
  by (auto simp: fields_next_def fields_left_def Let_def split: option.splits if_splits
           dest!: find_byte_SomeD(1))

subsection \<open>Decoding a row\<close>

text \<open>
  \<open>decode_loop it scratch out\<close>: the \<open>for\<close> loop, with the decoded bytes so far in \<open>scratch\<close> and one
  range into it, or none for NULL, per field in \<open>out\<close>. \<open>decode_row\<close> clears both buffers, so it
  starts the loop with empty ones.
\<close>

function decode_loop ::
  "fields_iter \<Rightarrow> bytes \<Rightarrow> (nat \<times> nat) option list \<Rightarrow> (bytes \<times> (nat \<times> nat) option list) res" where
  "decode_loop it scratch out =
     (case fields_next it of
        (None, it') \<Rightarrow> Inr (scratch, out)
      | (Some (Inl e), it') \<Rightarrow> Inl e
      | (Some (Inr f), it') \<Rightarrow>
          (if is_null f then decode_loop it' scratch (out @ [None])
           else (case unescape_into f scratch of
                   Inl e \<Rightarrow> Inl e
                 | Inr scratch' \<Rightarrow>
                     decode_loop it' scratch' (out @ [Some (length scratch, length scratch')]))))"
  by pat_completeness auto
termination
  by (relation "measure (\<lambda>(it, scratch, out). fields_left it)") (auto intro: fields_next_left[OF sym])

declare decode_loop.simps [simp del]

definition decode_row :: "bytes \<Rightarrow> nat \<Rightarrow> limits \<Rightarrow> (bytes \<times> (nat \<times> nat) option list) res" where
  "decode_row r expected lim =
     and_then (decode_loop (fields r lim) [] []) (\<lambda>(scratch, out).
       if length out \<noteq> expected then Inl (FieldCountMismatch (length out) expected)
       else Inr (scratch, out))"

text \<open>The cells the caller reads through the ranges.\<close>

definition cell :: "bytes \<Rightarrow> (nat \<times> nat) option \<Rightarrow> bytes option" where
  "cell scratch rg = map_option (\<lambda>(a, b). drop a (take b scratch)) rg"

definition row_cells :: "bytes \<Rightarrow> nat \<Rightarrow> limits \<Rightarrow> bytes option list res" where
  "row_cells r expected lim =
     and_then (decode_row r expected lim) (\<lambda>(scratch, out). Inr (map (cell scratch) out))"


subsection \<open>Unescaping appends\<close>

lemma unescape_loop_Nil [simp]: "unescape_loop [] out = Inr out"
  by (simp add: unescape_loop.simps)

lemma unescape_loop_plain [simp]: "BSL \<notin> set s \<Longrightarrow> unescape_loop s out = Inr (out @ s)"
  by (cases "s = []") (simp_all add: unescape_loop.simps[of s])

lemma unescape_loop_trunc [simp]:
  "BSL \<notin> set p \<Longrightarrow> unescape_loop (p @ [BSL]) out = Inl TruncatedEscape"
  by (simp add: unescape_loop.simps[of "p @ [BSL]"] find_byte_here)

lemma unescape_loop_run:
  "BSL \<notin> set p \<Longrightarrow> unescape_loop (p @ BSL # c # s) out
     = and_then (escape_value c s) (\<lambda>(b, s'). unescape_loop s' (out @ p @ [b]))"
  by (subst unescape_loop.simps) (auto simp: find_byte_here split: sum.splits)

lemma unescape_loop_prefix:
  "unescape_loop s (pre @ out) = and_then (unescape_loop s out) (\<lambda>d. Inr (pre @ d))"
proof (induction s arbitrary: out rule: measure_induct_rule[of length])
  case (less s)
  show ?case
  proof (cases "BSL \<in> set s")
    case True
    then obtain p r where p: "s = p @ BSL # r" "BSL \<notin> set p" by (metis split_list_first)
    show ?thesis
    proof (cases r)
      case Nil
      with p show ?thesis by simp
    next
      case (Cons c t)
      have *: "unescape_loop t' (pre @ out @ p @ [b])
               = and_then (unescape_loop t' (out @ p @ [b])) (\<lambda>d. Inr (pre @ d))"
        if "escape_value c t = Inr (b, t')" for b t'
        using less[of t' "out @ p @ [b]"] escape_value_length[OF that] p(1) Cons by simp
      then show ?thesis
        by (cases "escape_value c t") (auto simp: p Cons unescape_loop_run)
    qed
  qed simp
qed

lemma unescape_loop_from_Nil:
  "unescape_loop s out = and_then (unescape_loop s []) (\<lambda>d. Inr (out @ d))"
  using unescape_loop_prefix[of s out "[]"] by simp

lemma unescape_into_from_Nil:
  "unescape_into f out = and_then (unescape_into f []) (\<lambda>d. Inr (out @ d))"
  by (cases f) (simp_all, metis unescape_loop_from_Nil)

lemma unescape_loop_shrinks: "unescape_loop s out = Inr d \<Longrightarrow> length d \<le> length out + length s"
proof (induction s arbitrary: out rule: measure_induct_rule[of length])
  case (less s)
  show ?case
  proof (cases "BSL \<in> set s")
    case True
    then obtain p r where p: "s = p @ BSL # r" "BSL \<notin> set p" by (metis split_list_first)
    obtain c t where r: "r = c # t"
      using less.prems p by (cases r) auto
    obtain b t' where bt: "escape_value c t = Inr (b, t')" "unescape_loop t' (out @ p @ [b]) = Inr d"
      using less.prems by (auto simp: p r unescape_loop_run)
    have "length t' \<le> length t" by (rule escape_value_length[OF bt(1)])
    with less.IH[OF _ bt(2)] p r show ?thesis by simp
  qed (use less.prems in auto)
qed

lemma classify_raw: "unescape_into (classify r) [] = Inr d \<Longrightarrow> length d \<le> length r"
  by (auto simp: classify_def split: if_splits dest: unescape_loop_shrinks)


subsection \<open>The reference decoding of a row\<close>

text \<open>
  The specification the iterators implement: cut the row at every tab, check the piece at index \<open>i\<close>
  against the limits, decode it, and compare the number of pieces with what is expected.
\<close>

definition checked_field :: "limits \<Rightarrow> nat \<Rightarrow> bytes \<Rightarrow> field res" where
  "checked_field lim i p =
     (if max_columns lim < Suc i then Inl (TooManyColumns (Suc i) (max_columns lim))
      else if max_field_bytes lim < length p then Inl (FieldTooLarge (length p) (max_field_bytes lim))
      else Inr (classify p))"

fun decode_pieces :: "limits \<Rightarrow> nat \<Rightarrow> bytes list \<Rightarrow> bytes option list res" where
  "decode_pieces lim i [] = Inr []"
| "decode_pieces lim i (p # ps) =
     and_then (checked_field lim i p) (\<lambda>f.
     and_then (to_vec f) (\<lambda>v.
     and_then (decode_pieces lim (Suc i) ps) (\<lambda>vs. Inr (v # vs))))"

definition decode_cells :: "bytes \<Rightarrow> nat \<Rightarrow> limits \<Rightarrow> bytes option list res" where
  "decode_cells r expected lim =
     (if max_row_bytes lim < length r then Inl (RowTooLarge (length r) (max_row_bytes lim))
      else and_then (decode_pieces lim 0 (split_on TAB r)) (\<lambda>vs.
        if length vs \<noteq> expected then Inl (FieldCountMismatch (length vs) expected) else Inr vs))"

definition cell_bytes :: "bytes option \<Rightarrow> bytes" where
  "cell_bytes v = (case v of None \<Rightarrow> [] | Some d \<Rightarrow> d)"

fun ranges :: "nat \<Rightarrow> bytes option list \<Rightarrow> (nat \<times> nat) option list" where
  "ranges n [] = []"
| "ranges n (None # vs) = None # ranges n vs"
| "ranges n (Some d # vs) = Some (n, n + length d) # ranges (n + length d) vs"

lemma cell_bytes_simps [simp]: "cell_bytes None = []" "cell_bytes (Some d) = d"
  by (simp_all add: cell_bytes_def)

lemma length_ranges [simp]: "length (ranges n vs) = length vs"
  by (induction n vs rule: ranges.induct) auto

lemma cells_ranges: "map (cell (pre @ concat (map cell_bytes vs))) (ranges (length pre) vs) = vs"
proof (induction vs arbitrary: pre)
  case (Cons v vs)
  show ?case
  proof (cases v)
    case None
    then show ?thesis using Cons[of pre] by (simp add: cell_def)
  next
    case (Some d)
    then show ?thesis using Cons[of "pre @ d"] by (simp add: cell_def)
  qed
qed simp

lemma ranges_bounded:
  "rg \<in> set (ranges n vs) \<Longrightarrow>
   case rg of None \<Rightarrow> True | Some (a, b) \<Rightarrow> n \<le> a \<and> a \<le> b \<and> b \<le> n + length (concat (map cell_bytes vs))"
proof (induction n vs rule: ranges.induct)
  case (3 n d vs)
  then show ?case by (force split: option.splits)
qed (auto split: option.splits)

lemma fields_next_tab:
  assumes "it_row_checked it" "\<not> it_finished it" "drop (it_pos it) (it_row it) = p @ TAB # r" "TAB \<notin> set p"
  shows "fields_next it =
    (Some (checked_field (it_limits it) (it_count it) p),
     it\<lparr>it_row_checked := True, it_pos := it_pos it + length p + 1, it_count := Suc (it_count it),
        it_finished := (\<exists>e. checked_field (it_limits it) (it_count it) p = Inl e)\<rparr>)"
  using assms by (cases it) (auto simp: fields_next_def find_byte_here checked_field_def)

lemma fields_next_end:
  assumes "it_row_checked it" "\<not> it_finished it" "drop (it_pos it) (it_row it) = p" "TAB \<notin> set p"
  shows "fields_next it =
    (Some (checked_field (it_limits it) (it_count it) p),
     it\<lparr>it_row_checked := True, it_count := Suc (it_count it), it_finished := True\<rparr>)"
  using assms by (cases it) (auto simp: fields_next_def checked_field_def)

lemma fields_next_finished:
  "it_row_checked it \<Longrightarrow> it_finished it \<Longrightarrow> fields_next it = (None, it)"
  by (cases it) (auto simp: fields_next_def)

lemma decode_loop_finished:
  "it_row_checked it \<Longrightarrow> it_finished it \<Longrightarrow> decode_loop it scratch out = Inr (scratch, out)"
  by (simp add: decode_loop.simps[of it] fields_next_finished)

lemma decode_loop_step:
  assumes "fields_next it = (Some (checked_field lim i p), it')"
  shows "decode_loop it scratch out =
    and_then (checked_field lim i p) (\<lambda>f. and_then (to_vec f) (\<lambda>v.
      decode_loop it' (scratch @ cell_bytes v) (out @ ranges (length scratch) [v])))"
proof (cases "checked_field lim i p")
  case (Inr f)
  show ?thesis
  proof (cases "is_null f")
    case False
    show ?thesis
      using assms Inr False
      by (subst decode_loop.simps, subst unescape_into_from_Nil)
         (cases "unescape_into f []", auto simp: to_vec_def)
  qed (use assms Inr in \<open>simp add: decode_loop.simps[of it] to_vec_def\<close>)
qed (use assms in \<open>simp add: decode_loop.simps[of it]\<close>)


lemma ranges_Cons: "ranges n (v # vs) = ranges n [v] @ ranges (n + length (cell_bytes v)) vs"
  by (cases v) auto

lemma ranges_snoc: "ranges n [v] @ ranges (n + length (cell_bytes v)) vs = ranges n (v # vs)"
  by (metis ranges_Cons)

lemma decode_loop_pieces:
  assumes "it_row_checked it" "\<not> it_finished it" "it_pos it \<le> length (it_row it)"
  shows "decode_loop it scratch out =
    and_then (decode_pieces (it_limits it) (it_count it) (split_on TAB (drop (it_pos it) (it_row it)))) (\<lambda>vs.
      Inr (scratch @ concat (map cell_bytes vs), out @ ranges (length scratch) vs))"
  using assms
proof (induction "length (it_row it) - it_pos it" arbitrary: it scratch out rule: less_induct)
  case less
  let ?t = "drop (it_pos it) (it_row it)"
  show ?case
  proof (cases "TAB \<in> set ?t")
    case True
    then obtain p r where t: "?t = p @ TAB # r" "TAB \<notin> set p" by (metis split_list_first)
    note step = decode_loop_step[OF fields_next_tab[OF less.prems(1,2) t]]
    show ?thesis
    proof (cases "checked_field (it_limits it) (it_count it) p")
      case (Inr f)
      let ?it' = "it\<lparr>it_row_checked := True, it_pos := it_pos it + length p + 1, it_count := Suc (it_count it),
        it_finished := False\<rparr>"
      have r: "r = drop (it_pos ?it') (it_row ?it')"
        using arg_cong[OF t(1), of "drop (Suc (length p))"] by (simp add: add.commute)
      have len: "length ?t = Suc (length p + length r)" using arg_cong[OF t(1), of length] by simp
      then have "length (it_row ?it') - it_pos ?it' < length (it_row it) - it_pos it" "it_pos ?it' \<le> length (it_row ?it')"
        by auto
      from less.hyps[OF this(1) _ _ this(2)] r
      have "decode_loop ?it' scr ot = and_then (decode_pieces (it_limits it) (Suc (it_count it)) (split_on TAB r))
          (\<lambda>vs. Inr (scr @ concat (map cell_bytes vs), ot @ ranges (length scr) vs))" for scr ot
        by simp
      then have "decode_loop it scratch out = and_then (to_vec f) (\<lambda>v.
          and_then (decode_pieces (it_limits it) (Suc (it_count it)) (split_on TAB r)) (\<lambda>vs.
          Inr ((scratch @ cell_bytes v) @ concat (map cell_bytes vs),
               (out @ ranges (length scratch) [v]) @ ranges (length (scratch @ cell_bytes v)) vs)))"
        using step Inr by simp
      also have "\<dots> = and_then (to_vec f) (\<lambda>v.
          and_then (decode_pieces (it_limits it) (Suc (it_count it)) (split_on TAB r)) (\<lambda>vs.
          Inr (scratch @ concat (map cell_bytes (v # vs)), out @ ranges (length scratch) (v # vs))))"
        by (intro arg_cong2[where f = and_then] refl ext) (simp add: ranges_snoc)
      finally show ?thesis using Inr t by (simp add: split_on_sep and_then_assoc)
    qed (use step t in \<open>simp add: split_on_sep\<close>)
  next
    case False
    let ?it' = "it\<lparr>it_row_checked := True, it_count := Suc (it_count it), it_finished := True\<rparr>"
    have "decode_loop ?it' scr ot = Inr (scr, ot)" for scr ot
      by (simp add: decode_loop_finished)
    then show ?thesis
      using decode_loop_step[OF fields_next_end[OF less.prems(1,2) refl False], of scratch out]
      by (cases "checked_field (it_limits it) (it_count it) ?t") (auto simp: False to_vec_def and_then_assoc)
  qed
qed


lemma decode_loop_fields:
  "decode_loop (fields r lim) [] [] =
     (if max_row_bytes lim < length r then Inl (RowTooLarge (length r) (max_row_bytes lim))
      else and_then (decode_pieces lim 0 (split_on TAB r)) (\<lambda>vs.
        Inr (concat (map cell_bytes vs), ranges 0 vs)))"
proof (cases "max_row_bytes lim < length r")
  case True
  then show ?thesis by (subst decode_loop.simps) (simp add: fields_next_def fields_def)
next
  case False
  let ?it = "(fields r lim)\<lparr>it_row_checked := True\<rparr>"
  have "fields_next (fields r lim) = fields_next ?it"
    using False by (simp add: fields_next_def fields_def)
  then have "decode_loop (fields r lim) [] [] = decode_loop ?it [] []"
    by (simp add: decode_loop.simps[of "fields r lim"] decode_loop.simps[of ?it])
  also have "\<dots> = and_then (decode_pieces lim 0 (split_on TAB r)) (\<lambda>vs.
      Inr (concat (map cell_bytes vs), ranges 0 vs))"
    by (subst decode_loop_pieces) (simp_all add: fields_def)
  finally show ?thesis using False by simp
qed

lemma decode_row_eq:
  "decode_row r n lim =
     and_then (decode_cells r n lim) (\<lambda>vs. Inr (concat (map cell_bytes vs), ranges 0 vs))"
  by (cases "decode_pieces lim 0 (split_on TAB r)")
     (auto simp: decode_row_def decode_cells_def decode_loop_fields)

lemma row_cells_eq: "row_cells r n lim = decode_cells r n lim"
  by (cases "decode_cells r n lim")
     (simp_all add: row_cells_def decode_row_eq cells_ranges[of "[]", simplified])

lemma decode_piecesD:
  assumes "decode_pieces lim i ps = Inr vs"
  shows "length vs = length ps"
    and "ps \<noteq> [] \<Longrightarrow> i + length ps \<le> max_columns lim"
    and "list_all2 (\<lambda>v p. length (cell_bytes v) \<le> length p \<and> length p \<le> max_field_bytes lim) vs ps"
proof -
  have "length vs = length ps \<and> (ps \<noteq> [] \<longrightarrow> i + length ps \<le> max_columns lim)
    \<and> list_all2 (\<lambda>v p. length (cell_bytes v) \<le> length p \<and> length p \<le> max_field_bytes lim) vs ps"
    using assms
  proof (induction lim i ps arbitrary: vs rule: decode_pieces.induct)
    case (2 lim i p ps)
    then obtain v vs' where v: "to_vec (classify p) = Inr v" "decode_pieces lim (Suc i) ps = Inr vs'"
        "vs = v # vs'" and lim: "Suc i \<le> max_columns lim" "length p \<le> max_field_bytes lim"
      and f: "checked_field lim i p = Inr (classify p)"
      by (auto simp: checked_field_def split: if_splits)
    from v(1) have "length (cell_bytes v) \<le> length p"
      by (auto simp: to_vec_def split: if_splits dest: classify_raw)
    with 2(1)[OF f v(1,2)] v(3) lim show ?case by (cases ps) auto
  qed simp
  then show "length vs = length ps"
    and "ps \<noteq> [] \<Longrightarrow> i + length ps \<le> max_columns lim"
    and "list_all2 (\<lambda>v p. length (cell_bytes v) \<le> length p \<and> length p \<le> max_field_bytes lim) vs ps"
    by auto
qed

lemma list_all2_in1: "list_all2 P xs ys \<Longrightarrow> x \<in> set xs \<Longrightarrow> \<exists>y. P x y"
  by (induction rule: list_all2_induct) auto

lemma length_concat_le:
  "list_all2 (\<lambda>v p. length (f v) \<le> length p \<and> Q v p) vs ps \<Longrightarrow>
     length (concat (map f vs)) \<le> length (concat ps)"
  by (induction rule: list_all2_induct) auto

lemma length_concat_split: "length (concat (split_on sep s)) \<le> length s"
proof (induction s)
  case (Cons x s)
  then show ?case by (cases "split_on sep s") auto
qed simp

lemma decode_cellsD:
  assumes "decode_cells r n lim = Inr vs"
  shows "length r \<le> max_row_bytes lim" "length vs = n" "0 < n" "n \<le> max_columns lim"
    and "v \<in> set vs \<Longrightarrow> length (cell_bytes v) \<le> max_field_bytes lim"
    and "length (concat (map cell_bytes vs)) \<le> length r"
proof -
  from assms have d: "decode_pieces lim 0 (split_on TAB r) = Inr vs" "length vs = n"
      "length r \<le> max_row_bytes lim"
    by (auto simp: decode_cells_def split: if_splits)
  note D = decode_piecesD[OF d(1)]
  show "length r \<le> max_row_bytes lim" "length vs = n" by fact+
  show "0 < n" "n \<le> max_columns lim" using D(1,2) d(2) by (auto simp: length_split_on)
  show "length (cell_bytes v) \<le> max_field_bytes lim" if "v \<in> set vs"
    using list_all2_in1[OF D(3) that] by auto
  show "length (concat (map cell_bytes vs)) \<le> length r"
    by (rule le_trans[OF length_concat_le[OF D(3)] length_concat_split])
qed

subsection \<open>What PostgreSQL writes\<close>

text \<open>
  The abstract side of the format, as PostgreSQL documents it for \<open>COPY TO\<close> in text form: which
  bytes are written as a backslash and a letter, how NULL is written, and that the columns of a row
  are separated by tabs and the rows ended by newlines.
\<close>

definition copy_escape_byte :: "char \<Rightarrow> bytes" where
  "copy_escape_byte c =
     (if c = CHR 0x08 then [BSL, CHR ''b''] else if c = CHR 0x0C then [BSL, CHR ''f'']
      else if c = NL then [BSL, CHR ''n''] else if c = CR then [BSL, CHR ''r'']
      else if c = TAB then [BSL, CHR ''t''] else if c = CHR 0x0B then [BSL, CHR ''v'']
      else if c = BSL then [BSL, BSL] else [c])"

definition copy_escape :: "bytes \<Rightarrow> bytes" where
  "copy_escape s = concat (map copy_escape_byte s)"

fun copy_cell :: "bytes option \<Rightarrow> bytes" where
  "copy_cell None = [BSL, CHR ''N'']"
| "copy_cell (Some s) = copy_escape s"

definition copy_row :: "bytes option list \<Rightarrow> bytes" where
  "copy_row vs = join_with TAB (map copy_cell vs)"

definition copy_body :: "bytes option list list \<Rightarrow> bytes" where
  "copy_body rws = concat (map (\<lambda>vs. copy_row vs @ [NL]) rws)"

lemma unescape_loop_Cons: "c \<noteq> BSL \<Longrightarrow> unescape_loop (c # s) out = unescape_loop s (out @ [c])"
proof (cases "BSL \<in> set s")
  case True
  then obtain p r where s: "s = p @ BSL # r" "BSL \<notin> set p" by (metis split_list_first)
  assume c: "c \<noteq> BSL"
  then have n: "BSL \<notin> set (c # p)" using s(2) by simp
  show ?thesis
  proof (cases r)
    case Nil
    then show ?thesis using s unescape_loop_trunc[OF n] by simp
  next
    case (Cons d t)
    then show ?thesis using s unescape_loop_run[OF n, of d t out] unescape_loop_run[OF s(2), of d t] by simp
  qed
qed simp

lemma unescape_loop_escape:
  "unescape_loop (BSL # c # s) out = and_then (escape_value c s) (\<lambda>(b, s'). unescape_loop s' (out @ [b]))"
  using unescape_loop_run[of "[]" c s out] by simp

lemma unescape_copy_escape: "unescape_loop (copy_escape s) out = Inr (out @ s)"
proof (induction s arbitrary: out)
  case (Cons c s)
  then show ?case
    by (simp add: copy_escape_def copy_escape_byte_def unescape_loop_Cons unescape_loop_escape
        escape_value_def is_octal_def)
qed (simp add: copy_escape_def)

lemma to_vec_classify:
  "p \<noteq> NULL_MARKER \<Longrightarrow> to_vec (classify p) = and_then (unescape_loop p []) (\<lambda>d. Inr (Some d))"
  by (simp add: classify_def to_vec_def is_null_def)

lemma to_vec_null [simp]: "to_vec (classify NULL_MARKER) = Inr None"
  by (simp add: classify_def to_vec_def is_null_def)

lemma copy_escape_not_marker: "c \<in> {CHR ''N'', CHR ''.''} \<Longrightarrow> copy_escape s \<noteq> [BSL, c]"
  by (cases s) (auto simp: copy_escape_def copy_escape_byte_def)

lemma copy_escape_clean: "b \<in> {TAB, NL, CR} \<Longrightarrow> b \<notin> set (copy_escape s)"
  by (induction s) (auto simp: copy_escape_def copy_escape_byte_def)

lemma copy_cell_clean: "b \<in> {TAB, NL, CR} \<Longrightarrow> b \<notin> set (copy_cell v)"
  using copy_escape_clean by (cases v) auto

interpretation copy_cells: separated_codec copy_cell "\<lambda>p. to_vec (classify p)" "\<lambda>_. True" TAB
proof
  fix v :: "bytes option"
  show "to_vec (classify (copy_cell v)) = Inr v"
  proof (cases v)
    case (Some s)
    have "copy_escape s \<noteq> NULL_MARKER" using copy_escape_not_marker by (simp add: NULL_MARKER_def)
    then show ?thesis using Some by (simp add: to_vec_classify unescape_copy_escape)
  qed (simp add: to_vec_null[unfolded NULL_MARKER_def])
  show "TAB \<notin> set (copy_cell v)" by (rule copy_cell_clean) simp
qed


subsection \<open>Rows\<close>

lemma rows_append_line: "NL \<notin> set l \<Longrightarrow> rows (l @ NL # s) = (strip_cr l # fst (rows s), snd (rows s))"
  by (subst rows.simps) (simp add: rows_next_def find_byte_here split: prod.splits)

lemma rows_partial: "NL \<notin> set s \<Longrightarrow> rows s = ([], s)"
  by (subst rows.simps) (simp add: rows_next_def)

lemma rows_split: "rows s = (map strip_cr (butlast (split_on NL s)), last (split_on NL s))"
proof (induction s rule: measure_induct_rule[of length])
  case (less s)
  show ?case
  proof (cases "NL \<in> set s")
    case True
    then obtain p r where p: "s = p @ NL # r" "NL \<notin> set p" by (metis split_list_first)
    then show ?thesis using less[of r] by (simp add: rows_append_line split_on_sep)
  qed (simp add: rows_partial)
qed

lemma rows_append:
  "rows (a @ b) = (fst (rows a) @ fst (rows (snd (rows a) @ b)), snd (rows (snd (rows a) @ b)))"
proof (induction a rule: measure_induct_rule[of length])
  case (less a)
  show ?case
  proof (cases "NL \<in> set a")
    case True
    then obtain p r where p: "a = p @ NL # r" "NL \<notin> set p" by (metis split_list_first)
    then show ?thesis using less[of r] by (simp add: rows_append_line)
  qed (simp add: rows_partial)
qed

lemma strip_cr_id [simp]: "CR \<notin> set l \<Longrightarrow> strip_cr l = l"
  by (metis last_in_set strip_cr_def)

lemma copy_row_clean: "b \<in> {NL, CR} \<Longrightarrow> b \<notin> set (copy_row vs)"
  using copy_cell_clean by (fastforce simp: copy_row_def dest!: set_join_with)

lemma rows_copy_body: "rows (copy_body rws @ s) = (map copy_row rws @ fst (rows s), snd (rows s))"
proof (induction rws)
  case (Cons vs rws)
  have "rows (copy_row vs @ NL # (copy_body rws @ s))
      = (copy_row vs # (map copy_row rws @ fst (rows s)), snd (rows s))"
    using Cons copy_row_clean by (simp add: rows_append_line)
  then show ?case by (simp add: copy_body_def)
qed (simp add: copy_body_def)

lemma copy_row_pieces: "vs \<noteq> [] \<Longrightarrow> split_on TAB (copy_row vs) = map copy_cell vs"
  unfolding copy_row_def by (rule copy_cells.split_enc) simp_all

lemma decode_pieces_map_res:
  assumes "ps \<noteq> [] \<longrightarrow> i + length ps \<le> max_columns lim" "\<And>p. p \<in> set ps \<Longrightarrow> length p \<le> max_field_bytes lim"
  shows "decode_pieces lim i ps = map_res (\<lambda>p. to_vec (classify p)) ps"
  using assms
proof (induction lim i ps rule: decode_pieces.induct)
  case (2 lim i p ps)
  have f: "checked_field lim i p = Inr (classify p)" using 2(2) 2(3)[of p] by (simp add: checked_field_def)
  have "decode_pieces lim (Suc i) ps = map_res (\<lambda>p. to_vec (classify p)) ps" if "to_vec (classify p) = Inr v" for v
    using 2(1)[OF f that] 2(2,3) by (cases ps) auto
  then show ?case using f by (cases "to_vec (classify p)") simp_all
qed simp

lemma copy_row_not_end: "vs \<noteq> [] \<Longrightarrow> \<not> is_end_of_data (copy_row vs)"
proof
  assume ne: "vs \<noteq> []" and e: "is_end_of_data (copy_row vs)"
  then have "split_on TAB END_OF_DATA = map copy_cell vs"
    using copy_row_pieces by (metis is_end_of_data_def)
  then obtain v where "copy_cell v = END_OF_DATA" by (cases vs) (auto simp: END_OF_DATA_def)
  then show False
    by (cases v) (auto simp: END_OF_DATA_def copy_escape_not_marker)
qed

text \<open>A row PostgreSQL could write under the limits.\<close>

definition row_fits :: "limits \<Rightarrow> nat \<Rightarrow> bytes option list \<Rightarrow> bool" where
  "row_fits lim n vs \<longleftrightarrow> length vs = n \<and> 0 < n \<and> n \<le> max_columns lim
     \<and> length (copy_row vs) \<le> max_row_bytes lim
     \<and> list_all (\<lambda>v. length (copy_cell v) \<le> max_field_bytes lim) vs"

lemma decode_cells_copy_row: "row_fits lim n vs \<Longrightarrow> decode_cells (copy_row vs) n lim = Inr vs"
proof -
  assume r: "row_fits lim n vs"
  then have ne: "vs \<noteq> []" by (auto simp: row_fits_def)
  have "decode_pieces lim 0 (map copy_cell vs) = map_res (\<lambda>p. to_vec (classify p)) (map copy_cell vs)"
    using r by (intro decode_pieces_map_res) (auto simp: row_fits_def list_all_iff)
  also have "\<dots> = Inr vs" by (rule copy_cells.map_dec_enc) simp
  finally show ?thesis using r ne by (simp add: decode_cells_def copy_row_pieces row_fits_def)
qed

subsection \<open>Properties\<close>

text \<open>
  C8. \<open>decode_row\<close> is the reference decoding: for every row, expected count and limits it fails with
  the reference's error, or its ranges read from its scratch buffer give the reference's cells.
\<close>

theorem decode_row_is_reference:
  "and_then (decode_row r n lim) (\<lambda>(scratch, out). Inr (map (cell scratch) out)) = decode_cells r n lim"
  using row_cells_eq by (simp add: row_cells_def)

text \<open>
  C15. Whatever a row holds, a successful decode stays inside the limits: the row, the number of
  columns and every decoded field are bounded, there is exactly one range per expected column, every
  range lies inside the scratch buffer, and the scratch buffer is no longer than the row.
\<close>

theorem decode_row_bounded:
  assumes "decode_row r n lim = Inr (scratch, out)"
  shows "length r \<le> max_row_bytes lim \<and> length out = n \<and> n \<le> max_columns lim
    \<and> length scratch \<le> length r
    \<and> list_all (\<lambda>rg. case rg of None \<Rightarrow> True
        | Some (a, b) \<Rightarrow> a \<le> b \<and> b \<le> length scratch \<and> b - a \<le> max_field_bytes lim) out"
proof -
  obtain vs where vs: "decode_cells r n lim = Inr vs" "scratch = concat (map cell_bytes vs)" "out = ranges 0 vs"
    using assms by (auto simp: decode_row_eq)
  note D = decode_cellsD[OF vs(1)]
  have c: "map (cell scratch) out = vs" using vs cells_ranges[of "[]" vs] by simp
  have "b - a \<le> max_field_bytes lim" if "Some (a, b) \<in> set out" for a b
  proof -
    have "cell scratch (Some (a, b)) \<in> set vs" using that c by (metis imageI list.set_map)
    moreover have "b \<le> length scratch" using ranges_bounded[of "Some (a, b)" 0 vs] that vs by simp
    ultimately show ?thesis using D(5)[of "cell scratch (Some (a, b))"] by (simp add: cell_def)
  qed
  then have "case rg of None \<Rightarrow> True
      | Some (a, b) \<Rightarrow> a \<le> b \<and> b \<le> length scratch \<and> b - a \<le> max_field_bytes lim"
    if "rg \<in> set out" for rg
    using ranges_bounded[of rg 0 vs] that vs(2,3) by (cases rg) auto
  then show ?thesis using D(1-4) D(6) vs(2,3) by (simp add: list_all_iff)
qed

theorem decode_row_bounded_witness:
  "let lim = \<lparr>max_field_bytes = 4, max_row_bytes = 9, max_columns = 2\<rparr>;
       r = CHR ''a'' # TAB # NULL_MARKER
   in decode_row r 2 lim = Inr (''a'', [Some (0, 1), None]) \<and> length r \<le> max_row_bytes lim"
proof -
  let ?lim = "\<lparr>max_field_bytes = 4, max_row_bytes = 9, max_columns = 2\<rparr>"
  have d: "decode_row (CHR ''a'' # TAB # NULL_MARKER) 2 ?lim = Inr (''a'', [Some (0, 1), None])"
    by code_simp
  show ?thesis using d decode_row_bounded[OF d] unfolding Let_def by blast
qed

text \<open>
  C9. The whole way back: a table body written as PostgreSQL documents it, cut into rows and decoded
  row by row, gives exactly the rows that were written, whatever bytes the fields hold, and leaves
  nothing behind; and none of its lines is taken for the end-of-data marker.
\<close>

theorem copy_body_round_trip:
  assumes "list_all (row_fits lim n) rws"
  shows "snd (rows (copy_body rws)) = []
    \<and> map_res (\<lambda>l. row_cells l n lim) (fst (rows (copy_body rws))) = Inr rws
    \<and> list_all (\<lambda>l. \<not> is_end_of_data l) (fst (rows (copy_body rws)))"
proof -
  have r: "rows (copy_body rws) = (map copy_row rws, [])"
    using rows_copy_body[of rws "[]"] by (simp add: rows_partial)
  have "map_res (\<lambda>l. row_cells l n lim) (map copy_row rws) = Inr rws"
    using assms by (induction rws) (simp_all add: row_cells_eq decode_cells_copy_row)
  moreover have "\<not> is_end_of_data (copy_row vs)" if "row_fits lim n vs" for vs
    using that by (intro copy_row_not_end) (auto simp: row_fits_def)
  ultimately show ?thesis using r assms by (simp add: list_all_iff)
qed


theorem copy_body_round_trip_witness:
  "let lim = \<lparr>max_field_bytes = 4, max_row_bytes = 9, max_columns = 2\<rparr>;
       rws = [[Some [TAB, NL], None], [Some [], Some [BSL, CHR ''.'']]]
   in map_res (\<lambda>l. row_cells l 2 lim) (fst (rows (copy_body rws))) = Inr rws"
proof -
  let ?lim = "\<lparr>max_field_bytes = 4, max_row_bytes = 9, max_columns = 2\<rparr>"
  have "list_all (row_fits ?lim 2) [[Some [TAB, NL], None], [Some [], Some [BSL, CHR ''.'']]]"
    by code_simp
  from copy_body_round_trip[OF this] show ?thesis unfolding Let_def by blast
qed

text \<open>
  C16. Cutting the stream into chunks changes no row: reading a chunk, carrying its remainder in front
  of the next one and reading on yields the same rows, carriage returns stripped, and the same
  remainder as reading both at once; and either way these are the lines between the newlines.
\<close>

theorem rows_chunks:
  "rows (a @ b) = (case rows a of (ls, carry) \<Rightarrow> (case rows (carry @ b) of (ls', rest) \<Rightarrow> (ls @ ls', rest)))
   \<and> rows a = (map strip_cr (butlast (split_on NL a)), last (split_on NL a))"
  by (simp add: rows_split[of a] flip: rows_append)
     (simp add: rows_split[of a] rows_append[of a b] split: prod.splits)

end
