(* ===== verification/Sql_Scan.thy ===== *)
theory Sql_Scan
  imports Copy_Text
begin

section \<open>The dump scanner\<close>

text \<open>
  \<open>src/scan.rs\<close>: the event type, the \<open>Scanner\<close> with its handler of one SQL line and its chunk loop, and
  the hand-written parsers of identifiers, \<open>CREATE TABLE\<close> and \<open>COPY\<close> headers. An index loop over a
  slice is a recursion over the bytes from that index on; parenthesis depths (\<open>i32\<close>) are integers,
  and text that would wrap one is longer than any statement the scanner accumulates. A handler that
  fails returns its error only: the scanner is not used after an error. Lemmas: the chunk loop computes
  a line-at-a-time scanner, the events follow the COPY protocol, identifiers and headers written the
  way PostgreSQL quotes them are read back.
\<close>

subsection \<open>Names, columns, events\<close>

definition SUPPORTED_MAJORS :: "nat list" where
  "SUPPORTED_MAJORS = [16, 17]"

record table_name =
  tn_schema :: "bytes option"
  tn_table :: bytes

definition qualified_name :: "table_name \<Rightarrow> bytes" where
  "qualified_name n =
     (case tn_schema n of Some schema \<Rightarrow> schema @ CHR ''.'' # tn_table n | None \<Rightarrow> tn_table n)"

record column_def =
  cd_name :: bytes
  cd_type :: bytes

record table_def =
  td_name :: table_name
  td_columns :: "column_def list"

datatype event =
    DumpVersion nat "nat option"
  | TableEvent table_def
  | CopyStart table_name "bytes list"
  | CopyRows bytes
  | CopyEnd table_name

datatype scan_state = InSql | InCopy

record scanner =
  sc_state :: scan_state
  sc_pending :: bytes
  sc_ddl :: bytes
  sc_in_create :: bool
  sc_skipping_create :: bool
  sc_open_table :: "table_name option"
  sc_dumped_by :: "nat option"
  sc_from_database :: "nat option"
  sc_tables :: "bytes \<rightharpoonup> table_def"
  sc_excluded :: "bytes set"

definition new_scanner :: scanner where
  "new_scanner =
     \<lparr>sc_state = InSql, sc_pending = [], sc_ddl = [], sc_in_create = False, sc_skipping_create = False,
      sc_open_table = None, sc_dumped_by = None, sc_from_database = None, sc_tables = Map.empty,
      sc_excluded = {}\<rparr>"

definition set_excluded_schemas :: "bytes list \<Rightarrow> scanner \<Rightarrow> scanner" where
  "set_excluded_schemas schemas s = s\<lparr>sc_excluded := set schemas\<rparr>"

subsection \<open>Text helpers\<close>

definition strip_prefix_ci :: "bytes \<Rightarrow> bytes \<Rightarrow> bytes option" where
  "strip_prefix_ci line prefix =
     (if length prefix \<le> length line \<and> eq_ignore_ascii_case (take (length prefix) line) prefix
      then Some (drop (length prefix) line) else None)"

definition ends_with_ci :: "bytes \<Rightarrow> bytes \<Rightarrow> bool" where
  "ends_with_ci line suffix \<longleftrightarrow>
     length suffix \<le> length line \<and> eq_ignore_ascii_case (drop (length line - length suffix) line) suffix"

definition U32_MAX :: nat where "U32_MAX = 4294967295"

definition leading_major :: "bytes \<Rightarrow> nat option" where
  "leading_major s =
     (let digits = takeWhile is_ascii_digit (dropWhile is_ascii_whitespace s)
      in if digits = [] then None else parse_unsigned U32_MAX digits)"

text \<open>\<open>split_top_level\<close>: \<open>piece\<close> is \<open>s[start..i]\<close>, and the first argument list is \<open>s[i..]\<close>.\<close>

fun split_loop :: "char \<Rightarrow> bytes \<Rightarrow> int \<Rightarrow> bool \<Rightarrow> bytes \<Rightarrow> bytes list" where
  "split_loop sep [] depth quoted piece = [piece]"
| "split_loop sep (c # s) depth quoted piece =
     (if quoted then
        (if c = DQ then
           (case s of
              d # t \<Rightarrow> if d = DQ then split_loop sep t depth True (piece @ [c, d])
                       else split_loop sep s depth False (piece @ [c])
            | [] \<Rightarrow> split_loop sep s depth False (piece @ [c]))
         else split_loop sep s depth True (piece @ [c]))
      else if c = DQ then split_loop sep s depth True (piece @ [c])
      else if c = CHR ''('' then split_loop sep s (depth + 1) False (piece @ [c])
      else if c = CHR '')'' then split_loop sep s (depth - 1) False (piece @ [c])
      else if c = sep \<and> depth = 0 then piece # split_loop sep s depth False []
      else split_loop sep s depth False (piece @ [c]))"

definition split_top_level :: "bytes \<Rightarrow> char \<Rightarrow> bytes list" where
  "split_top_level s sep = split_loop sep s 0 False []"

subsection \<open>Identifiers\<close>

fun quoted_loop :: "bytes \<Rightarrow> bytes \<Rightarrow> (bytes \<times> bytes) option" where
  "quoted_loop [] name = None"
| "quoted_loop (c # s) name =
     (if c = DQ then
        (case s of
           d # t \<Rightarrow> if d = DQ then quoted_loop t (name @ [DQ]) else Some (from_utf8_lossy name, s)
         | [] \<Rightarrow> Some (from_utf8_lossy name, s))
      else quoted_loop s (name @ [c]))"

definition ident_stop :: "char \<Rightarrow> bool" where
  "ident_stop c \<longleftrightarrow> is_ascii_whitespace c \<or> c = CHR ''('' \<or> c = CHR '','' \<or> c = CHR ''.''"

definition take_identifier :: "bytes \<Rightarrow> (bytes \<times> bytes) option" where
  "take_identifier s0 =
     (let s = trim_ascii_start s0
      in if s \<noteq> [] \<and> hd s = DQ then quoted_loop (tl s) []
         else (let e = length (takeWhile (\<lambda>c. \<not> ident_stop c) s)
               in if e = 0 then None else Some (from_utf8_lossy (take e s), drop e s)))"

definition take_qualified :: "bytes \<Rightarrow> (table_name \<times> bytes) option" where
  "take_qualified s =
     Option.bind (take_identifier s) (\<lambda>(first, rest).
       if rest \<noteq> [] \<and> hd rest = CHR ''.'' then
         Option.bind (take_identifier (tl rest)) (\<lambda>(second, rest').
           Some (\<lparr>tn_schema = Some first, tn_table = second\<rparr>, rest'))
       else Some (\<lparr>tn_schema = None, tn_table = first\<rparr>, rest))"

definition schema_is_excluded :: "scanner \<Rightarrow> bytes \<Rightarrow> bool" where
  "schema_is_excluded s after_kw \<longleftrightarrow>
     sc_excluded s \<noteq> {} \<and>
     (case take_qualified after_kw of
        Some (name, _) \<Rightarrow> (case tn_schema name of Some schema \<Rightarrow> schema \<in> sc_excluded s | None \<Rightarrow> False)
      | None \<Rightarrow> False)"

definition strip_create_table :: "bytes \<Rightarrow> bytes option" where
  "strip_create_table line =
     (case strip_prefix_ci line ''CREATE TABLE '' of
        Some r \<Rightarrow> Some r
      | None \<Rightarrow> strip_prefix_ci line ''CREATE UNLOGGED TABLE '')"

text \<open>\<open>matching_paren s open\<close>: the loop from index \<open>i\<close> on.\<close>

fun paren_loop :: "bytes \<Rightarrow> nat \<Rightarrow> int \<Rightarrow> bool \<Rightarrow> nat option" where
  "paren_loop [] i depth quoted = None"
| "paren_loop (c # s) i depth quoted =
     (if quoted then
        (if c = DQ then
           (case s of
              d # t \<Rightarrow> if d = DQ then paren_loop t (i + 2) depth True
                       else paren_loop s (i + 1) depth False
            | [] \<Rightarrow> paren_loop s (i + 1) depth False)
         else paren_loop s (i + 1) depth True)
      else if c = DQ then paren_loop s (i + 1) depth True
      else if c = CHR ''('' then paren_loop s (i + 1) (depth + 1) False
      else if c = CHR '')'' then (if depth - 1 = 0 then Some i else paren_loop s (i + 1) (depth - 1) False)
      else paren_loop s (i + 1) depth False)"

definition matching_paren :: "bytes \<Rightarrow> nat \<Rightarrow> nat option" where
  "matching_paren s open_at = paren_loop (drop open_at s) open_at 0 False"

subsection \<open>Statements\<close>

definition TYPE_TERMINATORS :: "bytes list" where
  "TYPE_TERMINATORS = [''DEFAULT'', ''NOT'', ''NULL'', ''GENERATED'', ''COLLATE'', ''CONSTRAINT'',
     ''CHECK'', ''REFERENCES'', ''PRIMARY'', ''UNIQUE'']"

definition CONSTRAINT_LEADERS :: "bytes list" where
  "CONSTRAINT_LEADERS = [''CONSTRAINT'', ''PRIMARY'', ''UNIQUE'', ''FOREIGN'', ''CHECK'', ''EXCLUDE'', ''LIKE'']"

definition first_word :: "bytes \<Rightarrow> bytes" where
  "first_word s = takeWhile (\<lambda>c. \<not> is_ascii_whitespace c) s"

text \<open>The loop of \<open>take_type\<close>: the index to cut at; \<open>fresh\<close> is \<open>i == 0 || s[i - 1].is_ascii_whitespace()\<close>.\<close>

fun cut_loop :: "bytes \<Rightarrow> nat \<Rightarrow> int \<Rightarrow> bool \<Rightarrow> nat" where
  "cut_loop [] i depth fresh = i"
| "cut_loop (c # s) i depth fresh =
     (let depth' = (if c = CHR ''('' then depth + 1 else if c = CHR '')'' then depth - 1 else depth)
      in if depth' = 0 \<and> fresh \<and> list_ex (eq_ignore_ascii_case (first_word (c # s))) TYPE_TERMINATORS then i
         else cut_loop s (i + 1) depth' (is_ascii_whitespace c))"

definition take_type :: "bytes \<Rightarrow> bytes" where
  "take_type s0 =
     (let s = trim_ascii s0 in from_utf8_lossy (trim_ascii (take (cut_loop s 0 0 True) s)))"

text \<open>One item of the column list: a column, or nothing for an empty item or a table constraint.\<close>

definition column_item :: "bytes \<Rightarrow> column_def option" where
  "column_item item0 =
     (let item = trim_ascii item0
      in if item = [] then None
         else if list_ex (eq_ignore_ascii_case (first_word item)) CONSTRAINT_LEADERS then None
         else (case take_identifier item of
                 None \<Rightarrow> None
               | Some (col, tail) \<Rightarrow>
                   (let sql_type = take_type tail
                    in if sql_type = [] then None else Some \<lparr>cd_name = col, cd_type = sql_type\<rparr>)))"

definition parse_create_table :: "bytes \<Rightarrow> table_def res" where
  "parse_create_table ddl =
     and_then (ok_or (MalformedCreateTable []) (strip_create_table (trim_ascii_start ddl))) (\<lambda>after_kw.
     and_then (ok_or (MalformedCreateTable []) (take_qualified after_kw)) (\<lambda>(name, rest).
     and_then (ok_or (MalformedCreateTable (qualified_name name)) (find_byte (CHR ''('') rest)) (\<lambda>open_at.
     and_then (ok_or (MalformedCreateTable (qualified_name name)) (matching_paren rest open_at)) (\<lambda>close.
       Inr \<lparr>td_name = name,
            td_columns = List.map_filter column_item
              (split_top_level (drop (open_at + 1) (take close rest)) (CHR '',''))\<rparr>))))"

definition parse_copy_header :: "bytes \<Rightarrow> (table_name \<times> bytes list) res" where
  "parse_copy_header line =
     and_then (ok_or (MalformedCopyHeader 0) (strip_prefix_ci (trim_ascii_start line) ''COPY '')) (\<lambda>after_kw.
     and_then (ok_or (MalformedCopyHeader 0) (take_qualified after_kw)) (\<lambda>(table, rest).
       let open_at = find_byte (CHR ''('') rest;
           close = Option.bind open_at (matching_paren rest);
           columns =
             (case (open_at, close) of
                (Some o', Some c) \<Rightarrow>
                  if o' < c then
                    List.map_filter (\<lambda>item. map_option fst (take_identifier item))
                      (split_top_level (drop (o' + 1) (take c rest)) (CHR '',''))
                  else []
              | _ \<Rightarrow> [])
       in Inr (table, columns)))"


subsection \<open>The scanner\<close>

text \<open>Whether a line ends the statement being read: \<open>line.trim_ascii_end().ends_with(b");")\<close>.\<close>

definition ends_statement :: "bytes \<Rightarrow> bool" where
  "ends_statement line \<longleftrightarrow> ends_with (trim_ascii_end line) '');''"

definition close_copy :: "scanner \<Rightarrow> scanner \<times> event list" where
  "close_copy s =
     (let s' = s\<lparr>sc_state := InSql, sc_open_table := None\<rparr>
      in case sc_open_table s of Some table \<Rightarrow> (s', [CopyEnd table]) | None \<Rightarrow> (s', []))"

text \<open>A complete statement is parsed, and its table recorded and announced.\<close>

definition define_table :: "bytes \<Rightarrow> scanner \<Rightarrow> (scanner \<times> event list) res" where
  "define_table ddl s =
     and_then (parse_create_table ddl) (\<lambda>def.
       Inr (s\<lparr>sc_tables := (sc_tables s)(qualified_name (td_name def) \<mapsto> def)\<rparr>, [TableEvent def]))"

definition sql_line :: "bytes \<Rightarrow> scanner \<Rightarrow> (scanner \<times> event list) res" where
  "sql_line line s =
     (if sc_skipping_create s then
        Inr (if ends_statement line then s\<lparr>sc_skipping_create := False\<rparr> else s, [])
      else if sc_in_create s then
        (let s1 = s\<lparr>sc_ddl := sc_ddl s @ NL # line\<rparr>
         in if ends_statement line
            then define_table (sc_ddl s1) (s1\<lparr>sc_in_create := False, sc_ddl := []\<rparr>)
            else Inr (s1, []))
      else (case strip_prefix_ci line ''-- Dumped by pg_dump version '' of
          Some r \<Rightarrow>
            (case leading_major r of
               Some major \<Rightarrow>
                 if major \<notin> set SUPPORTED_MAJORS then Inl (UnsupportedDumpVersion major)
                 else Inr (s\<lparr>sc_dumped_by := Some major\<rparr>, [DumpVersion major (sc_from_database s)])
             | None \<Rightarrow> Inr (s, []))
        | None \<Rightarrow>
      (case strip_prefix_ci line ''-- Dumped from database version '' of
          Some r \<Rightarrow> Inr (s\<lparr>sc_from_database := leading_major r\<rparr>, [])
        | None \<Rightarrow>
      if starts_with line ''--'' then Inr (s, [])
      else (case strip_create_table line of
          Some after_kw \<Rightarrow>
            if schema_is_excluded s after_kw then
              Inr (if \<not> ends_statement line then s\<lparr>sc_skipping_create := True\<rparr> else s, [])
            else if ends_statement line then define_table line (s\<lparr>sc_ddl := []\<rparr>)
            else Inr (s\<lparr>sc_ddl := line, sc_in_create := True\<rparr>, [])
        | None \<Rightarrow>
      if strip_prefix_ci line ''COPY '' \<noteq> None then
        (let trimmed = trim_ascii_end line
         in if ends_with_ci trimmed ''FROM stdin;'' then
              and_then (parse_copy_header trimmed) (\<lambda>(table, columns).
                Inr (s\<lparr>sc_open_table := Some table, sc_state := InCopy\<rparr>, [CopyStart table columns]))
            else Inr (s, []))
      else Inr (s, [])))))"

text \<open>
  \<open>find_terminator\<close>: \<open>pos\<close> counts the bytes before the suffix \<open>rest\<close> of the input.
\<close>

function terminator_loop :: "bytes \<Rightarrow> nat \<Rightarrow> nat \<times> nat option" where
  "terminator_loop rest pos =
     (case find_byte NL rest of
        None \<Rightarrow> (pos, None)
      | Some nl \<Rightarrow>
          if is_end_of_data (strip_cr (take nl rest)) then (pos + nl + 1, Some pos)
          else terminator_loop (drop (nl + 1) rest) (pos + nl + 1))"
  by pat_completeness auto
termination
  by (relation "measure (\<lambda>(rest, pos). length rest)") (auto dest: find_byte_SomeD(1))

declare terminator_loop.simps [simp del]

definition find_terminator :: "bytes \<Rightarrow> nat \<times> nat option" where
  "find_terminator input = terminator_loop input 0"

lemma terminator_loop_bounds:
  "terminator_loop rest pos = (consumed, t) \<Longrightarrow>
     pos \<le> consumed \<and> (case t of None \<Rightarrow> True | Some at \<Rightarrow> pos \<le> at \<and> at < consumed)"
proof (induction rest pos arbitrary: consumed t rule: terminator_loop.induct)
  case (1 rest pos)
  show ?case
  proof (cases "find_byte NL rest")
    case (Some nl)
    then show ?thesis
      using 1 by (fastforce simp: terminator_loop.simps[of rest pos] split: if_splits option.splits)
  qed (use 1 in \<open>auto simp: terminator_loop.simps[of rest pos]\<close>)
qed

text \<open>The main loop of \<open>feed\<close>; it returns the input that is left when it breaks.\<close>

function feed_loop :: "bytes \<Rightarrow> scanner \<Rightarrow> event list \<Rightarrow> (scanner \<times> event list \<times> bytes) res" where
  "feed_loop input s events =
     (case sc_state s of
        InSql \<Rightarrow>
          (case find_byte NL input of
             None \<Rightarrow> Inr (s, events, input)
           | Some nl \<Rightarrow>
               (case sql_line (strip_cr (take nl input)) s of
                  Inl e \<Rightarrow> Inl e
                | Inr (s', ev) \<Rightarrow> feed_loop (drop (nl + 1) input) s' (events @ ev)))
      | InCopy \<Rightarrow>
          (case find_terminator input of
             (consumed, Some at) \<Rightarrow>
               (case close_copy s of
                  (s', ev) \<Rightarrow>
                    feed_loop (drop consumed input) s'
                      (events @ (if 0 < at then [CopyRows (take at input)] else []) @ ev))
           | (consumed, None) \<Rightarrow>
               Inr (s, events @ (if 0 < consumed then [CopyRows (take consumed input)] else []),
                    drop consumed input)))"
  by pat_completeness auto
termination
proof (relation "measure (\<lambda>(input, s, events). length input)", goal_cases)
  case 2
  then show ?case by (auto dest!: find_byte_SomeD(1))
next
  case (3 input s)
  then show ?case
    by (cases input) (auto simp: find_terminator_def terminator_loop.simps[of "[]"] dest!: terminator_loop_bounds[OF sym])
qed simp

declare feed_loop.simps [simp del]

text \<open>The line left partial by the previous chunk is completed first.\<close>

definition feed :: "bytes \<Rightarrow> scanner \<Rightarrow> (scanner \<times> event list) res" where
  "feed chunk s =
     (let finish_loop = (\<lambda>input s events.
            and_then (feed_loop input s events) (\<lambda>(s', events', rest).
              Inr (s'\<lparr>sc_pending := sc_pending s' @ rest\<rparr>, events')))
      in if sc_pending s \<noteq> [] then
           (case find_byte NL chunk of
              None \<Rightarrow> Inr (s\<lparr>sc_pending := sc_pending s @ chunk\<rparr>, [])
            | Some nl \<Rightarrow>
                (let line = strip_cr (sc_pending s @ take nl chunk);
                     s0 = s\<lparr>sc_pending := []\<rparr>
                 in and_then
                      (case sc_state s0 of
                         InSql \<Rightarrow> sql_line line s0
                       | InCopy \<Rightarrow> Inr (if is_end_of_data line then close_copy s0
                                      else (s0, [CopyRows (line @ [NL])])))
                      (\<lambda>(s1, events). finish_loop (drop (nl + 1) chunk) s1 events)))
         else finish_loop chunk s [])"

definition scan_finish :: "scanner \<Rightarrow> unit res" where
  "scan_finish s =
     (if sc_state s = InCopy then
        Inl (UnterminatedCopy (case sc_open_table s of Some t \<Rightarrow> qualified_name t | None \<Rightarrow> []))
      else if sc_dumped_by s = None then Inl MissingDumpVersion
      else Inr ())"


subsection \<open>A line-at-a-time scanner\<close>

text \<open>
  The specification of \<open>feed\<close>: take the complete lines of the stream one by one. \<open>views\<close> is what the
  rest of the program sees of an event sequence, namely its rows one by one, however they were
  grouped into payloads.
\<close>

definition line_step :: "bytes \<Rightarrow> scanner \<Rightarrow> (scanner \<times> event list) res" where
  "line_step l s =
     (case sc_state s of
        InSql \<Rightarrow> sql_line (strip_cr l) s
      | InCopy \<Rightarrow> Inr (if is_end_of_data (strip_cr l) then close_copy s else (s, [CopyRows (l @ [NL])])))"

fun scan_lines :: "bytes list \<Rightarrow> scanner \<Rightarrow> (scanner \<times> event list) res" where
  "scan_lines [] s = Inr (s, [])"
| "scan_lines (l # ls) s =
     and_then (line_step l s) (\<lambda>(s1, ev1). and_then (scan_lines ls s1) (\<lambda>(s2, ev2). Inr (s2, ev1 @ ev2)))"

fun view :: "event \<Rightarrow> event list" where
  "view (CopyRows b) = map CopyRows (fst (rows b))"
| "view e = [e]"

definition views :: "event list \<Rightarrow> event list" where
  "views evs = concat (map view evs)"

lemma views_simps [simp]: "views [] = []" "views (e # es) = view e @ views es" "views (es @ fs) = views es @ views fs"
  by (simp_all add: views_def)

definition lines :: "bytes list \<Rightarrow> bytes" where
  "lines ls = concat (map (\<lambda>l. l @ [NL]) ls)"

lemma lines_simps [simp]: "lines [] = []" "lines (l # ls) = l @ NL # lines ls"
  by (simp_all add: lines_def)

lemma split_on_lines: "(\<And>l. l \<in> set ls \<Longrightarrow> NL \<notin> set l) \<Longrightarrow> split_on NL (lines ls @ s) = ls @ split_on NL s"
  by (induction ls) (simp_all add: split_on_sep)

lemma rows_lines: "(\<And>l. l \<in> set ls \<Longrightarrow> NL \<notin> set l) \<Longrightarrow> rows (lines ls) = (map strip_cr ls, [])"
  by (induction ls) (simp_all add: rows_append_line rows_partial)

lemma scan_lines_append:
  "scan_lines (ls @ ms) s =
     and_then (scan_lines ls s) (\<lambda>(s1, ev1). and_then (scan_lines ms s1) (\<lambda>(s2, ev2). Inr (s2, ev1 @ ev2)))"
proof (induction ls arbitrary: s)
  case Nil
  show ?case by (cases "scan_lines ms s") auto
next
  case (Cons l ls)
  show ?case
  proof (cases "line_step l s")
    case (Inr r)
    obtain s1 ev1 where r: "r = (s1, ev1)" by fastforce
    show ?thesis
    proof (cases "scan_lines ls s1")
      case (Inr r2)
      obtain s2 ev2 where "r2 = (s2, ev2)" by fastforce
      then show ?thesis using Cons \<open>line_step l s = Inr r\<close> r Inr by (cases "scan_lines ms s2") auto
    qed (use Cons Inr r in simp)
  qed simp
qed

lemma terminator_loop_spec:
  obtains (found) ls t r where "rest = lines ls @ t @ NL # r" "NL \<notin> set t"
      "\<forall>l\<in>set ls. NL \<notin> set l \<and> \<not> is_end_of_data (strip_cr l)" "is_end_of_data (strip_cr t)"
      "terminator_loop rest pos = (pos + length (lines ls) + length t + 1, Some (pos + length (lines ls)))"
  | (absent) ls r where "rest = lines ls @ r" "NL \<notin> set r"
      "\<forall>l\<in>set ls. NL \<notin> set l \<and> \<not> is_end_of_data (strip_cr l)"
      "terminator_loop rest pos = (pos + length (lines ls), None)"
proof (induction rest arbitrary: pos thesis rule: measure_induct_rule[of length])
  case (less rest)
  show ?case
  proof (cases "NL \<in> set rest")
    case False
    then show ?thesis using less.prems(2)[of "[]" rest] by (simp add: terminator_loop.simps[of rest])
  next
    case True
    then obtain l r where l: "rest = l @ NL # r" "NL \<notin> set l" by (metis split_list_first)
    have step: "terminator_loop rest pos =
        (if is_end_of_data (strip_cr l) then (pos + length l + 1, Some pos)
         else terminator_loop r (pos + length l + 1))"
      unfolding terminator_loop.simps[of rest pos] by (simp add: l find_byte_here)
    show ?thesis
    proof (cases "is_end_of_data (strip_cr l)")
      case True
      then show ?thesis using less.prems(1)[of "[]" l r] l step by simp
    next
      case False
      have "length r < length rest" using l by simp
      then show ?thesis
      proof (rule less.IH[where pos = "pos + length l + 1"])
        fix ls t u assume "r = lines ls @ t @ NL # u" "NL \<notin> set t"
          "\<forall>l\<in>set ls. NL \<notin> set l \<and> \<not> is_end_of_data (strip_cr l)" "is_end_of_data (strip_cr t)"
          "terminator_loop r (pos + length l + 1)
             = (pos + length l + 1 + length (lines ls) + length t + 1, Some (pos + length l + 1 + length (lines ls)))"
        then show thesis using less.prems(1)[of "l # ls" t u] l step False by simp
      next
        fix ls u assume "r = lines ls @ u" "NL \<notin> set u"
          "\<forall>l\<in>set ls. NL \<notin> set l \<and> \<not> is_end_of_data (strip_cr l)"
          "terminator_loop r (pos + length l + 1) = (pos + length l + 1 + length (lines ls), None)"
        then show thesis using less.prems(2)[of "l # ls" u] l step False by simp
      qed
    qed
  qed
qed

lemma scan_lines_copy:
  assumes "sc_state s = InCopy" "\<forall>l\<in>set ls. \<not> is_end_of_data (strip_cr l)"
  shows "scan_lines ls s = Inr (s, map (\<lambda>l. CopyRows (l @ [NL])) ls)"
  using assms(2) by (induction ls) (simp_all add: line_step_def assms(1))

lemma views_copy_rows:
  "\<forall>l\<in>set ls. NL \<notin> set l \<Longrightarrow>
     views (map (\<lambda>l. CopyRows (l @ [NL])) ls) = views (if 0 < length (lines ls) then [CopyRows (lines ls)] else [])"
proof -
  assume n: "\<forall>l\<in>set ls. NL \<notin> set l"
  have "views (map (\<lambda>l. CopyRows (l @ [NL])) ls) = map CopyRows (map strip_cr ls)"
    using n by (induction ls) (simp_all add: rows_append_line rows_partial)
  moreover have "views (if 0 < length (lines ls) then [CopyRows (lines ls)] else [])
      = map CopyRows (fst (rows (lines ls)))"
    by (cases ls) (simp_all add: rows_partial)
  moreover have "rows (lines ls) = (map strip_cr ls, [])" using n by (intro rows_lines) blast
  ultimately show ?thesis by simp
qed


subsection \<open>The chunk loop computes it\<close>

text \<open>Two outcomes agree: the same error, or the same state, the same views and a given remainder.\<close>

lemma scan_lines_rest:
  assumes "NL \<in> set input"
  obtains l r where "input = l @ NL # r" "NL \<notin> set l" "split_on NL input = l # split_on NL r"
    "length r < length input"
  using assms split_list_first[of NL input] by (auto simp: split_on_sep)

lemma feed_loop_lines:
  "case scan_lines (butlast (split_on NL input)) s of
     Inl e \<Rightarrow> feed_loop input s events = Inl e
   | Inr (s', ev) \<Rightarrow> \<exists>ev'. feed_loop input s events = Inr (s', events @ ev', last (split_on NL input))
       \<and> views ev' = views ev"
proof (induction input arbitrary: s events rule: measure_induct_rule[of length])
  case (less input)
  show ?case
  proof (cases "sc_state s")
    case InSql
    show ?thesis
    proof (cases "NL \<in> set input")
      case False
      then show ?thesis using InSql by (simp add: feed_loop.simps[of input])
    next
      case True
      then obtain l r where l: "input = l @ NL # r" "NL \<notin> set l" "split_on NL input = l # split_on NL r"
        "length r < length input" by (rule scan_lines_rest)
      have step: "feed_loop input s events =
          (case sql_line (strip_cr l) s of Inl e \<Rightarrow> Inl e | Inr (s', ev) \<Rightarrow> feed_loop r s' (events @ ev))"
        unfolding feed_loop.simps[of input s events]
        by (cases "sql_line (strip_cr l) s") (simp_all add: l find_byte_here InSql)
      show ?thesis
      proof (cases "sql_line (strip_cr l) s")
        case (Inl e)
        then show ?thesis using step l InSql by (simp add: line_step_def)
      next
        case (Inr q)
        obtain s1 ev1 where q: "q = (s1, ev1)" by fastforce
        show ?thesis
          using less.IH[OF l(4), of s1 "events @ ev1"] step l InSql Inr q
          by (cases "scan_lines (butlast (split_on NL r)) s1") (auto simp: line_step_def)
      qed
    qed
  next
    case InCopy
    note step = feed_loop.simps[of input s events]
    show ?thesis
    proof (cases rule: terminator_loop_spec[of input 0])
      case (absent ls r)
      then have "split_on NL input = ls @ [r]" by (simp add: split_on_lines)
      moreover have "feed_loop input s events
          = Inr (s, events @ (if 0 < length (lines ls) then [CopyRows (lines ls)] else []), r)"
        using step InCopy absent(4) by (simp add: find_terminator_def absent(1))
      ultimately show ?thesis
        using scan_lines_copy[OF InCopy] absent(3) views_copy_rows[of ls] by simp
    next
      case (found ls t r)
      define evs where "evs = (if 0 < length (lines ls) then [CopyRows (lines ls)] else [])"
      obtain s1 ev1 where c: "close_copy s = (s1, ev1)" by fastforce
      have sp: "split_on NL input = ls @ t # split_on NL r"
        using found by (simp add: split_on_lines split_on_sep)
      have step': "feed_loop input s events = feed_loop r s1 (events @ evs @ ev1)"
        using step InCopy found(5) c by (simp add: find_terminator_def found(1) evs_def)
      have sc: "scan_lines (butlast (split_on NL input)) s =
          and_then (scan_lines (butlast (split_on NL r)) s1) (\<lambda>(s2, ev2).
            Inr (s2, map (\<lambda>l. CopyRows (l @ [NL])) ls @ ev1 @ ev2))"
        using scan_lines_copy[OF InCopy, of ls] found(3,4) c
        by (cases "scan_lines (butlast (split_on NL r)) s1")
           (auto simp: sp butlast_append scan_lines_append line_step_def InCopy)
      have vr: "views (map (\<lambda>l. CopyRows (l @ [NL])) ls) = views evs"
        unfolding evs_def by (rule views_copy_rows) (use found(3) in blast)
      have "length r < length input" using found(1) by simp
      from less.IH[OF this, of s1 "events @ evs @ ev1"] show ?thesis
        using sc step' vr
        by (cases "scan_lines (butlast (split_on NL r)) s1") (auto simp: sp)
    qed
  qed
qed


lemma define_table_pending:
  "define_table ddl (s\<lparr>sc_pending := p\<rparr>) =
     and_then (define_table ddl s) (\<lambda>(s', ev). Inr (s'\<lparr>sc_pending := p\<rparr>, ev))"
  by (cases "parse_create_table ddl") (simp_all add: define_table_def)

lemma define_table_scanner:
  "define_table ddl s = Inr (s', ev) \<Longrightarrow>
     \<exists>def. parse_create_table ddl = Inr def \<and> ev = [TableEvent def]
       \<and> s' = s\<lparr>sc_tables := (sc_tables s)(qualified_name (td_name def) \<mapsto> def)\<rparr>"
  by (auto simp: define_table_def)

lemma sql_line_pending: "sql_line l s = Inr (s', ev) \<Longrightarrow> sc_pending s' = sc_pending s"
  by (auto simp: sql_line_def Let_def split: if_splits option.splits dest!: define_table_scanner)

lemma close_copy_pending: "sc_pending (fst (close_copy s)) = sc_pending s"
  by (auto simp: close_copy_def Let_def split: option.splits)

lemma line_step_pending: "line_step l s = Inr (s', ev) \<Longrightarrow> sc_pending s' = sc_pending s"
  using close_copy_pending[of s]
  by (auto simp: line_step_def sql_line_pending split: scan_state.splits if_splits)

lemma scan_lines_pending: "scan_lines ls s = Inr (s', ev) \<Longrightarrow> sc_pending s' = sc_pending s"
  by (induction ls arbitrary: s ev) (auto dest!: line_step_pending)

text \<open>
  A row that straddles two chunks is emitted with one carriage return already stripped, so the rows
  only come out the same when no line ends with two. PostgreSQL never writes one: it escapes carriage
  returns inside a field.
\<close>

definition single_cr :: "bytes \<Rightarrow> bool" where
  "single_cr l \<longleftrightarrow> \<not> ends_with l [CR, CR]"

lemma strip_cr_single: "single_cr l \<Longrightarrow> strip_cr (strip_cr l) = strip_cr l"
proof (cases l rule: rev_cases)
  case (snoc k c)
  then show "single_cr l \<Longrightarrow> strip_cr (strip_cr l) = strip_cr l"
    by (cases k rule: rev_cases) (auto simp: strip_cr_def single_cr_def ends_with_def butlast_append)
qed (simp add: strip_cr_def)

lemma strip_cr_set: "x \<in> set (strip_cr l) \<Longrightarrow> x \<in> set l"
  by (auto simp: strip_cr_def split: if_splits dest: in_set_butlastD)

lemma view_straddling:
  assumes "NL \<notin> set l" "single_cr l"
  shows "view (CopyRows (strip_cr l @ [NL])) = view (CopyRows (l @ [NL]))"
proof -
  have "NL \<notin> set (strip_cr l)" using assms(1) strip_cr_set by blast
  then show ?thesis
    using assms rows_append_line[of l "[]"] rows_append_line[of "strip_cr l" "[]"]
    by (simp add: rows_partial strip_cr_single)
qed

abbreviation agrees :: "(scanner \<times> event list) res \<Rightarrow> (scanner \<times> event list) res \<Rightarrow> bytes \<Rightarrow> bool" where
  "agrees got ref pend \<equiv>
     (case ref of
        Inl e \<Rightarrow> got = Inl e
      | Inr (s', ev) \<Rightarrow> \<exists>ev'. got = Inr (s'\<lparr>sc_pending := pend\<rparr>, ev') \<and> views ev' = views ev)"

lemma feed_lines:
  assumes "NL \<notin> set (sc_pending s)"
    and "\<forall>l\<in>set (butlast (split_on NL (sc_pending s @ chunk))). single_cr l"
  shows "agrees (feed chunk s) (scan_lines (butlast (split_on NL (sc_pending s @ chunk))) (s\<lparr>sc_pending := []\<rparr>))
    (last (split_on NL (sc_pending s @ chunk)))"
proof (cases "sc_pending s = []")
  case True
  then have s: "s\<lparr>sc_pending := []\<rparr> = s" by simp
  show ?thesis
  proof (cases "scan_lines (butlast (split_on NL chunk)) s")
    case (Inl e)
    then show ?thesis unfolding s True append_Nil
      using feed_loop_lines[of chunk s "[]"] by (simp add: feed_def True)
  next
    case (Inr q)
    obtain s' ev where q: "q = (s', ev)" by fastforce
    then have "sc_pending s' = []" using scan_lines_pending Inr True by metis
    then show ?thesis unfolding s True append_Nil
      using feed_loop_lines[of chunk s "[]"] Inr q by (auto simp: feed_def True)
  qed
next
  case False
  let ?p = "sc_pending s" and ?s = "s\<lparr>sc_pending := []\<rparr>"
  show ?thesis
  proof (cases "NL \<in> set chunk")
    case noNL: False
    then show ?thesis using assms(1) False by (simp add: feed_def)
  next
    case True
    then obtain l r where l: "chunk = l @ NL # r" "NL \<notin> set l" by (metis split_list_first)
    have sp: "split_on NL (?p @ chunk) = (?p @ l) # split_on NL r"
      using split_on_sep[of NL "?p @ l" r] l assms(1) by simp
    have cr: "single_cr (?p @ l)" using assms(2) sp by simp
    define first where "first = (case sc_state ?s of InSql \<Rightarrow> sql_line (strip_cr (?p @ l)) ?s
      | InCopy \<Rightarrow> Inr (if is_end_of_data (strip_cr (?p @ l)) then close_copy ?s
                      else (?s, [CopyRows (strip_cr (?p @ l) @ [NL])])))"
    have fd: "feed chunk s = and_then first (\<lambda>(s1, ev1). and_then (feed_loop r s1 ev1) (\<lambda>(s', ev, rest).
        Inr (s'\<lparr>sc_pending := sc_pending s' @ rest\<rparr>, ev)))"
      using False by (simp add: feed_def l find_byte_here first_def Let_def)
    have f: "case line_step (?p @ l) ?s of Inl e \<Rightarrow> first = Inl e
        | Inr (s1, ev) \<Rightarrow> \<exists>ev1. first = Inr (s1, ev1) \<and> views ev1 = views ev"
      using view_straddling[OF _ cr] l(2) assms(1)
      by (auto simp: first_def line_step_def split: scan_state.splits sum.splits)
    show ?thesis
    proof (cases "line_step (?p @ l) ?s")
      case (Inl e)
      then show ?thesis using f fd by (simp add: sp)
    next
      case (Inr q)
      obtain s1 ev where q: "q = (s1, ev)" by fastforce
      then obtain ev1 where ev1: "first = Inr (s1, ev1)" "views ev1 = views ev" using f Inr by auto
      have p1: "sc_pending s1 = []" using line_step_pending Inr q by fastforce
      show ?thesis
      proof (cases "scan_lines (butlast (split_on NL r)) s1")
        case (Inl e)
        then show ?thesis using feed_loop_lines[of r s1 ev1] fd ev1 \<open>line_step (?p @ l) ?s = Inr q\<close> q by (simp add: sp)
      next
        case Inr2: (Inr q2)
        obtain s2 ev2 where q2: "q2 = (s2, ev2)" by fastforce
        then have "sc_pending s2 = []" using scan_lines_pending Inr2 p1 by metis
        then show ?thesis
          using feed_loop_lines[of r s1 ev1] fd ev1 Inr q Inr2 q2 by (auto simp: sp)
      qed
    qed
  qed
qed


subsection \<open>A whole stream\<close>

text \<open>The chunks of a stream fed one after the other, as the reader thread does.\<close>

fun feed_all :: "bytes list \<Rightarrow> scanner \<Rightarrow> (scanner \<times> event list) res" where
  "feed_all [] s = Inr (s, [])"
| "feed_all (c # cs) s =
     and_then (feed c s) (\<lambda>(s1, ev1). and_then (feed_all cs s1) (\<lambda>(s2, ev2). Inr (s2, ev1 @ ev2)))"

lemma split_on_carry: "split_on sep (x @ y) = butlast (split_on sep x) @ split_on sep (last (split_on sep x) @ y)"
proof -
  obtain ps p where x: "split_on sep x = ps @ [p]" by (cases "split_on sep x" rule: rev_cases) auto
  obtain q qs where y: "split_on sep y = q # qs" by (cases "split_on sep y") auto
  have "sep \<notin> set p" using split_on_pieces[of p sep x] x by simp
  then have "split_on sep p = [p]" by simp
  then show ?thesis using x y split_on_append_last[of sep x y] split_on_append_last[of sep p y] by simp
qed

lemma last_piece_clean: "sep \<notin> set (last (split_on sep x))"
  by (rule split_on_pieces[of _ sep x]) simp

lemma feed_all_lines:
  assumes "NL \<notin> set (sc_pending s)"
    and "\<forall>l\<in>set (butlast (split_on NL (sc_pending s @ concat cs))). single_cr l"
  shows "agrees (feed_all cs s)
    (scan_lines (butlast (split_on NL (sc_pending s @ concat cs))) (s\<lparr>sc_pending := []\<rparr>))
    (last (split_on NL (sc_pending s @ concat cs)))"
  using assms
proof (induction cs arbitrary: s)
  case (Cons c cs)
  define ls a where "ls = butlast (split_on NL (sc_pending s @ c))" and "a = last (split_on NL (sc_pending s @ c))"
  have a: "NL \<notin> set a" unfolding a_def by (rule last_piece_clean)
  have sp: "split_on NL (sc_pending s @ concat (c # cs)) = ls @ split_on NL (a @ concat cs)"
    using split_on_carry[of NL "sc_pending s @ c" "concat cs"] by (simp add: ls_def a_def)
  have la: "last (ls @ split_on NL (a @ concat cs)) = last (split_on NL (a @ concat cs))" by simp
  have bl: "butlast (ls @ split_on NL (a @ concat cs)) = ls @ butlast (split_on NL (a @ concat cs))"
    by (simp add: butlast_append)
  have cr: "\<forall>l\<in>set ls. single_cr l" "\<forall>l\<in>set (butlast (split_on NL (a @ concat cs))). single_cr l"
    using Cons.prems(2) unfolding sp bl by auto
  have f: "agrees (feed c s) (scan_lines ls (s\<lparr>sc_pending := []\<rparr>)) a"
    using feed_lines[OF Cons.prems(1), of c] cr(1) unfolding ls_def a_def by blast
  show ?case
  proof (cases "scan_lines ls (s\<lparr>sc_pending := []\<rparr>)")
    case (Inl e)
    then show ?thesis using f unfolding sp bl la by (simp add: scan_lines_append)
  next
    case (Inr q)
    obtain s1 ev where q: "q = (s1, ev)" by fastforce
    obtain ev1 where f1: "feed c s = Inr (s1\<lparr>sc_pending := a\<rparr>, ev1)" "views ev1 = views ev"
      using f Inr q by auto
    have p1: "sc_pending s1 = []" using scan_lines_pending[OF Inr[unfolded q]] by simp
    then have upd: "s1\<lparr>sc_pending := a, sc_pending := []\<rparr> = s1" "sc_pending (s1\<lparr>sc_pending := a\<rparr>) = a"
      by simp_all
    have ih: "agrees (feed_all cs (s1\<lparr>sc_pending := a\<rparr>)) (scan_lines (butlast (split_on NL (a @ concat cs))) s1)
        (last (split_on NL (a @ concat cs)))"
      by (rule Cons.IH[of "s1\<lparr>sc_pending := a\<rparr>", unfolded upd]) (rule a cr(2))+
    show ?thesis
      using ih f1 Inr q unfolding sp bl la
      by (cases "scan_lines (butlast (split_on NL (a @ concat cs))) s1") (auto simp: scan_lines_append)
  qed
qed simp

subsection \<open>The COPY protocol\<close>

text \<open>
  The event sequences a consumer may see: rows only inside a block, a block ended by the table it was
  opened for, everything else outside. \<open>protocol o evs\<close> runs them from the open table \<open>o\<close>.
\<close>

fun protocol_step :: "event \<Rightarrow> table_name option \<Rightarrow> table_name option option" where
  "protocol_step (DumpVersion _ _) o' = (if o' = None then Some None else None)"
| "protocol_step (TableEvent _) o' = (if o' = None then Some None else None)"
| "protocol_step (CopyStart t _) o' = (if o' = None then Some (Some t) else None)"
| "protocol_step (CopyRows _) o' = (if o' \<noteq> None then Some o' else None)"
| "protocol_step (CopyEnd t) o' = (if o' = Some t then Some None else None)"

fun protocol :: "event list \<Rightarrow> table_name option \<Rightarrow> table_name option option" where
  "protocol [] o' = Some o'"
| "protocol (e # es) o' = Option.bind (protocol_step e o') (protocol es)"

lemma protocol_append [simp]: "protocol (xs @ ys) o' = Option.bind (protocol xs o') (protocol ys)"
proof (induction xs arbitrary: o')
  case (Cons e xs)
  then show ?case by (cases "protocol_step e o'") simp_all
qed simp

text \<open>The invariant of the scanner's state.\<close>

definition scanner_inv :: "scanner \<Rightarrow> bool" where
  "scanner_inv s \<longleftrightarrow> (sc_state s = InCopy \<longleftrightarrow> sc_open_table s \<noteq> None)
     \<and> NL \<notin> set (sc_pending s)
     \<and> \<not> (sc_in_create s \<and> sc_skipping_create s)
     \<and> (sc_in_create s \<or> sc_ddl s = [])
     \<and> (sc_in_create s \<or> sc_skipping_create s \<longrightarrow> sc_state s = InSql)
     \<and> (case sc_dumped_by s of None \<Rightarrow> True | Some v \<Rightarrow> v \<in> set SUPPORTED_MAJORS)
     \<and> (\<forall>k d. sc_tables s k = Some d \<longrightarrow> qualified_name (td_name d) = k)"

lemma new_scanner_inv: "scanner_inv (set_excluded_schemas ex new_scanner)"
  by (simp add: scanner_inv_def new_scanner_def set_excluded_schemas_def)

text \<open>What one SQL line can do to the scanner.\<close>

lemma sql_line_cases:
  assumes "sql_line l s = Inr (s', ev)"
  obtains
    (skip) b where "s' = s\<lparr>sc_skipping_create := b\<rparr>" "ev = []"
      "sc_skipping_create s \<or> \<not> sc_in_create s"
  | (gather) d where "s' = s\<lparr>sc_ddl := d, sc_in_create := True\<rparr>" "ev = []" "\<not> sc_skipping_create s"
  | (table) ddl def where "parse_create_table ddl = Inr def" "ev = [TableEvent def]"
      "s' = s\<lparr>sc_in_create := False, sc_ddl := [],
              sc_tables := (sc_tables s)(qualified_name (td_name def) \<mapsto> def)\<rparr>"
  | (version) major where "major \<in> set SUPPORTED_MAJORS" "s' = s\<lparr>sc_dumped_by := Some major\<rparr>"
      "ev = [DumpVersion major (sc_from_database s)]"
  | (from_db) v where "s' = s\<lparr>sc_from_database := v\<rparr>" "ev = []"
  | (copy) table columns where "s' = s\<lparr>sc_open_table := Some table, sc_state := InCopy\<rparr>"
      "ev = [CopyStart table columns]" "\<not> sc_in_create s" "\<not> sc_skipping_create s"
      "parse_copy_header (trim_ascii_end l) = Inr (table, columns)"
proof -
  consider "sc_skipping_create s" | "\<not> sc_skipping_create s" "sc_in_create s"
    | "\<not> sc_skipping_create s" "\<not> sc_in_create s" by blast
  then show thesis
  proof cases
    case 1
    then show thesis using assms skip[of False] skip[of "sc_skipping_create s"]
      by (auto simp: sql_line_def split: if_splits)
  next
    case 2
    show thesis
    proof (cases "ends_statement l")
      case True
      then show thesis using 2 assms table by (auto simp: sql_line_def Let_def dest!: define_table_scanner)
    next
      case False
      then show thesis using 2 assms gather[of "sc_ddl s @ NL # l"] by (auto simp: sql_line_def Let_def)
    qed
  next
    case 3
    have same: thesis if "s' = s" "ev = []" using skip[of "sc_skipping_create s"] that 3 by simp
    show thesis
    proof (cases "strip_prefix_ci l ''-- Dumped by pg_dump version ''")
      case (Some r)
      then show thesis using 3 assms same version
        by (cases "leading_major r") (auto simp: sql_line_def split: if_splits)
    next
      case A: None
      show thesis
      proof (cases "strip_prefix_ci l ''-- Dumped from database version ''")
        case (Some r)
        then show thesis using 3 A assms from_db by (auto simp: sql_line_def)
      next
        case B: None
        show thesis
        proof (cases "starts_with l ''--''")
          case True
          then show thesis using 3 A B assms same by (auto simp: sql_line_def)
        next
          case C: False
          show thesis
          proof (cases "strip_create_table l")
            case (Some kw)
            note D = 3 A B C Some
            show thesis
            proof (cases "schema_is_excluded s kw")
              case True
              then show thesis using D assms same skip[of True] by (auto simp: sql_line_def split: if_splits)
            next
              case False
              then show thesis using D assms gather[of l] table
                by (cases "ends_statement l") (auto simp: sql_line_def dest!: define_table_scanner)
            qed
          next
            case None
            then show thesis using 3 A B C assms same copy
              by (auto simp: sql_line_def Let_def split: if_splits)
          qed
        qed
      qed
    qed
  qed
qed

text \<open>
  What any run of the scanner from \<open>s\<close> to \<open>s'\<close> with events \<open>evs\<close> satisfies. It composes, so it is
  proved of one line and holds of every stream.
\<close>

definition scan_run :: "scanner \<Rightarrow> event list \<Rightarrow> scanner \<Rightarrow> bool" where
  "scan_run s evs s' \<longleftrightarrow> scanner_inv s'
     \<and> protocol evs (sc_open_table s) = Some (sc_open_table s')
     \<and> (sc_dumped_by s' = sc_dumped_by s \<or> (\<exists>v d. sc_dumped_by s' = Some v \<and> DumpVersion v d \<in> set evs))
     \<and> (\<forall>k d. sc_tables s' k = Some d \<longrightarrow> sc_tables s k = Some d \<or> TableEvent d \<in> set evs)
     \<and> (\<forall>k. sc_tables s k \<noteq> None \<longrightarrow> sc_tables s' k \<noteq> None)
     \<and> (\<forall>d. TableEvent d \<in> set evs \<longrightarrow> sc_tables s' (qualified_name (td_name d)) \<noteq> None)"

lemma scan_run_refl: "scanner_inv s \<Longrightarrow> scan_run s [] s"
  by (simp add: scan_run_def)

lemma scan_run_trans:
  assumes a: "scan_run s e1 s1" and b: "scan_run s1 e2 s2"
  shows "scan_run s (e1 @ e2) s2"
  unfolding scan_run_def
proof (intro conjI allI impI)
  show "scanner_inv s2" "protocol (e1 @ e2) (sc_open_table s) = Some (sc_open_table s2)"
    using a b by (simp_all add: scan_run_def)
  show "sc_dumped_by s2 = sc_dumped_by s
      \<or> (\<exists>v d. sc_dumped_by s2 = Some v \<and> DumpVersion v d \<in> set (e1 @ e2))"
    using a b unfolding scan_run_def by (metis Un_iff set_append)
  show "sc_tables s k = Some d \<or> TableEvent d \<in> set (e1 @ e2)" if "sc_tables s2 k = Some d" for k d
    using a b that unfolding scan_run_def by (metis Un_iff set_append)
  show "sc_tables s2 k \<noteq> None" if "sc_tables s k \<noteq> None" for k
    using a b that unfolding scan_run_def by blast
  show "sc_tables s2 (qualified_name (td_name d)) \<noteq> None" if "TableEvent d \<in> set (e1 @ e2)" for d
    using a b that unfolding scan_run_def by (metis Un_iff set_append)
qed

lemma sql_line_run:
  assumes "sql_line l s = Inr (s', ev)" "scanner_inv s" "sc_state s = InSql"
  shows "scan_run s ev s'"
  using assms(1)
proof (cases rule: sql_line_cases)
  case (table ddl def)
  then show ?thesis using assms(2,3) by (auto simp: scan_run_def scanner_inv_def)
qed (use assms(2,3) in \<open>auto simp: scan_run_def scanner_inv_def\<close>)

lemma close_copy_run:
  assumes "close_copy s = (s', ev)" "scanner_inv s" "sc_state s = InCopy"
  shows "scan_run s ev s'"
proof -
  obtain t where "sc_open_table s = Some t" using assms(2,3) by (auto simp: scanner_inv_def)
  then show ?thesis using assms by (auto simp: close_copy_def scan_run_def scanner_inv_def)
qed

lemma copy_rows_run: "scanner_inv s \<Longrightarrow> sc_state s = InCopy \<Longrightarrow> scan_run s [CopyRows b] s"
  by (auto simp: scan_run_def scanner_inv_def)

lemma feed_loop_run:
  assumes "feed_loop input s evs = Inr (s', evs', r)" "scan_run s0 evs s"
  shows "scan_run s0 evs' s' \<and> NL \<notin> set r"
  using assms
proof (induction input s evs rule: feed_loop.induct)
  case (1 input s evs)
  have inv: "scanner_inv s" using "1.prems"(2) by (simp add: scan_run_def)
  note step = feed_loop.simps[of input s evs]
  show ?case
  proof (cases "sc_state s")
    case InSql
    show ?thesis
    proof (cases "find_byte NL input")
      case None
      then show ?thesis using "1.prems" step InSql by auto
    next
      case (Some nl)
      then obtain s1 ev1 where l: "sql_line (strip_cr (take nl input)) s = Inr (s1, ev1)"
        "feed_loop (drop (nl + 1) input) s1 (evs @ ev1) = Inr (s', evs', r)"
        using "1.prems"(1) step InSql by (auto split: sum.splits)
      show ?thesis
        by (rule "1.IH"(1)[OF InSql Some l(1) refl l(2)])
          (rule scan_run_trans[OF "1.prems"(2) sql_line_run[OF l(1) inv InSql]])
    qed
  next
    case InCopy
    obtain n t where ft: "find_terminator input = (n, t)" by fastforce
    show ?thesis
    proof (cases t)
      case None
      have "NL \<notin> set (drop n input)"
        using ft None by (cases rule: terminator_loop_spec[of input 0]) (auto simp: find_terminator_def)
      then show ?thesis
        using "1.prems" step InCopy ft None scan_run_trans[OF "1.prems"(2) copy_rows_run[OF inv InCopy]] by auto
    next
      case (Some at)
      obtain s1 ev1 where c: "close_copy s = (s1, ev1)" by fastforce
      let ?e = "if 0 < at then [CopyRows (take at input)] else []"
      have l: "feed_loop (drop n input) s1 (evs @ ?e @ ev1) = Inr (s', evs', r)"
        using "1.prems"(1) step InCopy ft Some c by simp
      have "scan_run s (?e @ ev1) s1"
        using scan_run_trans[OF copy_rows_run[OF inv InCopy] close_copy_run[OF c inv InCopy]]
          close_copy_run[OF c inv InCopy] by auto
      then show ?thesis
        using "1.IH"(2)[OF InCopy ft[unfolded Some, symmetric] refl c[symmetric] l]
          scan_run_trans[OF "1.prems"(2)] by blast
    qed
  qed
qed

lemma scanner_inv_pending: "NL \<notin> set p \<Longrightarrow> scanner_inv s \<Longrightarrow> scanner_inv (s\<lparr>sc_pending := p\<rparr>)"
  by (simp add: scanner_inv_def)

lemma scan_run_pending:
  "scan_run (s\<lparr>sc_pending := p\<rparr>) evs s' = scan_run s evs s'"
  "NL \<notin> set q \<Longrightarrow> scan_run s evs s' \<Longrightarrow> scan_run s evs (s'\<lparr>sc_pending := q\<rparr>)"
  by (auto simp: scan_run_def scanner_inv_def)


lemma feed_run:
  assumes "feed c s = Inr (s', ev)" "scanner_inv s"
  shows "scan_run s ev s'"
proof -
  have fin: "scan_run s ev' (t\<lparr>sc_pending := sc_pending t @ r\<rparr>)"
    if "feed_loop x u e = Inr (t, ev', r)" "scan_run s e u" for x u e t ev' r
  proof -
    note run = feed_loop_run[OF that]
    then have "NL \<notin> set (sc_pending t)" by (simp add: scan_run_def scanner_inv_def)
    then show ?thesis using run by (intro scan_run_pending(2)) auto
  qed
  show ?thesis
  proof (cases "sc_pending s = []")
    case True
    then show ?thesis
      using assms fin[OF _ scan_run_refl[OF assms(2)]] by (auto simp: feed_def)
  next
    case False
    show ?thesis
    proof (cases "find_byte NL c")
      case None
      then show ?thesis
        using assms False scan_run_pending(2)[OF _ scan_run_refl[OF assms(2)], of "sc_pending s @ c"]
        by (auto simp: feed_def scanner_inv_def)
    next
      case (Some nl)
      let ?s = "s\<lparr>sc_pending := []\<rparr>" and ?l = "strip_cr (sc_pending s @ take nl c)"
      have inv: "scanner_inv ?s" using assms(2) by (intro scanner_inv_pending) simp
      obtain s1 ev1 t r where l:
        "(case sc_state ?s of InSql \<Rightarrow> sql_line ?l ?s
          | InCopy \<Rightarrow> Inr (if is_end_of_data ?l then close_copy ?s else (?s, [CopyRows (?l @ [NL])]))) = Inr (s1, ev1)"
        "feed_loop (drop (nl + 1) c) s1 ev1 = Inr (t, ev, r)" "s' = t\<lparr>sc_pending := sc_pending t @ r\<rparr>"
        using assms(1) False Some by (auto simp: feed_def Let_def)
      have "scan_run ?s ev1 s1"
        using l(1) inv sql_line_run[of ?l ?s s1 ev1] close_copy_run[of ?s s1 ev1] copy_rows_run[of ?s]
        by (auto split: scan_state.splits if_splits)
      then show ?thesis using fin[OF l(2)] l(3) by (simp add: scan_run_pending(1))
    qed
  qed
qed

lemma feed_all_run:
  "feed_all cs s = Inr (s', ev) \<Longrightarrow> scanner_inv s \<Longrightarrow> scan_run s ev s'"
proof (induction cs arbitrary: s ev)
  case (Cons c cs)
  then obtain s1 e1 e2 where "feed c s = Inr (s1, e1)" "feed_all cs s1 = Inr (s', e2)" "ev = e1 @ e2" by auto
  then show ?case using Cons feed_run scan_run_trans by (metis scan_run_def)
qed (simp add: scan_run_refl)

end
