(* ===== verification/Scan_Parse.thy ===== *)
theory Scan_Parse
  imports Sql_Scan
begin

section \<open>Statements written by PostgreSQL are read back\<close>

text \<open>
  Round trips of the parsers of \<open>src/scan.rs\<close>: identifiers in either of the two forms PostgreSQL
  writes, qualified names, \<open>COPY\<close> headers and \<open>CREATE TABLE\<close> statements. Text that is neither a
  separator nor an open quote is \<open>inert\<close>: outside of quoted identifiers its parentheses balance and its
  commas stand inside them, so the parsers step over it.
\<close>

subsection \<open>Identifiers\<close>

definition dq_escape :: "bytes \<Rightarrow> bytes" where
  "dq_escape s = concat (map (\<lambda>c. if c = DQ then [DQ, DQ] else [c]) s)"

definition quote_ident :: "bytes \<Rightarrow> bytes" where
  "quote_ident s = DQ # dq_escape s @ [DQ]"

definition plain_char :: "char \<Rightarrow> bool" where
  "plain_char c \<longleftrightarrow> is_ascii_lower c \<or> is_ascii_digit c \<or> c = CHR ''_'' \<or> c = CHR ''$''"

text \<open>\<open>ident_form n f\<close>: \<open>f\<close> is a way to write the name \<open>n\<close>, quoted or, for a plain name, bare.\<close>

definition ident_form :: "bytes \<Rightarrow> bytes \<Rightarrow> bool" where
  "ident_form n f \<longleftrightarrow> utf8_valid n \<and> (f = quote_ident n \<or> f = n \<and> n \<noteq> [] \<and> list_all plain_char n)"

lemma dq_escape_simps [simp]:
  "dq_escape [] = []" "dq_escape (c # s) = (if c = DQ then [DQ, DQ] else [c]) @ dq_escape s"
  by (simp_all add: dq_escape_def)

lemma quoted_loop_escape:
  "r = [] \<or> hd r \<noteq> DQ \<Longrightarrow>
     quoted_loop (dq_escape n @ DQ # r) acc = Some (from_utf8_lossy (acc @ n), r)"
proof (induction n arbitrary: acc)
  case Nil
  then show ?case by (cases r) auto
qed simp

lemma plain_char_simps:
  assumes "plain_char c"
  shows "\<not> ident_stop c" "\<not> is_ascii_whitespace c" "c \<noteq> DQ" "c \<noteq> CHR ''(''" "c \<noteq> CHR '')''" "c \<noteq> CHR '',''"
    "is_ascii_byte c"
  using assms by (auto simp: plain_char_def ident_stop_def byte_defs)

lemma ident_stop_not_dq: "ident_stop c \<Longrightarrow> c \<noteq> DQ"
  by (auto simp: ident_stop_def byte_defs)

lemma take_identifier_space: "is_ascii_whitespace c \<Longrightarrow> take_identifier (c # s) = take_identifier s"
  by (simp add: take_identifier_def trim_ascii_start_def)

lemma take_identifier_form:
  assumes "ident_form n f" "r = [] \<or> ident_stop (hd r)"
  shows "take_identifier (f @ r) = Some (n, r)"
proof -
  have v: "from_utf8_lossy n = n" using assms(1) by (simp add: ident_form_def from_utf8_lossy_valid)
  consider "f = quote_ident n" | "f = n" "n \<noteq> []" "list_all plain_char n"
    using assms(1) by (auto simp: ident_form_def)
  then show ?thesis
  proof cases
    case 1
    have "r = [] \<or> hd r \<noteq> DQ" using assms(2) ident_stop_not_dq by blast
    then show ?thesis
      using 1 v quoted_loop_escape[of r n "[]"]
      by (simp add: quote_ident_def take_identifier_def trim_ascii_start_def byte_defs)
  next
    case 2
    have ws: "\<not> is_ascii_whitespace (hd n)" "hd n \<noteq> DQ"
      using 2 plain_char_simps by (cases n; simp)+
    have "takeWhile (\<lambda>c. \<not> ident_stop c) (n @ r) = n @ takeWhile (\<lambda>c. \<not> ident_stop c) r"
      using 2(3) plain_char_simps(1) by (simp add: list_all_iff)
    also have "\<dots> = n" using assms(2) by (cases r) auto
    finally have tw: "takeWhile (\<lambda>c. \<not> ident_stop c) (n @ r) = n" .
    have "trim_ascii_start (n @ r) = n @ r"
      using 2(2) ws by (simp add: trim_ascii_start_def dropWhile_id)
    then show ?thesis using 2 ws tw v by (simp add: take_identifier_def)
  qed
qed

subsection \<open>Qualified names\<close>

fun name_form :: "table_name \<Rightarrow> bytes \<Rightarrow> bool" where
  "name_form n f \<longleftrightarrow>
     (case tn_schema n of
        None \<Rightarrow> ident_form (tn_table n) f
      | Some s \<Rightarrow> (\<exists>sf tf. ident_form s sf \<and> ident_form (tn_table n) tf \<and> f = sf @ CHR ''.'' # tf))"

lemma take_qualified_form:
  assumes "name_form n f" "r = [] \<or> ident_stop (hd r) \<and> hd r \<noteq> CHR ''.''"
  shows "take_qualified (f @ r) = Some (n, r)"
proof (cases "tn_schema n")
  case None
  then show ?thesis using assms take_identifier_form[of "tn_table n" f r] by (auto simp: take_qualified_def)
next
  case (Some s)
  then obtain sf tf where f: "ident_form s sf" "ident_form (tn_table n) tf" "f = sf @ CHR ''.'' # tf"
    using assms(1) by auto
  have "take_identifier (sf @ CHR ''.'' # tf @ r) = Some (s, CHR ''.'' # tf @ r)"
    by (rule take_identifier_form[OF f(1)]) (simp add: ident_stop_def)
  moreover have "take_identifier (tf @ r) = Some (tn_table n, r)"
    by (rule take_identifier_form[OF f(2)]) (use assms(2) in auto)
  ultimately show ?thesis using f(3) Some by (cases n) (simp add: take_qualified_def)
qed

subsection \<open>Stepping over text\<close>

text \<open>
  \<open>level s d q\<close>: the depth after \<open>s\<close>, and whether a quoted identifier is open there, when outside of such
  identifiers \<open>s\<close> closes nothing it did not open and has its commas inside parentheses.
\<close>

fun level :: "bytes \<Rightarrow> int \<Rightarrow> bool \<Rightarrow> (int \<times> bool) option" where
  "level [] d q = Some (d, q)"
| "level (c # s) d q =
     (if c = DQ then level s d (\<not> q)
      else if q then level s d q
      else if c = CHR ''('' then level s (d + 1) q
      else if c = CHR '')'' then (if d = 0 then None else level s (d - 1) q)
      else if c = CHR '','' \<and> d = 0 then None
      else level s d q)"

definition inert :: "bytes \<Rightarrow> bool" where
  "inert s \<longleftrightarrow> level s 0 False = Some (0, False)"

lemma level_append: "level (s @ t) d q = Option.bind (level s d q) (\<lambda>(e, p). level t e p)"
  by (induction s d q rule: level.induct) auto

text \<open>A doubled quote in an identifier might as well close it and open another, so the loops step over such text.\<close>

lemma split_loop_close: "split_loop sep (DQ # r) d True piece = split_loop sep r d False (piece @ [DQ])"
  by (cases r) simp_all

lemma paren_loop_close: "paren_loop (DQ # r) i d True = paren_loop r (i + 1) d False"
  by (cases r) simp_all

lemma split_loop_open:
  "split_loop sep (c # s) d True piece =
     (if c = DQ then split_loop sep s d False (piece @ [DQ]) else split_loop sep s d True (piece @ [c]))"
proof (cases "c = DQ")
  case True
  then show ?thesis using split_loop_close[of sep s d piece] by (simp only: True if_True refl)
qed simp

lemma paren_loop_open:
  "paren_loop (c # s) i d True = (if c = DQ then paren_loop s (i + 1) d False else paren_loop s (i + 1) d True)"
proof (cases "c = DQ")
  case True
  then show ?thesis using paren_loop_close[of s i d] by (simp only: True if_True refl)
qed simp

lemma split_loop_level:
  "level s d q = Some (e, p) \<Longrightarrow>
     split_loop (CHR '','') (s @ r) d q piece = split_loop (CHR '','') r e p (piece @ s)"
proof (induction s d q arbitrary: piece rule: level.induct)
  case (2 c s d q)
  then show ?case
    by (cases q) (auto simp: split_loop_open simp del: split_loop.simps(2) split: if_splits,
      auto split: if_splits)
qed simp

lemma paren_loop_level:
  "level s d q = Some (e, p) \<Longrightarrow>
     paren_loop (s @ r) i (d + 1) q = paren_loop r (i + length s) (e + 1) p"
proof (induction s d q arbitrary: i rule: level.induct)
  case (2 c s d q)
  from 2(6) show ?case
    using 2(1)[of "Suc i"] 2(2)[of "Suc i"] 2(3)[of "Suc i"] 2(4)[of "Suc i"] 2(5)[of "Suc i"]
    by (cases q) (auto simp: paren_loop_open algebra_simps simp del: paren_loop.simps(2) split: if_splits,
      auto simp: algebra_simps split: if_splits)
qed simp

lemma plain_level: "list_all plain_char n \<Longrightarrow> level n d False = Some (d, False)"
  by (induction n) (auto dest: plain_char_simps)

subsection \<open>Column lists\<close>

text \<open>An item of a column list: text the two loops step over when a comma or the end follows.\<close>

definition steps :: "bytes \<Rightarrow> bool" where
  "steps item \<longleftrightarrow> (\<forall>r i piece. r = [] \<or> hd r = CHR '','' \<or> hd r = CHR '')'' \<longrightarrow>
     split_loop (CHR '','') (item @ r) 0 False piece = split_loop (CHR '','') r 0 False (piece @ item)
     \<and> paren_loop (item @ r) i 1 False = paren_loop r (i + length item) 1 False)"

lemma stepsD:
  assumes "steps item" "r = [] \<or> hd r = CHR '','' \<or> hd r = CHR '')''"
  shows "split_loop (CHR '','') (item @ r) 0 False piece = split_loop (CHR '','') r 0 False (piece @ item)"
    and "paren_loop (item @ r) i 1 False = paren_loop r (i + length item) 1 False"
  using assms unfolding steps_def by blast+

lemma inert_steps:
  assumes "inert s"
  shows "steps s"
  using split_loop_level[OF assms[unfolded inert_def]] paren_loop_level[OF assms[unfolded inert_def]]
  by (simp add: steps_def)

lemma inert_append: "inert s \<Longrightarrow> inert t \<Longrightarrow> inert (s @ t)"
  by (simp add: inert_def level_append)

lemma level_escape: "level (dq_escape n @ s) d True = level s d True"
  by (induction n) simp_all

lemma form_inert:
  assumes "ident_form n f"
  shows "inert f"
  using assms plain_level[of n 0] level_escape[of n "[DQ]"] by (auto simp: ident_form_def quote_ident_def inert_def)

lemma steps_item: "inert pre \<Longrightarrow> ident_form n f \<Longrightarrow> inert post \<Longrightarrow> steps (pre @ f @ post)"
  using inert_append[of f post] inert_append[of pre "f @ post"] form_inert[of n f] inert_steps by blast

lemma split_items:
  "items \<noteq> [] \<Longrightarrow> list_all steps items \<Longrightarrow>
     split_loop (CHR '','') (join_with (CHR '','') items) 0 False piece = (piece @ hd items) # tl items"
proof (induction items arbitrary: piece)
  case (Cons x items)
  have x: "steps x" using Cons.prems by simp
  show ?case
  proof (cases items)
    case Nil
    then show ?thesis using stepsD(1)[OF x, of "[]" piece] by simp
  next
    case (Cons y ys)
    let ?r = "CHR '','' # join_with (CHR '','') (y # ys)"
    have "split_loop (CHR '','') (x @ ?r) 0 False piece = split_loop (CHR '','') ?r 0 False (piece @ x)"
      using stepsD(1)[OF x, of ?r piece] by simp
    also have "\<dots> = (piece @ x) # split_loop (CHR '','') (join_with (CHR '','') (y # ys)) 0 False []" by simp
    also have "\<dots> = (piece @ x) # y # ys"
      using Cons.IH[of "[]"] Cons.prems \<open>items = y # ys\<close> by simp
    finally show ?thesis using Cons by simp
  qed
qed simp

lemma paren_items:
  "list_all steps items \<Longrightarrow>
     paren_loop (join_with (CHR '','') items @ CHR '')'' # r) i 1 False = Some (i + length (join_with (CHR '','') items))"
proof (induction items arbitrary: i)
  case (Cons x items)
  have x: "steps x" using Cons.prems by simp
  show ?case
  proof (cases items)
    case Nil
    then show ?thesis using stepsD(2)[OF x, of "CHR '')'' # r" i] by simp
  next
    case (Cons y ys)
    let ?t = "join_with (CHR '','') (y # ys) @ CHR '')'' # r"
    have "paren_loop (x @ CHR '','' # ?t) i 1 False = paren_loop (CHR '','' # ?t) (i + length x) 1 False"
      using stepsD(2)[OF x, of "CHR '','' # ?t" i] by simp
    also have "\<dots> = paren_loop ?t (i + length x + 1) 1 False" by simp
    also have "\<dots> = Some (i + length x + 1 + length (join_with (CHR '','') (y # ys)))"
      using Cons.IH[of "i + length x + 1"] Cons.prems \<open>items = y # ys\<close> by simp
    finally show ?thesis using Cons by (simp add: add.assoc)
  qed
qed simp

text \<open>The parenthesised list of a statement is found and cut into its items.\<close>

lemma list_found:
  assumes "list_all steps items" "CHR ''('' \<notin> set pre"
  shows "let s = pre @ CHR ''('' # join_with (CHR '','') items @ CHR '')'' # post;
             c = length pre + 1 + length (join_with (CHR '','') items)
         in find_byte (CHR ''('') s = Some (length pre) \<and> matching_paren s (length pre) = Some c
            \<and> drop (length pre + 1) (take c s) = join_with (CHR '','') items"
  using paren_items[OF assms(1), of post "length pre + 1"] assms(2)
  by (simp add: Let_def find_byte_here matching_paren_def)

lemma split_top_items:
  "items \<noteq> [] \<Longrightarrow> list_all steps items \<Longrightarrow>
     split_top_level (join_with (CHR '','') items) (CHR '','') = items"
  using split_items[of items "[]"] by (cases items) (simp_all add: split_top_level_def)

subsection \<open>COPY headers\<close>

text \<open>The statement \<open>pg_dump\<close> writes before the rows of a table, with or without a column list.\<close>

definition copy_header :: "bytes \<Rightarrow> bytes list \<Rightarrow> bytes" where
  "copy_header table_form col_forms =
     ''COPY '' @ table_form @
     (case col_forms of [] \<Rightarrow> []
      | c # cs \<Rightarrow> '' ('' @ join_with (CHR '','') (c # map (\<lambda>f. CHR '' '' # f) cs) @ '')'') @
     '' FROM stdin;''"

lemma strip_prefix_ci_append [simp]: "strip_prefix_ci (p @ s) p = Some s"
  by (simp add: strip_prefix_ci_def)

lemma trim_ascii_start_id: "s = [] \<or> \<not> is_ascii_whitespace (hd s) \<Longrightarrow> trim_ascii_start s = s"
  by (simp add: trim_ascii_start_def dropWhile_id)

lemma map_filter_forms:
  "list_all2 ident_form ns fs \<Longrightarrow>
     List.map_filter (\<lambda>item. map_option fst (take_identifier item)) (map (\<lambda>f. CHR '' '' # f) fs) = ns"
proof (induction rule: list_all2_induct)
  case (Cons n ns f fs)
  have "take_identifier (CHR '' '' # f) = Some (n, [])"
    using take_identifier_form[OF Cons(1), of "[]"]
    by (subst take_identifier_space) (simp_all add: byte_defs)
  then show ?case using Cons by (simp add: List.map_filter_simps)
qed (simp add: List.map_filter_simps)

lemma parse_copy_header_form:
  assumes "name_form n tf" "list_all2 ident_form cols fs"
  shows "parse_copy_header (copy_header tf fs) = Inr (n, cols)"
proof -
  define after where "after = drop 5 (copy_header tf fs)"
  have h: "copy_header tf fs = ''COPY '' @ after" by (simp add: after_def copy_header_def)
  have strip: "strip_prefix_ci (trim_ascii_start (copy_header tf fs)) ''COPY '' = Some after"
    unfolding h by (subst trim_ascii_start_id) (simp_all add: byte_defs del: append_Cons)
  show ?thesis
  proof (cases fs)
    case Nil
    have "take_qualified (tf @ '' FROM stdin;'') = Some (n, '' FROM stdin;'')"
      by (rule take_qualified_form[OF assms(1)]) (simp add: ident_stop_def byte_defs)
    then show ?thesis
      using strip Nil assms(2) by (simp add: parse_copy_header_def after_def copy_header_def)
  next
    case (Cons f fs')
    then obtain c cs where c: "cols = c # cs" "ident_form c f" "list_all2 ident_form cs fs'"
      using assms(2) by (auto simp: list_all2_Cons2)
    define items where "items = f # map (\<lambda>f. CHR '' '' # f) fs'"
    define rest where "rest = '' '' @ CHR ''('' # join_with (CHR '','') items @ CHR '')'' # '' FROM stdin;''"
    have "steps f" using steps_item[OF _ c(2), of "[]" "[]"] by (simp add: inert_def)
    moreover have "list_all steps (map (\<lambda>f. CHR '' '' # f) fs')"
      using c(3)
    proof (induction rule: list_all2_induct)
      case (Cons m ms g gs)
      then show ?case using steps_item[OF _ Cons(1), of "'' ''" "[]"] by (simp add: inert_def)
    qed simp
    ultimately have st: "list_all steps items" by (simp add: items_def)
    have "take_qualified (tf @ rest) = Some (n, rest)"
      by (rule take_qualified_form[OF assms(1)]) (simp add: rest_def ident_stop_def byte_defs)
    moreover have "after = tf @ rest" by (simp add: after_def copy_header_def Cons rest_def items_def)
    moreover note list_found[OF st, of "'' ''" "'' FROM stdin;''", folded rest_def]
    moreover have "split_top_level (join_with (CHR '','') items) (CHR '','') = items"
      by (rule split_top_items[OF _ st]) (simp add: items_def)
    moreover have "List.map_filter (\<lambda>item. map_option fst (take_identifier item)) items = cols"
      using take_identifier_form[OF c(2), of "[]"] map_filter_forms[OF c(3)] c(1)
      by (simp add: items_def List.map_filter_simps)
    ultimately show ?thesis using strip by (simp add: parse_copy_header_def Let_def)
  qed
qed


subsection \<open>Types\<close>

text \<open>
  A type is given by its words, such as \<open>timestamp(3) without time zone\<close>: none of them ends a type, and
  its parentheses balance, with its commas inside them or in quoted identifiers. What follows it starts
  with a keyword that does end a type, and keeps its commas in the same way.
\<close>

definition space_free :: "bytes \<Rightarrow> bool" where
  "space_free w \<longleftrightarrow> list_all (\<lambda>c. \<not> is_ascii_whitespace c) w"

definition type_text :: "bytes list \<Rightarrow> bytes" where
  "type_text ws = join_with (CHR '' '') ws"

definition is_terminator :: "bytes \<Rightarrow> bool" where
  "is_terminator w \<longleftrightarrow> list_ex (eq_ignore_ascii_case w) TYPE_TERMINATORS"

fun paren_depth :: "bytes \<Rightarrow> int \<Rightarrow> int" where
  "paren_depth [] d = d"
| "paren_depth (c # s) d = paren_depth s (if c = CHR ''('' then d + 1 else if c = CHR '')'' then d - 1 else d)"

lemma paren_depth_append [simp]: "paren_depth (s @ t) d = paren_depth t (paren_depth s d)"
  by (induction s d rule: paren_depth.induct) simp_all

definition type_ok :: "bytes list \<Rightarrow> bool" where
  "type_ok ws \<longleftrightarrow> ws \<noteq> [] \<and> inert (type_text ws) \<and> paren_depth (type_text ws) 0 = 0 \<and> utf8_valid (type_text ws)
     \<and> list_all (\<lambda>w. w \<noteq> [] \<and> space_free w \<and> \<not> is_terminator w) ws"

definition tail_ok :: "bytes \<Rightarrow> bool" where
  "tail_ok t \<longleftrightarrow> t = [] \<or> inert t \<and> \<not> is_ascii_whitespace (last t) \<and> hd t = CHR '' ''
     \<and> first_word (tl t) \<in> set TYPE_TERMINATORS"

lemma space_is_whitespace [simp]: "is_ascii_whitespace (CHR '' '')" "is_ascii_whitespace NL"
  by (simp_all add: byte_defs)

lemma cut_inner:
  "space_free w \<Longrightarrow> cut_loop (w @ r) i d False = cut_loop r (i + length w) (paren_depth w d) False"
  by (induction w arbitrary: i d) (simp_all add: space_free_def Let_def)

lemma first_word_append:
  "space_free w \<Longrightarrow> r = [] \<or> is_ascii_whitespace (hd r) \<Longrightarrow> first_word (w @ r) = w"
  by (cases r) (auto simp: first_word_def space_free_def list_all_iff)

lemma cut_word:
  assumes "w \<noteq> []" "space_free w" "\<not> is_terminator w" "r = [] \<or> is_ascii_whitespace (hd r)"
  shows "cut_loop (w @ r) i d True = cut_loop r (i + length w) (paren_depth w d) False"
proof -
  obtain c u where w: "w = c # u" using assms(1) by (cases w) auto
  have "first_word (c # u @ r) = w" using first_word_append[OF assms(2,4)] w by simp
  then have "\<not> list_ex (eq_ignore_ascii_case (first_word (c # u @ r))) TYPE_TERMINATORS"
    using assms(3) by (simp add: is_terminator_def)
  moreover have "space_free u" "\<not> is_ascii_whitespace c" using assms(2) w by (simp_all add: space_free_def)
  ultimately show ?thesis by (simp add: w Let_def cut_inner)
qed

lemma cut_words:
  assumes "ws \<noteq> []" "list_all (\<lambda>w. w \<noteq> [] \<and> space_free w \<and> \<not> is_terminator w) ws"
    "r = [] \<or> is_ascii_whitespace (hd r)"
  shows "cut_loop (type_text ws @ r) i d True
    = cut_loop r (i + length (type_text ws)) (paren_depth (type_text ws) d) False"
  using assms(1,2)
proof (induction ws arbitrary: i d)
  case (Cons w ws)
  have w: "w \<noteq> []" "space_free w" "\<not> is_terminator w" using Cons.prems by simp_all
  show ?case
  proof (cases ws)
    case Nil
    then show ?thesis using cut_word[OF w assms(3)] by (simp add: type_text_def)
  next
    case (Cons v vs)
    have "cut_loop (w @ CHR '' '' # type_text ws @ r) i d True
        = cut_loop (CHR '' '' # type_text ws @ r) (i + length w) (paren_depth w d) False"
      by (rule cut_word[OF w]) simp
    also have "\<dots> = cut_loop (type_text ws @ r) (i + length w + 1) (paren_depth w d) True"
      by (simp add: Let_def)
    also have "\<dots> = cut_loop r (i + length w + 1 + length (type_text ws)) (paren_depth (type_text ws) (paren_depth w d)) False"
      using Cons.IH Cons.prems Cons by simp
    finally show ?thesis using Cons by (simp add: type_text_def add.assoc)
  qed
qed simp

lemma terminators_start:
  "w \<in> set TYPE_TERMINATORS \<Longrightarrow> w \<noteq> [] \<and> hd w \<noteq> CHR ''('' \<and> hd w \<noteq> CHR '')'' \<and> is_terminator w"
  by (auto simp: TYPE_TERMINATORS_def is_terminator_def)

lemma trim_ascii_core:
  assumes "list_all is_ascii_whitespace pre" "list_all is_ascii_whitespace post"
    "core \<noteq> []" "\<not> is_ascii_whitespace (hd core)" "\<not> is_ascii_whitespace (last core)"
  shows "trim_ascii (pre @ core @ post) = core"
proof -
  have "trim_ascii_start (pre @ core @ post) = core @ post"
    using assms(1,3,4) by (induction pre) (simp_all add: trim_ascii_start_def dropWhile_id)
  moreover have "trim_ascii_end (core @ post) = core"
    using assms(2,3,5)
  proof (induction post rule: rev_induct)
    case Nil
    then show ?case by (simp add: trim_ascii_end_def drop_end_id)
  next
    case (snoc c post)
    then show ?case using drop_end_simps(3)[of is_ascii_whitespace c "core @ post"]
      by (simp add: trim_ascii_end_def)
  qed
  ultimately show ?thesis by (simp add: trim_ascii_def)
qed

lemma type_text_ends:
  assumes "type_ok ws"
  shows "type_text ws \<noteq> []" "\<not> is_ascii_whitespace (hd (type_text ws))" "\<not> is_ascii_whitespace (last (type_text ws))"
proof -
  have ws: "ws \<noteq> []" "list_all (\<lambda>w. w \<noteq> [] \<and> space_free w \<and> \<not> is_terminator w) ws"
    using assms by (simp_all add: type_ok_def)
  then obtain w vs where "ws = w # vs" by (cases ws) auto
  with ws show "type_text ws \<noteq> []" "\<not> is_ascii_whitespace (hd (type_text ws))"
    by (cases vs; cases w; simp add: type_text_def space_free_def)+
  from ws show "\<not> is_ascii_whitespace (last (type_text ws))"
  proof (induction ws)
    case (Cons w ws)
    then show ?case
      by (cases ws) (auto simp: type_text_def space_free_def list_all_iff join_with_nonempty)
  qed simp
qed

lemma take_type_text:
  assumes "type_ok ws" "tail_ok t"
  shows "take_type (CHR '' '' # type_text ws @ t) = type_text ws"
proof -
  let ?y = "type_text ws"
  note y = type_text_ends[OF assms(1)]
  have ok: "ws \<noteq> []" "list_all (\<lambda>w. w \<noteq> [] \<and> space_free w \<and> \<not> is_terminator w) ws"
    "paren_depth ?y 0 = 0" "utf8_valid ?y"
    using assms(1) by (simp_all add: type_ok_def)
  have tr: "trim_ascii (CHR '' '' # ?y @ t) = ?y @ t"
    using trim_ascii_core[of "'' ''" "[]" "?y @ t"] y assms(2) by (cases "t = []") (auto simp: tail_ok_def)
  have self: "trim_ascii ?y = ?y" using trim_ascii_core[of "[]" "[]" ?y] y by simp
  show ?thesis
  proof (cases "t = []")
    case True
    have "cut_loop ?y 0 0 True = length ?y" using cut_words[OF ok(1,2), of "[]" 0 0] by simp
    then show ?thesis using tr True ok(4) self by (simp add: take_type_def Let_def from_utf8_lossy_valid)
  next
    case False
    then obtain u where u: "t = CHR '' '' # u" "first_word u \<in> set TYPE_TERMINATORS"
      using assms(2) by (cases t) (auto simp: tail_ok_def)
    then obtain c u' where cu: "u = c # u'" "c \<noteq> CHR ''(''" "c \<noteq> CHR '')''" "is_terminator (first_word u)"
      using terminators_start[OF u(2)] by (cases u) (auto simp: first_word_def split: if_splits)
    have "cut_loop (?y @ t) 0 0 True = cut_loop t (length ?y) 0 False"
      using cut_words[OF ok(1,2), of t 0 0] ok(3) u(1) by simp
    also have "\<dots> = length ?y + 1"
      using cu by (simp add: u(1) Let_def is_terminator_def)
    finally have cut: "cut_loop (?y @ t) 0 0 True = length ?y + 1" .
    have "trim_ascii (?y @ '' '') = ?y" using trim_ascii_core[of "[]" "'' ''" ?y] y by simp
    then show ?thesis using tr cut u(1) ok(4) by (simp add: take_type_def Let_def from_utf8_lossy_valid)
  qed
qed


subsection \<open>CREATE TABLE\<close>

text \<open>
  The items of a statement as \<open>pg_dump\<close> writes it. A column has its name, the form the name is written in,
  the words of its type and the rest of its line; a bare name must not read as the start of a table
  constraint. A table constraint is text that does start so.
\<close>

record col_text =
  ct_name :: bytes
  ct_form :: bytes
  ct_words :: "bytes list"
  ct_tail :: bytes

definition col_ok :: "col_text \<Rightarrow> bool" where
  "col_ok c \<longleftrightarrow> ident_form (ct_name c) (ct_form c) \<and> type_ok (ct_words c) \<and> tail_ok (ct_tail c)
     \<and> (ct_form c = ct_name c \<longrightarrow> \<not> list_ex (eq_ignore_ascii_case (ct_name c)) CONSTRAINT_LEADERS)"

definition col_line :: "col_text \<Rightarrow> bytes" where
  "col_line c = NL # ''    '' @ ct_form c @ CHR '' '' # type_text (ct_words c) @ ct_tail c"

datatype item_text = ColumnText col_text | ConstraintText bytes

fun item_ok :: "item_text \<Rightarrow> bool" where
  "item_ok (ColumnText c) \<longleftrightarrow> col_ok c"
| "item_ok (ConstraintText t) \<longleftrightarrow> t \<noteq> [] \<and> inert t \<and> \<not> is_ascii_whitespace (hd t) \<and> \<not> is_ascii_whitespace (last t)
     \<and> list_ex (eq_ignore_ascii_case (first_word t)) CONSTRAINT_LEADERS"

fun item_line :: "item_text \<Rightarrow> bytes" where
  "item_line (ColumnText c) = col_line c"
| "item_line (ConstraintText t) = NL # ''    '' @ t"

fun item_lines :: "item_text list \<Rightarrow> bytes list" where
  "item_lines [] = []"
| "item_lines [i] = [item_line i @ [NL]]"
| "item_lines (i # j # is) = item_line i # item_lines (j # is)"

definition create_text :: "bytes \<Rightarrow> item_text list \<Rightarrow> bytes" where
  "create_text table_form items =
     ''CREATE TABLE '' @ table_form @ '' ('' @ join_with (CHR '','') (item_lines items) @ '');''"

text \<open>What the statement declares.\<close>

fun item_column :: "item_text \<Rightarrow> column_def option" where
  "item_column (ColumnText c) = Some \<lparr>cd_name = ct_name c, cd_type = type_text (ct_words c)\<rparr>"
| "item_column (ConstraintText t) = None"

lemma form_ends:
  assumes "ident_form n f"
  shows "f \<noteq> []" "\<not> is_ascii_whitespace (hd f)"
  using assms plain_char_simps(2)
  by (auto simp: ident_form_def quote_ident_def byte_defs list_all_iff dest: hd_in_set)

lemma hd_quote_ident [simp]: "hd (quote_ident n) = DQ"
  by (simp add: quote_ident_def)

lemma leaders_start:
  "list_all (\<lambda>k. k \<noteq> [] \<and> to_ascii_lower (hd k) \<noteq> to_ascii_lower DQ) CONSTRAINT_LEADERS"
  by code_simp

lemma quoted_not_leader:
  assumes "hd w = DQ"
  shows "\<not> list_ex (eq_ignore_ascii_case w) CONSTRAINT_LEADERS"
proof
  assume "list_ex (eq_ignore_ascii_case w) CONSTRAINT_LEADERS"
  then obtain k where k: "k \<in> set CONSTRAINT_LEADERS" "map to_ascii_lower w = map to_ascii_lower k"
    by (auto simp: list_ex_iff eq_ignore_ascii_case_def)
  then have "k \<noteq> []" "to_ascii_lower (hd k) \<noteq> to_ascii_lower DQ"
    using leaders_start by (auto simp: list_all_iff)
  then show False using k(2) assms by (cases k; cases w) auto
qed

lemma leader_form:
  assumes "col_ok c"
  shows "\<not> list_ex (eq_ignore_ascii_case (first_word (ct_form c @ CHR '' '' # r))) CONSTRAINT_LEADERS"
proof (cases "ct_form c = ct_name c")
  case True
  show ?thesis
  proof (cases "hd (ct_form c) = DQ")
    case False
    then have "list_all plain_char (ct_form c)"
      using assms True unfolding col_ok_def ident_form_def by (metis hd_quote_ident)
    then have "space_free (ct_form c)"
      using plain_char_simps(2) by (simp add: space_free_def list_all_iff)
    then show ?thesis using assms True by (simp add: first_word_append col_ok_def)
  next
    case dq: True
    then have "hd (first_word (ct_form c @ CHR '' '' # r)) = DQ"
      by (cases "ct_form c") (simp_all add: first_word_def byte_defs)
    then show ?thesis by (rule quoted_not_leader)
  qed
next
  case False
  then have "hd (ct_form c) = DQ" using assms by (auto simp: col_ok_def ident_form_def quote_ident_def)
  then have "hd (first_word (ct_form c @ CHR '' '' # r)) = DQ"
    by (cases "ct_form c") (simp_all add: first_word_def byte_defs)
  then show ?thesis by (rule quoted_not_leader)
qed

lemma column_item_line:
  assumes "col_ok c" "list_all is_ascii_whitespace post"
  shows "column_item (col_line c @ post) = Some \<lparr>cd_name = ct_name c, cd_type = type_text (ct_words c)\<rparr>"
proof -
  let ?y = "type_text (ct_words c)"
  let ?core = "ct_form c @ CHR '' '' # ?y @ ct_tail c"
  have c: "ident_form (ct_name c) (ct_form c)" "type_ok (ct_words c)" "tail_ok (ct_tail c)"
    using assms(1) by (simp_all add: col_ok_def)
  note f = form_ends[OF c(1)] and y = type_text_ends[OF c(2)]
  have "last ?core = last (?y @ ct_tail c)" using y(1) by simp
  then have "\<not> is_ascii_whitespace (last ?core)" using y c(3) by (cases "ct_tail c = []") (auto simp: tail_ok_def)
  then have tr: "trim_ascii (col_line c @ post) = ?core"
    using trim_ascii_core[of "NL # ''    ''" post ?core] f assms(2) by (simp add: col_line_def)
  have "take_identifier ?core = Some (ct_name c, CHR '' '' # ?y @ ct_tail c)"
    by (rule take_identifier_form[OF c(1)]) (simp add: ident_stop_def)
  then show ?thesis
    using tr f leader_form[OF assms(1)] take_type_text[OF c(2,3)] y(1)
    by (simp add: column_item_def Let_def)
qed

lemma constraint_item_line:
  assumes "item_ok (ConstraintText t)" "list_all is_ascii_whitespace post"
  shows "column_item (item_line (ConstraintText t) @ post) = None"
  using trim_ascii_core[of "NL # ''    ''" post t] assms by (simp add: column_item_def Let_def)

lemma item_line_column:
  assumes "item_ok i" "list_all is_ascii_whitespace post"
  shows "column_item (item_line i @ post) = item_column i"
proof (cases i)
  case (ColumnText c)
  then show ?thesis using column_item_line[of c post] assms by simp
next
  case (ConstraintText t)
  then show ?thesis using constraint_item_line[of t post] assms by simp
qed

lemma item_line_steps:
  assumes "item_ok i" "post = [] \<or> post = [NL]"
  shows "steps (item_line i @ post)"
proof (rule inert_steps)
  have "inert (NL # ''    '')" "inert post" "inert '' ''" using assms(2) by (auto simp: inert_def)
  note parts = this(1) inert_append[OF _ this(2)] inert_append[OF this(3)]
  show "inert (item_line i @ post)"
  proof (cases i)
    case (ColumnText c)
    have "inert (ct_form c)" "inert (type_text (ct_words c))" "inert (ct_tail c)"
      using assms(1) ColumnText form_inert by (auto simp: col_ok_def type_ok_def tail_ok_def inert_def)
    then have "inert (((NL # ''    '') @ ct_form c @ '' '' @ type_text (ct_words c) @ ct_tail c) @ post)"
      by (intro parts inert_append)
    then show ?thesis using ColumnText by (simp add: col_line_def)
  next
    case (ConstraintText t)
    then have "inert (((NL # ''    '') @ t) @ post)" using assms(1) by (intro parts inert_append) simp
    then show ?thesis using ConstraintText by simp
  qed
qed

lemma item_lines_steps: "list_all item_ok items \<Longrightarrow> list_all steps (item_lines items)"
  by (induction items rule: item_lines.induct)
     (use item_line_steps in \<open>auto, metis append_Nil2\<close>)

lemma item_lines_columns:
  "list_all item_ok items \<Longrightarrow> List.map_filter column_item (item_lines items) = List.map_filter item_column items"
proof (induction items rule: item_lines.induct)
  case (2 i)
  then show ?case using item_line_column[of i "[NL]"] by (simp add: List.map_filter_simps split: option.split)
next
  case (3 i j ks)
  then show ?case using item_line_column[of i "[]"] by (simp add: List.map_filter_simps split: option.split)
qed (simp add: List.map_filter_simps)

lemma parse_create_text:
  assumes "name_form n tf" "list_all item_ok items" "items \<noteq> []"
  shows "parse_create_table (create_text tf items) = Inr \<lparr>td_name = n, td_columns = List.map_filter item_column items\<rparr>"
proof -
  define ls where "ls = item_lines items"
  define rest where "rest = '' '' @ CHR ''('' # join_with (CHR '','') ls @ CHR '')'' # '';''"
  have t: "create_text tf items = ''CREATE TABLE '' @ (tf @ rest)"
    by (simp add: create_text_def rest_def ls_def)
  have kw: "strip_create_table (trim_ascii_start (create_text tf items)) = Some (tf @ rest)"
    unfolding t strip_create_table_def
    by (subst trim_ascii_start_id, simp add: byte_defs, subst strip_prefix_ci_append, simp)
  have st: "list_all steps ls" unfolding ls_def by (rule item_lines_steps[OF assms(2)])
  have ne: "ls \<noteq> []" unfolding ls_def using assms(3) by (cases items rule: item_lines.cases) auto
  have "take_qualified (tf @ rest) = Some (n, rest)"
    by (rule take_qualified_form[OF assms(1)]) (simp add: rest_def ident_stop_def byte_defs)
  then show ?thesis
    using kw list_found[OF st, of "'' ''" "'';''", folded rest_def] split_top_items[OF ne st]
      item_lines_columns[OF assms(2)]
    by (simp add: parse_create_table_def Let_def ls_def)
qed


subsection \<open>Statements of excluded schemas\<close>

lemma strip_prefix_ci_hd:
  "strip_prefix_ci l (p # ps) = Some r \<Longrightarrow> l \<noteq> [] \<and> to_ascii_lower (hd l) = to_ascii_lower p"
  by (cases l) (auto simp: strip_prefix_ci_def eq_ignore_ascii_case_def split: if_splits)

lemma dash_not_c: "to_ascii_lower (CHR ''-'') \<noteq> to_ascii_lower (CHR ''C'')"
  by code_simp

lemma create_line_not_comment:
  assumes "strip_create_table l = Some kw"
  shows "strip_prefix_ci l ''-- Dumped by pg_dump version '' = None"
    "strip_prefix_ci l ''-- Dumped from database version '' = None" "\<not> starts_with l ''--''"
proof -
  have c: "l \<noteq> []" "to_ascii_lower (hd l) = to_ascii_lower (CHR ''C'')"
    using assms by (auto simp: strip_create_table_def split: option.splits dest: strip_prefix_ci_hd)
  then show "strip_prefix_ci l ''-- Dumped by pg_dump version '' = None"
    "strip_prefix_ci l ''-- Dumped from database version '' = None"
    using strip_prefix_ci_hd dash_not_c by (metis not_Some_eq)+
  show "\<not> starts_with l ''--''"
    using c dash_not_c by (cases l) (auto simp: starts_with_def)
qed

lemma skipping_lines:
  assumes "sc_state s = InSql" "sc_skipping_create s"
    "list_all (\<lambda>l. \<not> ends_statement (strip_cr l)) ls" "ends_statement (strip_cr t)"
  shows "scan_lines (ls @ [t]) s = Inr (s\<lparr>sc_skipping_create := False\<rparr>, [])"
  using assms(3)
  by (induction ls) (simp_all add: line_step_def assms(1,2,4) sql_line_def)

lemma excluded_statement:
  assumes s: "sc_state s = InSql" "\<not> sc_in_create s" "\<not> sc_skipping_create s"
    and l: "strip_create_table (strip_cr l) = Some kw" "schema_is_excluded s kw" "\<not> ends_statement (strip_cr l)"
    and r: "list_all (\<lambda>l. \<not> ends_statement (strip_cr l)) ls" "ends_statement (strip_cr t)"
  shows "scan_lines (l # ls @ [t]) s = Inr (s, [])"
proof -
  let ?s = "s\<lparr>sc_skipping_create := True\<rparr>"
  have "line_step l s = Inr (?s, [])"
    using s l create_line_not_comment[OF l(1)] by (simp add: line_step_def sql_line_def)
  moreover have "scan_lines (ls @ [t]) ?s = Inr (?s\<lparr>sc_skipping_create := False\<rparr>, [])"
    by (rule skipping_lines) (use s r in simp_all)
  moreover have "?s\<lparr>sc_skipping_create := False\<rparr> = s" using s(3) by (cases s) simp
  ultimately show ?thesis by simp
qed


subsection \<open>Properties\<close>

text \<open>
  C10. How a dump is cut into chunks does not matter to the scanner: from any state without an
  unfinished line in it holding a newline, feeding the chunks one after the other ends with the error,
  or in the state and with the rows and other events, of handling the stream line by line, and keeps
  the unfinished last line. (No line may end with two carriage returns; see
  \<open>straddling_row_loses_a_cr\<close>.)
\<close>

theorem feed_refines_lines:
  assumes "NL \<notin> set (sc_pending s)" "stream = sc_pending s @ concat chunks"
    and "list_all single_cr (butlast (split_on NL stream))"
  shows "case scan_lines (butlast (split_on NL stream)) (s\<lparr>sc_pending := []\<rparr>) of
      Inl e \<Rightarrow> feed_all chunks s = Inl e
    | Inr (s', evs) \<Rightarrow> \<exists>evs'. views evs' = views evs
        \<and> feed_all chunks s = Inr (s'\<lparr>sc_pending := last (split_on NL stream)\<rparr>, evs')"
  using feed_all_lines[OF assms(1), of chunks] assms(2,3)
  by (auto simp: list_all_iff split: sum.splits)

text \<open>A small dump, used where a property needs an example.\<close>

definition sample_dump :: bytes where
  "sample_dump = ''-- Dumped by pg_dump version 16.1'' @ NL # ''COPY t (a) FROM stdin;'' @ NL # ''x'' @ NL
     # END_OF_DATA @ [NL]"

definition sample_name :: table_name where
  "sample_name = \<lparr>tn_schema = None, tn_table = ''t''\<rparr>"

lemma sample_dump_lines:
  "list_all single_cr (butlast (split_on NL sample_dump))"
  by code_simp

theorem feed_refines_lines_witness:
  "case scan_lines (butlast (split_on NL sample_dump)) new_scanner of
      Inl e \<Rightarrow> feed_all [take 40 sample_dump, drop 40 sample_dump] new_scanner = Inl e
    | Inr (s', evs) \<Rightarrow> \<exists>evs'. views evs' = views evs
        \<and> feed_all [take 40 sample_dump, drop 40 sample_dump] new_scanner
          = Inr (s'\<lparr>sc_pending := last (split_on NL sample_dump)\<rparr>, evs')"
proof -
  have s: "sc_pending new_scanner = []" "new_scanner\<lparr>sc_pending := []\<rparr> = new_scanner"
    by (simp_all add: new_scanner_def)
  have "NL \<notin> set (sc_pending new_scanner)"
    "sample_dump = sc_pending new_scanner @ concat [take 40 sample_dump, drop 40 sample_dump]"
    by (simp_all add: s)
  from feed_refines_lines[OF this sample_dump_lines] show ?thesis unfolding s(2) .
qed

text \<open>
  C11. A scan that ends well read a whole dump: the events opened and closed every \<open>COPY\<close> block in
  turn with all rows inside one, a supported \<open>pg_dump\<close> version was announced, and every table that
  was announced is recorded under its name.
\<close>

theorem finished_scan_is_complete:
  assumes "feed_all chunks (set_excluded_schemas ex new_scanner) = Inr (s, evs)" "scan_finish s = Inr ()"
  shows "protocol evs None = Some None
    \<and> (\<exists>v d. v \<in> set SUPPORTED_MAJORS \<and> sc_dumped_by s = Some v \<and> DumpVersion v d \<in> set evs)
    \<and> (\<forall>d. TableEvent d \<in> set evs \<longrightarrow> sc_tables s (qualified_name (td_name d)) \<noteq> None)"
proof -
  let ?s0 = "set_excluded_schemas ex new_scanner"
  have run: "scan_run ?s0 evs s" by (rule feed_all_run[OF assms(1) new_scanner_inv])
  have z: "sc_open_table ?s0 = None" "sc_dumped_by ?s0 = None"
    by (simp_all add: set_excluded_schemas_def new_scanner_def)
  have f: "sc_state s = InSql" "sc_dumped_by s \<noteq> None"
    using assms(2) by (auto simp: scan_finish_def split: if_splits intro: scan_state.exhaust)
  have inv: "scanner_inv s" using run by (simp add: scan_run_def)
  then have "sc_open_table s = None" "\<forall>v. sc_dumped_by s = Some v \<longrightarrow> v \<in> set SUPPORTED_MAJORS"
    using f(1) by (auto simp: scanner_inv_def)
  then show ?thesis using run z f(2) unfolding scan_run_def by (metis not_Some_eq)
qed

lemma sample_dump_scan:
  "\<exists>s. feed_all [sample_dump] (set_excluded_schemas [] new_scanner) =
     Inr (s, [DumpVersion 16 None, CopyStart sample_name [''a''], CopyRows (''x'' @ [NL]), CopyEnd sample_name])
     \<and> scan_finish s = Inr ()"
proof -
  have "map_sum id (\<lambda>(s, evs). (evs, scan_finish s)) (feed_all [sample_dump] (set_excluded_schemas [] new_scanner))
      = Inr ([DumpVersion 16 None, CopyStart sample_name [''a''], CopyRows (''x'' @ [NL]), CopyEnd sample_name], Inr ())"
    by code_simp
  then show ?thesis by (cases "feed_all [sample_dump] (set_excluded_schemas [] new_scanner)") auto
qed

theorem finished_scan_is_complete_witness:
  "protocol [DumpVersion 16 None, CopyStart sample_name [''a''], CopyRows (''x'' @ [NL]), CopyEnd sample_name] None
     = Some None"
  using sample_dump_scan finished_scan_is_complete by blast

text \<open>
  A table of an excluded schema cannot fail a load: its whole \<open>CREATE TABLE\<close> statement, whatever
  its column list holds, leaves the scanner as it was and announces nothing.
\<close>

theorem excluded_statement_skipped:
  assumes "sc_state s = InSql" "\<not> sc_in_create s" "\<not> sc_skipping_create s"
    and "strip_create_table (strip_cr l) = Some kw" "schema_is_excluded s kw" "\<not> ends_statement (strip_cr l)"
    and "list_all (\<lambda>l. \<not> ends_statement (strip_cr l)) ls" "ends_statement (strip_cr t)"
  shows "scan_lines (l # ls @ [t]) s = Inr (s, [])"
  by (rule excluded_statement[OF assms])

theorem excluded_statement_skipped_witness:
  "scan_lines [''CREATE TABLE priv.t ('', ''  a weird((('', '');''] (set_excluded_schemas [''priv''] new_scanner)
     = Inr (set_excluded_schemas [''priv''] new_scanner, [])"
proof -
  let ?s = "set_excluded_schemas [''priv''] new_scanner"
  have 1: "sc_state ?s = InSql" "\<not> sc_in_create ?s" "\<not> sc_skipping_create ?s"
    by (simp_all add: set_excluded_schemas_def new_scanner_def)
  have 2: "strip_create_table (strip_cr ''CREATE TABLE priv.t ('') = Some ''priv.t (''" by code_simp
  have 3: "schema_is_excluded ?s ''priv.t (''" by code_simp
  have 4: "\<not> ends_statement (strip_cr ''CREATE TABLE priv.t ('')" by code_simp
  have 5: "list_all (\<lambda>l. \<not> ends_statement (strip_cr l)) [''  a weird(((''] " by code_simp
  have 6: "ends_statement (strip_cr '');'')" by code_simp
  show ?thesis using excluded_statement_skipped[OF 1 2 3 4 5 6] by simp
qed

text \<open>
  C14. The header of a \<open>COPY\<close> block is read back: for every schema, table and column name that is valid
  UTF-8, quoted or bare as PostgreSQL writes it, with dots, quotes, commas or parentheses in it, the
  parser returns exactly these names, the schema apart from the table, and no column list means no
  columns. (A name that is not valid UTF-8 is read with its invalid bytes replaced.)
\<close>

theorem copy_header_round_trip:
  assumes "name_form n tf" "list_all2 ident_form cols fs"
  shows "parse_copy_header (copy_header tf fs) = Inr (n, cols)"
  by (rule parse_copy_header_form[OF assms])

theorem copy_header_round_trip_witness:
  "parse_copy_header (copy_header (''public.'' @ quote_ident ''a.b'') [''id'', quote_ident [CHR ''x'', DQ]])
     = Inr (\<lparr>tn_schema = Some ''public'', tn_table = ''a.b''\<rparr>, [''id'', [CHR ''x'', DQ]])"
proof (rule copy_header_round_trip)
  have "ident_form ''public'' ''public''" "ident_form ''a.b'' (quote_ident ''a.b'')" by code_simp+
  then show "name_form \<lparr>tn_schema = Some ''public'', tn_table = ''a.b''\<rparr> (''public.'' @ quote_ident ''a.b'')"
    unfolding name_form.simps table_name.select_convs option.case
    by (intro exI[of _ "''public''"] exI[of _ "quote_ident ''a.b''"] conjI) simp_all
  show "list_all2 ident_form [''id'', [CHR ''x'', DQ]] [''id'', quote_ident [CHR ''x'', DQ]]" by code_simp
qed


definition sample_items :: "item_text list" where
  "sample_items =
     [ColumnText \<lparr>ct_name = ''id'', ct_form = ''id'', ct_words = [''numeric(10,2)''],
        ct_tail = '' DEFAULT nextval('' @ [CHR 0x27] @ quote_ident ''My,Seq'' @ [CHR 0x27] @ ''::regclass) NOT NULL''\<rparr>,
      ColumnText \<lparr>ct_name = ''Like'', ct_form = quote_ident ''Like'', ct_words = [''double'', ''precision''], ct_tail = []\<rparr>,
      ConstraintText (''CONSTRAINT '' @ quote_ident ''c)'' @ '' CHECK ((id > (0)::numeric))'')]"


subsection \<open>Divergences\<close>

text \<open>
  \<open>feed\<close> documents that the alignment of chunks matters to efficiency only. It matters to a line that
  ends with two carriage returns: completed across a chunk boundary, it loses both.
\<close>

lemma straddling_row_loses_a_cr:
  "let copy = new_scanner\<lparr>sc_state := InCopy, sc_open_table := Some sample_name\<rparr>;
       rows_of = \<lambda>chunks. map_sum id (\<lambda>(s, evs). views evs) (feed_all chunks copy)
   in rows_of [[CHR ''a'', CR, CR, NL]] = Inr [CopyRows [CHR ''a'', CR]]
    \<and> rows_of [[CHR ''a''], [CR, CR, NL]] = Inr [CopyRows [CHR ''a'']]"
  by code_simp

text \<open>
  A column named by a word that starts a table constraint is dropped when it is written bare, as
  PostgreSQL writes the unreserved word \<open>exclude\<close>.
\<close>

lemma column_named_exclude_is_dropped:
  "map_sum id (\<lambda>d. map cd_name (td_columns d)) (parse_create_table ''CREATE TABLE t (id integer, exclude text);'')
     = Inr [''id'']"
  by code_simp

text \<open>
  String literals in a default are not recognised: a comma in one starts a column that does not exist,
  and an unbalanced parenthesis fails the statement.
\<close>

lemma default_literal_misread:
  "map_sum id (\<lambda>d. map cd_name (td_columns d))
     (parse_create_table ''CREATE TABLE t (a text DEFAULT 'x, y z'::text, b integer);'') = Inr [''a'', ''y'', ''b'']"
  "parse_create_table ''CREATE TABLE t (a text DEFAULT '('::text);'' = Inl (MalformedCreateTable ''t'')"
  by code_simp+

end
