(* ===== verification/Dump_Reader.thy ===== *)
theory Dump_Reader
  imports Errors
begin

section \<open>Opening a dump and cutting it into chunks\<close>

text \<open>
  \<open>src/dump.rs\<close>: detection of the compression, the reader that pushes the sniffed bytes back, and
  \<open>ChunkReader\<close> with its fill loop and its growth loop. A type that implements \<open>std::io::Read\<close> is a
  state with a function \<open>rd s n\<close> that is offered \<open>n\<close> bytes of space; the locale \<open>byte_source\<close> states the
  contract of that trait, every lemma on the reader is proved in it, and it is interpreted on the
  readers of the program. gzip decoding is the crate \<open>flate2\<close>, so it is a parameter.
\<close>

subsection \<open>The contract of a reader\<close>

type_synonym 's reader = "'s \<Rightarrow> nat \<Rightarrow> bytes io_res \<times> 's"

text \<open>
  \<open>rest s\<close> is the stream still to come: a successful read delivers a prefix of it that fits the space
  offered, and delivers nothing only at its end (or when no space was offered).
\<close>

locale byte_source =
  fixes rd :: "'s reader" and rest :: "'s \<Rightarrow> bytes" and ok :: "'s \<Rightarrow> bool"
  assumes read_ok: "ok s \<Longrightarrow> rd s n = (Inr bs, s') \<Longrightarrow> ok s'"
    and read_rest: "ok s \<Longrightarrow> rd s n = (Inr bs, s') \<Longrightarrow> rest s = bs @ rest s'"
    and read_le: "ok s \<Longrightarrow> rd s n = (Inr bs, s') \<Longrightarrow> length bs \<le> n"
    and read_eof: "ok s \<Longrightarrow> rd s n = (Inr [], s') \<Longrightarrow> 0 < n \<Longrightarrow> rest s = []"

subsection \<open>Detection\<close>

datatype compression = CompNone | Gzip | Zstd

fun compression_name :: "compression \<Rightarrow> bytes" where
  "compression_name CompNone = ''none''"
| "compression_name Gzip = ''gzip''"
| "compression_name Zstd = ''zstd''"

definition detect :: "bytes \<Rightarrow> compression" where
  "detect head =
     (if starts_with head [CHR 0x1F, CHR 0x8B] then Gzip
      else if starts_with head [CHR 0x28, CHR 0xB5, CHR 0x2F, CHR 0xFD] then Zstd
      else CompNone)"

text \<open>\<open>read_head rd cap acc s\<close>: the loop, with the bytes read so far in \<open>acc\<close>.\<close>

function read_head :: "'s reader \<Rightarrow> nat \<Rightarrow> bytes \<Rightarrow> 's \<Rightarrow> bytes res \<times> 's" where
  "read_head rd cap acc s =
     (if length acc < cap then
        (case rd s (cap - length acc) of
           (Inl m, s') \<Rightarrow> (Inl (from_io m), s')
         | (Inr got, s') \<Rightarrow> if got = [] then (Inr acc, s') else read_head rd cap (acc @ got) s')
      else (Inr acc, s))"
  by pat_completeness auto
termination
  by (relation "measure (\<lambda>(rd, cap, acc, s). cap - length acc)") (auto intro!: diff_less_mono2)

declare read_head.simps [simp del]

text \<open>
  \<open>Cursor::new(head).chain(inner)\<close> of the standard library: read the pushed-back bytes first, and
  the inner reader once they are used up.
\<close>

record 's chain =
  ch_first :: bytes
  ch_done :: bool
  ch_second :: 's

definition chain_read :: "'s reader \<Rightarrow> 's chain reader" where
  "chain_read rd c n =
     (if \<not> ch_done c \<and> (ch_first c \<noteq> [] \<or> n = 0) then
        (Inr (take n (ch_first c)), c\<lparr>ch_first := drop n (ch_first c)\<rparr>)
      else (case rd (ch_second c) n of (r, s') \<Rightarrow> (r, c\<lparr>ch_done := True, ch_second := s'\<rparr>)))"

text \<open>
  The boxed reader \<open>decompressed\<close> returns is the chain itself or the gzip decoder over it, which
  \<open>gz_new\<close> creates.
\<close>

datatype ('s, 'g) opened = OpenPlain "'s chain" | OpenGzip 'g

definition decompressed ::
  "'s reader \<Rightarrow> ('s chain \<Rightarrow> 'g) \<Rightarrow> 's \<Rightarrow> (compression \<times> ('s, 'g) opened) res" where
  "decompressed rd gz_new inner =
     (case read_head rd 4 [] inner of
        (Inl e, _) \<Rightarrow> Inl e
      | (Inr magic, inner') \<Rightarrow>
          (let compression = detect magic;
               stream = \<lparr>ch_first = magic, ch_done = False, ch_second = inner'\<rparr>
           in case compression of
                CompNone \<Rightarrow> Inr (compression, OpenPlain stream)
              | Gzip \<Rightarrow> Inr (compression, OpenGzip (gz_new stream))
              | Zstd \<Rightarrow> Inl (UnsupportedCompression (compression_name compression))))"

fun opened_read :: "'s reader \<Rightarrow> 'g reader \<Rightarrow> ('s, 'g) opened reader" where
  "opened_read rd gz_rd (OpenPlain c) n = (case chain_read rd c n of (r, c') \<Rightarrow> (r, OpenPlain c'))"
| "opened_read rd gz_rd (OpenGzip g) n = (case gz_rd g n of (r, g') \<Rightarrow> (r, OpenGzip g'))"

subsection \<open>The chunk reader\<close>

definition DEFAULT_CHUNK_BYTES :: nat where "DEFAULT_CHUNK_BYTES = 16 * 2 ^ 20"

definition DEFAULT_MAX_CHUNK_BYTES :: nat where "DEFAULT_MAX_CHUNK_BYTES = 256 * 2 ^ 20"

record 's chunk_reader =
  cr_inner :: 's
  cr_buf :: bytes
  cr_filled :: nat
  cr_consumed :: nat
  cr_target :: nat
  cr_max_chunk :: nat
  cr_eof :: bool

definition with_limits :: "'s \<Rightarrow> nat \<Rightarrow> nat \<Rightarrow> 's chunk_reader" where
  "with_limits inner target max_chunk =
     \<lparr>cr_inner = inner, cr_buf = [], cr_filled = 0, cr_consumed = 0, cr_target = max target 1,
      cr_max_chunk = max max_chunk (max target 1), cr_eof = False\<rparr>"

definition new_reader :: "'s \<Rightarrow> 's chunk_reader" where
  "new_reader inner = with_limits inner DEFAULT_CHUNK_BYTES DEFAULT_MAX_CHUNK_BYTES"

text \<open>Move what the previous call did not return to the front of the buffer (\<open>copy_within\<close>).\<close>

definition carry_forward :: "'s chunk_reader \<Rightarrow> 's chunk_reader" where
  "carry_forward cr =
     (if 0 < cr_consumed cr then
        cr\<lparr>cr_buf := drop (cr_consumed cr) (take (cr_filled cr) (cr_buf cr))
                     @ drop (cr_filled cr - cr_consumed cr) (cr_buf cr),
           cr_filled := cr_filled cr - cr_consumed cr, cr_consumed := 0\<rparr>
      else cr)"

text \<open>The inner \<open>while\<close> loop: fill the buffer up to the target, or to the end of the stream.\<close>

function fill_loop :: "'s reader \<Rightarrow> 's chunk_reader \<Rightarrow> unit res \<times> 's chunk_reader" where
  "fill_loop rd cr =
     (if cr_filled cr < cr_target cr \<and> \<not> cr_eof cr then
        (let b = (if length (cr_buf cr) < cr_target cr
                  then cr_buf cr @ replicate (cr_target cr - length (cr_buf cr)) (CHR 0x00)
                  else cr_buf cr)
         in case rd (cr_inner cr) (cr_target cr - cr_filled cr) of
              (Inl m, s') \<Rightarrow> (Inl (from_io m), cr\<lparr>cr_buf := b, cr_inner := s'\<rparr>)
            | (Inr got, s') \<Rightarrow>
                if got = [] then fill_loop rd (cr\<lparr>cr_buf := b, cr_inner := s', cr_eof := True\<rparr>)
                else fill_loop rd (cr\<lparr>cr_buf := take (cr_filled cr) b @ got @ drop (cr_filled cr + length got) b,
                                     cr_inner := s', cr_filled := cr_filled cr + length got\<rparr>))
      else (Inr (), cr))"
  by pat_completeness auto
termination
  by (relation "measure (\<lambda>(rd, cr). if cr_eof cr then 0 else Suc (cr_target cr - cr_filled cr))")
     (auto intro!: diff_less_mono2)

declare fill_loop.simps [simp del]

text \<open>
  The outer loop grows the target while a buffer holds no newline. It is a partial function, so that
  returning is something to prove: with a target of 0 it would not.
\<close>

partial_function (option) chunk_loop ::
  "'s reader \<Rightarrow> 's chunk_reader \<Rightarrow> (bytes option res \<times> 's chunk_reader) option" where
  "chunk_loop rd cr =
     (case fill_loop rd cr of
        (Inl e, cr') \<Rightarrow> Some (Inl e, cr')
      | (Inr _, cr') \<Rightarrow>
          if cr_filled cr' = 0 then Some (Inr None, cr')
          else (case rfind_byte NL (take (cr_filled cr') (cr_buf cr')) of
              Some nl \<Rightarrow> Some (Inr (Some (take (nl + 1) (cr_buf cr'))), cr'\<lparr>cr_consumed := nl + 1\<rparr>)
            | None \<Rightarrow>
                if cr_eof cr' then
                  Some (Inr (Some (take (cr_filled cr') (cr_buf cr'))), cr'\<lparr>cr_consumed := cr_filled cr'\<rparr>)
                else if cr_max_chunk cr' \<le> cr_target cr' then
                  Some (Inl (RowTooLarge (cr_filled cr') (cr_max_chunk cr')), cr')
                else chunk_loop rd (cr'\<lparr>cr_target := min (cr_target cr' * 2) (cr_max_chunk cr')\<rparr>)))"

definition next_chunk ::
  "'s reader \<Rightarrow> 's chunk_reader \<Rightarrow> (bytes option res \<times> 's chunk_reader) option" where
  "next_chunk rd cr = chunk_loop rd (carry_forward cr)"

text \<open>A caller that asks for chunks until there are no more, as the reader thread does.\<close>

partial_function (option) all_chunks :: "'s reader \<Rightarrow> 's chunk_reader \<Rightarrow> (bytes list res) option" where
  "all_chunks rd cr =
     Option.bind (next_chunk rd cr) (\<lambda>(r, cr').
       (case r of
          Inl e \<Rightarrow> Some (Inl e)
        | Inr None \<Rightarrow> Some (Inr [])
        | Inr (Some c) \<Rightarrow>
            Option.bind (all_chunks rd cr') (\<lambda>cs. Some (and_then cs (\<lambda>cs. Inr (c # cs))))))"


subsection \<open>Invariant and stream of a chunk reader\<close>

text \<open>
  The ghost view: \<open>pending\<close> is what the reader has still to deliver, the undelivered bytes of its buffer
  followed by the stream of its source. \<open>cr_inv\<close> is the invariant every operation keeps.
\<close>

definition pending :: "('s \<Rightarrow> bytes) \<Rightarrow> 's chunk_reader \<Rightarrow> bytes" where
  "pending rest cr = drop (cr_consumed cr) (take (cr_filled cr) (cr_buf cr)) @ rest (cr_inner cr)"

definition cr_inv :: "('s \<Rightarrow> bytes) \<Rightarrow> ('s \<Rightarrow> bool) \<Rightarrow> 's chunk_reader \<Rightarrow> bool" where
  "cr_inv rest ok cr \<longleftrightarrow> ok (cr_inner cr) \<and> cr_consumed cr \<le> cr_filled cr
     \<and> cr_filled cr \<le> cr_target cr \<and> cr_filled cr \<le> length (cr_buf cr)
     \<and> 1 \<le> cr_target cr \<and> cr_target cr \<le> cr_max_chunk cr \<and> (cr_eof cr \<longrightarrow> rest (cr_inner cr) = [])"

text \<open>What a call of \<open>next_chunk\<close> may return, in terms of the stream.\<close>

definition chunk_post ::
  "('s \<Rightarrow> bytes) \<Rightarrow> ('s \<Rightarrow> bool) \<Rightarrow> 's chunk_reader \<Rightarrow> bytes option res \<Rightarrow> 's chunk_reader \<Rightarrow> bool" where
  "chunk_post rest ok cr r cr' =
     (let M = cr_max_chunk cr; p = pending rest cr
      in case r of
           Inl e \<Rightarrow> (\<exists>m. e = IoError m)
             \<or> (e = RowTooLarge M M \<and> M \<le> length p \<and> NL \<notin> set (take M p))
         | Inr None \<Rightarrow> p = []
         | Inr (Some c) \<Rightarrow> c \<noteq> [] \<and> length c \<le> M \<and> p = c @ pending rest cr'
             \<and> cr_inv rest ok cr' \<and> cr_max_chunk cr' = M
             \<and> (last c = NL \<or> (NL \<notin> set c \<and> pending rest cr' = [])))"

text \<open>What a caller that reads to the end gets: the chunks are the stream, cut after newlines, unless the
  stream holds \<open>M\<close> bytes in a row without one.\<close>

definition chunks_of :: "nat \<Rightarrow> bytes \<Rightarrow> bytes list \<Rightarrow> bool" where
  "chunks_of M p cs \<longleftrightarrow> concat cs = p \<and> (\<forall>c \<in> set cs. c \<noteq> [] \<and> length c \<le> M)
     \<and> (\<forall>c \<in> set (butlast cs). last c = NL) \<and> (cs \<noteq> [] \<longrightarrow> last (last cs) = NL \<or> NL \<notin> set (last cs))"

definition unsplittable :: "nat \<Rightarrow> bytes \<Rightarrow> bool" where
  "unsplittable M p \<longleftrightarrow> (\<exists>pre l post. p = pre @ l @ post \<and> length l = M \<and> NL \<notin> set l)"

lemma unsplittable_append: "unsplittable M p \<Longrightarrow> unsplittable M (c @ p)"
  unfolding unsplittable_def by (metis append.assoc)

lemma unsplittable_here: "M \<le> length p \<Longrightarrow> NL \<notin> set (take M p) \<Longrightarrow> unsplittable M p"
  unfolding unsplittable_def
  by (intro exI[of _ "[]"] exI[of _ "take M p"] exI[of _ "drop M p"]) simp

lemma carry_forward_inv:
  "cr_inv rest ok cr \<Longrightarrow> cr_inv rest ok (carry_forward cr) \<and> cr_consumed (carry_forward cr) = 0
    \<and> pending rest (carry_forward cr) = pending rest cr
    \<and> cr_max_chunk (carry_forward cr) = cr_max_chunk cr"
  by (auto simp: carry_forward_def cr_inv_def pending_def)

lemma chunk_post_cong:
  "cr_max_chunk cr = cr_max_chunk cr2 \<Longrightarrow> pending rest cr = pending rest cr2 \<Longrightarrow>
     chunk_post rest ok cr r cr' = chunk_post rest ok cr2 r cr'"
  by (simp add: chunk_post_def)

context byte_source
begin

lemma fill_loop_inv:
  assumes "fill_loop rd cr = (r, cr')" "cr_inv rest ok cr" "cr_consumed cr = 0"
  shows "case r of
      Inl e \<Rightarrow> \<exists>m. e = IoError m
    | Inr _ \<Rightarrow> cr_inv rest ok cr' \<and> cr_consumed cr' = 0 \<and> pending rest cr' = pending rest cr
        \<and> cr_max_chunk cr' = cr_max_chunk cr \<and> cr_target cr' = cr_target cr
        \<and> (cr_filled cr' = cr_target cr' \<or> cr_eof cr')"
  using assms
proof (induction cr rule: measure_induct_rule[of "\<lambda>cr. if cr_eof cr then 0 else Suc (cr_target cr - cr_filled cr)"])
  case (less cr)
  show ?case
  proof (cases "cr_filled cr < cr_target cr \<and> \<not> cr_eof cr")
    case False
    then show ?thesis using less.prems by (auto simp: fill_loop.simps[of rd cr] cr_inv_def)
  next
    case True
    define b where "b = (if length (cr_buf cr) < cr_target cr
      then cr_buf cr @ replicate (cr_target cr - length (cr_buf cr)) (CHR 0x00) else cr_buf cr)"
    have b: "cr_target cr \<le> length b" "take (cr_filled cr) b = take (cr_filled cr) (cr_buf cr)"
      using less.prems(2) by (auto simp: b_def cr_inv_def)
    obtain x s' where x: "rd (cr_inner cr) (cr_target cr - cr_filled cr) = (x, s')" by fastforce
    note step = fill_loop.simps[of rd cr, folded b_def]
    show ?thesis
    proof (cases x)
      case (Inl m)
      then show ?thesis using less.prems(1) True x step by (auto simp: from_io_def)
    next
      case (Inr got)
      note rd = x[unfolded Inr]
      have ok: "ok (cr_inner cr)" using less.prems(2) by (simp add: cr_inv_def)
      note read = read_ok[OF ok rd] read_rest[OF ok rd] read_le[OF ok rd]
      show ?thesis
      proof (cases "got = []")
        case True': True
        let ?c = "cr\<lparr>cr_buf := b, cr_inner := s', cr_eof := True\<rparr>"
        have e: "rest (cr_inner cr) = []" using read_eof[OF ok, of _ s'] rd True' True by simp
        have "cr_inv rest ok ?c" "pending rest ?c = pending rest cr" "cr_consumed ?c = 0"
          using less.prems(2,3) read b True' e by (auto simp: cr_inv_def pending_def)
        moreover have "fill_loop rd ?c = (r, cr')" using less.prems(1) step True rd True' by simp
        ultimately show ?thesis using less.IH[of ?c] True by (cases r) auto
      next
        case False
        let ?n = "cr_filled cr"
        let ?c = "cr\<lparr>cr_buf := take ?n b @ got @ drop (?n + length got) b, cr_inner := s',
          cr_filled := ?n + length got\<rparr>"
        have "cr_inv rest ok ?c" "pending rest ?c = pending rest cr" "cr_consumed ?c = 0"
          using less.prems(2,3) read b True by (auto simp: cr_inv_def pending_def)
        moreover have "fill_loop rd ?c = (r, cr')" using less.prems(1) step True rd False by simp
        moreover have "cr_target cr - (?n + length got) < cr_target cr - ?n"
          using True False by (intro diff_less_mono2) auto
        ultimately show ?thesis using less.IH[of ?c] True by (cases r) auto
      qed
    qed
  qed
qed

lemma chunk_loop_post:
  assumes "cr_inv rest ok cr" "cr_consumed cr = 0"
  shows "\<exists>r cr'. chunk_loop rd cr = Some (r, cr') \<and> chunk_post rest ok cr r cr'"
  using assms
proof (induction cr rule: measure_induct_rule[of "\<lambda>cr. cr_max_chunk cr - cr_target cr"])
  case (less cr)
  obtain x c where x: "fill_loop rd cr = (x, c)" by fastforce
  note fill = fill_loop_inv[OF x less.prems]
  note step = chunk_loop.simps[of rd cr]
  show ?case
  proof (cases x)
    case (Inl e)
    then show ?thesis using x fill step by (auto simp: chunk_post_def)
  next
    case (Inr u)
    note f = fill[unfolded Inr, simplified]
    let ?t = "take (cr_filled c) (cr_buf c)"
    have p: "pending rest cr = ?t @ rest (cr_inner c)" using f by (auto simp: pending_def)
    show ?thesis
    proof (cases "rfind_byte NL ?t")
      case (Some nl)
      then obtain us vs where t: "?t = us @ NL # vs" "length us = nl" by (rule rfind_byte_SomeE)
      have len: "nl + 1 \<le> cr_filled c" "cr_filled c \<noteq> 0" using arg_cong[OF t(1), of length] t(2) by auto
      have ch: "take (nl + 1) (cr_buf c) = us @ [NL]"
      proof -
        have "take (nl + 1) (cr_buf c) = take (nl + 1) ?t" using len by simp
        also have "\<dots> = us @ [NL]" using t by simp
        finally show ?thesis .
      qed
      let ?c = "c\<lparr>cr_consumed := nl + 1\<rparr>"
      have "pending rest cr = (us @ [NL]) @ pending rest ?c"
        using p t by (simp add: pending_def)
      moreover have "cr_inv rest ok ?c" using f len by (auto simp: cr_inv_def)
      moreover have "length (us @ [NL]) \<le> cr_max_chunk cr" using f len t(2) by (auto simp: cr_inv_def)
      ultimately have "chunk_post rest ok cr (Inr (Some (us @ [NL]))) ?c"
        using f by (simp add: chunk_post_def)
      then show ?thesis using step x Inr Some len(2) ch by simp
    next
      case None
      then have n: "NL \<notin> set ?t" by simp
      consider "cr_filled c = 0" | "cr_filled c \<noteq> 0" "cr_eof c"
        | "cr_filled c \<noteq> 0" "\<not> cr_eof c" "cr_max_chunk c \<le> cr_target c"
        | "cr_filled c \<noteq> 0" "\<not> cr_eof c" "cr_target c < cr_max_chunk c"
        by linarith
      then show ?thesis
      proof cases
        case 1
        then have "cr_eof c" using f by (auto simp: cr_inv_def)
        then have "pending rest cr = []" using 1 f p by (auto simp: cr_inv_def)
        then show ?thesis using step x Inr 1 by (simp add: chunk_post_def)
      next
        case 2
        let ?c = "c\<lparr>cr_consumed := cr_filled c\<rparr>"
        have "rest (cr_inner c) = []" "cr_filled c \<le> length (cr_buf c)" "cr_filled c \<le> cr_max_chunk cr"
          using f 2 by (auto simp: cr_inv_def)
        then have "chunk_post rest ok cr (Inr (Some ?t)) ?c"
          using f 2 p n by (auto simp: chunk_post_def Let_def pending_def cr_inv_def)
        then show ?thesis using step x Inr None 2 by simp
      next
        case 3
        have "cr_filled c = cr_max_chunk cr" "cr_filled c \<le> length (cr_buf c)"
          using f 3 by (auto simp: cr_inv_def)
        then have "chunk_post rest ok cr (Inl (RowTooLarge (cr_filled c) (cr_max_chunk c))) c"
          using f p n by (simp add: chunk_post_def)
        then show ?thesis using step x Inr None 3 by simp
      next
        case 4
        let ?c = "c\<lparr>cr_target := min (cr_target c * 2) (cr_max_chunk c)\<rparr>"
        have inv: "cr_inv rest ok ?c" "cr_consumed ?c = 0" "pending rest ?c = pending rest cr"
            "cr_max_chunk ?c = cr_max_chunk cr"
          using f 4 by (auto simp: cr_inv_def pending_def)
        have "cr_max_chunk ?c - cr_target ?c < cr_max_chunk cr - cr_target cr"
          using f 4 by (auto simp: cr_inv_def)
        from less.IH[OF this inv(1,2)] obtain r c' where
          "chunk_loop rd ?c = Some (r, c')" "chunk_post rest ok ?c r c'" by blast
        then show ?thesis using step x Inr None 4 chunk_post_cong[OF inv(4,3)] by auto
      qed
    qed
  qed
qed

lemma next_chunk_post:
  assumes "cr_inv rest ok cr"
  obtains r cr' where "next_chunk rd cr = Some (r, cr')" "chunk_post rest ok cr r cr'"
proof -
  note c = carry_forward_inv[OF assms]
  obtain r cr' where r: "chunk_loop rd (carry_forward cr) = Some (r, cr')"
      "chunk_post rest ok (carry_forward cr) r cr'"
    using chunk_loop_post c by blast
  have "chunk_post rest ok cr r cr'"
    using r(2) chunk_post_cong[of "carry_forward cr" cr rest ok r cr'] c by simp
  with r(1) show thesis by (intro that) (simp_all add: next_chunk_def)
qed

lemma all_chunks_post:
  assumes "cr_inv rest ok cr"
  shows "\<exists>r. all_chunks rd cr = Some r \<and>
    (case r of Inl e \<Rightarrow> (\<exists>m. e = IoError m)
                 \<or> (e = RowTooLarge (cr_max_chunk cr) (cr_max_chunk cr) \<and> unsplittable (cr_max_chunk cr) (pending rest cr))
             | Inr cs \<Rightarrow> chunks_of (cr_max_chunk cr) (pending rest cr) cs)"
  using assms
proof (induction cr rule: measure_induct_rule[of "\<lambda>cr. length (pending rest cr)"])
  case (less cr)
  obtain x cr' where x: "next_chunk rd cr = Some (x, cr')" and post: "chunk_post rest ok cr x cr'"
    by (rule next_chunk_post[OF less.prems])
  note step = all_chunks.simps[of rd cr]
  show ?case
  proof (cases x)
    case (Inl e)
    then show ?thesis using step x post by (auto simp: chunk_post_def Let_def unsplittable_here)
  next
    case (Inr oc)
    show ?thesis
    proof (cases oc)
      case None
      then show ?thesis using step x post Inr by (simp add: chunk_post_def chunks_of_def)
    next
      case (Some c)
      have c: "c \<noteq> []" "length c \<le> cr_max_chunk cr" "pending rest cr = c @ pending rest cr'"
          "cr_inv rest ok cr'" "cr_max_chunk cr' = cr_max_chunk cr"
          "last c = NL \<or> (NL \<notin> set c \<and> pending rest cr' = [])"
        using post Inr Some by (auto simp: chunk_post_def Let_def)
      then have "length (pending rest cr') < length (pending rest cr)" by simp
      from less.IH[OF this c(4)] obtain r where r: "all_chunks rd cr' = Some r"
        "case r of Inl e \<Rightarrow> (\<exists>m. e = IoError m)
              \<or> (e = RowTooLarge (cr_max_chunk cr') (cr_max_chunk cr') \<and> unsplittable (cr_max_chunk cr') (pending rest cr'))
          | Inr cs \<Rightarrow> chunks_of (cr_max_chunk cr') (pending rest cr') cs" by blast
      have a: "all_chunks rd cr = Some (and_then r (\<lambda>cs. Inr (c # cs)))" using step x Inr Some r(1) by simp
      show ?thesis
      proof (cases r)
        case (Inl e)
        have "unsplittable M (pending rest cr') \<Longrightarrow> unsplittable M (pending rest cr)" for M
          using c(3) unsplittable_append by metis
        then show ?thesis using a Inl r(2) c(5) by auto
      next
        case (Inr cs)
        then have "chunks_of (cr_max_chunk cr) (pending rest cr') cs" using r(2) c(5) by simp
        then have "chunks_of (cr_max_chunk cr) (pending rest cr) (c # cs)"
          using c by (cases cs) (auto simp: chunks_of_def)
        then show ?thesis using a Inr by simp
      qed
    qed
  qed
qed

text \<open>Sniffing the head and pushing it back.\<close>

lemma read_head_post:
  assumes "read_head rd cap acc s = (r, s')" "ok s" "length acc \<le> cap" "stream = acc @ rest s"
  shows "case r of Inl e \<Rightarrow> \<exists>m. e = IoError m
    | Inr magic \<Rightarrow> ok s' \<and> stream = magic @ rest s' \<and> magic = take cap stream"
  using assms
proof (induction acc arbitrary: s rule: measure_induct_rule[of "\<lambda>acc. cap - length acc"])
  case (less acc)
  note step = read_head.simps[of rd cap acc s]
  show ?case
  proof (cases "length acc < cap")
    case True
    obtain x t where x: "rd s (cap - length acc) = (x, t)" by fastforce
    show ?thesis
    proof (cases x)
      case (Inl m)
      then show ?thesis using less.prems(1) step x True by (auto simp: from_io_def)
    next
      case (Inr got)
      note read = read_ok[OF less.prems(2) x[unfolded Inr]] read_rest[OF less.prems(2) x[unfolded Inr]]
        read_le[OF less.prems(2) x[unfolded Inr]]
      show ?thesis
      proof (cases "got = []")
        case True': True
        have "rest s = []" using read_eof[OF less.prems(2)] x Inr True' True by simp
        then show ?thesis using less.prems step x Inr True True' read by auto
      next
        case False
        have "read_head rd cap (acc @ got) t = (r, s')" using less.prems(1) step x Inr True False by simp
        moreover have "cap - length (acc @ got) < cap - length acc"
          using True False by (intro diff_less_mono2) auto
        ultimately show ?thesis
          using less.IH[of "acc @ got" t] read less.prems(3,4) True by simp
      qed
    qed
  qed (use less.prems step in auto)
qed

lemma chain_byte_source:
  "byte_source (chain_read rd) (\<lambda>c. (if ch_done c then [] else ch_first c) @ rest (ch_second c))
     (\<lambda>c. ok (ch_second c))"
proof (unfold_locales, goal_cases)
  case (1 c n bs c')
  then show ?case by (auto simp: chain_read_def split: if_splits prod.splits dest: read_ok)
next
  case (2 c n bs c')
  then show ?case by (auto simp: chain_read_def split: if_splits prod.splits dest: read_rest)
next
  case (3 c n bs c')
  then show ?case by (auto simp: chain_read_def split: if_splits prod.splits dest: read_le)
next
  case (4 c n c')
  then show ?case by (auto simp: chain_read_def split: if_splits prod.splits dest: read_eof)
qed

end

lemma with_limits_inv: "ok s \<Longrightarrow> cr_inv rest ok (with_limits s t m)"
  by (simp add: cr_inv_def with_limits_def)

lemma with_limits_pending [simp]: "pending rest (with_limits s t m) = rest s"
  by (simp add: pending_def with_limits_def)

lemma with_limits_max [simp]: "cr_max_chunk (with_limits s t m) = max m (max t 1)"
  by (simp add: with_limits_def)

subsection \<open>Readers of the program\<close>

text \<open>
  A cursor over bytes held in memory, and the reader \<open>decompressed\<close> builds over it for a plain dump.
\<close>

definition cursor_read :: "bytes reader" where
  "cursor_read s n = (Inr (take n s), drop n s)"

interpretation cursor: byte_source cursor_read "\<lambda>s. s" "\<lambda>_. True"
  by unfold_locales (auto simp: cursor_read_def)

interpretation pushed_back: byte_source "chain_read cursor_read"
    "\<lambda>c. (if ch_done c then [] else ch_first c) @ ch_second c" "\<lambda>_. True"
  by (rule cursor.chain_byte_source)


subsection \<open>Properties\<close>

text \<open>
  C12. Reading a dump to its end always returns, whatever the source does and whatever sizes were
  asked for: the chunks it hands out are exactly the stream, none is empty or over the ceiling, and
  each but the last ends just after a newline. It fails only on a read error, or when the stream really
  holds a run of \<open>max_chunk\<close> bytes without a newline.
\<close>

theorem all_chunks_partition:
  assumes "byte_source rd rest ok" "ok s"
  shows "\<exists>r. all_chunks rd (with_limits s target limit) = Some r \<and>
    (case r of
       Inr cs \<Rightarrow> chunks_of (max limit (max target 1)) (rest s) cs
     | Inl e \<Rightarrow> (\<exists>m. e = IoError m)
         \<or> (e = RowTooLarge (max limit (max target 1)) (max limit (max target 1))
            \<and> unsplittable (max limit (max target 1)) (rest s)))"
  using byte_source.all_chunks_post[OF assms(1) with_limits_inv[of ok s rest target limit, OF assms(2)]]
  unfolding with_limits_pending with_limits_max .

theorem all_chunks_partition_witness:
  "\<exists>r. all_chunks cursor_read (with_limits [CHR ''a'', NL, CHR ''c''] 2 8) = Some r \<and>
    (case r of Inr cs \<Rightarrow> chunks_of 8 [CHR ''a'', NL, CHR ''c''] cs
     | Inl e \<Rightarrow> (\<exists>m. e = IoError m) \<or> (e = RowTooLarge 8 8 \<and> unsplittable 8 [CHR ''a'', NL, CHR ''c'']))"
  using all_chunks_partition[OF cursor.byte_source_axioms TrueI, of "[CHR ''a'', NL, CHR ''c'']" 2 8]
  by (simp add: max_def cong: sum.case_cong)

text \<open>
  C17. One call of \<open>next_chunk\<close> from any state the reader can be in returns, keeps the invariant, and
  delivers the next part of the stream: \<open>None\<close> only at its end, a chunk only up to a newline or, with no
  newline in it, at the end of the stream.
\<close>

theorem next_chunk_delivers:
  assumes "byte_source rd rest ok" "cr_inv rest ok cr"
  shows "\<exists>r cr'. next_chunk rd cr = Some (r, cr') \<and>
    (r = Inr None \<longrightarrow> pending rest cr = []) \<and>
    (\<forall>c. r = Inr (Some c) \<longrightarrow> c \<noteq> [] \<and> pending rest cr = c @ pending rest cr' \<and> cr_inv rest ok cr'
       \<and> length c \<le> cr_max_chunk cr \<and> (last c = NL \<or> NL \<notin> set c \<and> pending rest cr' = []))"
  by (rule byte_source.next_chunk_post[OF assms]) (auto simp: chunk_post_def Let_def)

theorem next_chunk_delivers_witness:
  "\<exists>r cr'. next_chunk cursor_read (with_limits (''ab'' @ [NL]) 2 8) = Some (r, cr') \<and>
    (r = Inr None \<longrightarrow> ''ab'' @ [NL] = [])"
  using next_chunk_delivers[OF cursor.byte_source_axioms with_limits_inv[where ok = "\<lambda>_. True" and s = "''ab'' @ [NL]" and t = 2 and m = 8, OF TrueI]]
  by auto

lemma decompressed_post:
  assumes src: "byte_source rd rest ok" "ok s" and d: "decompressed rd gz_new s = Inr (compression, r)"
  obtains c where "compression = detect (take 4 (rest s))" "compression \<noteq> Zstd"
    "(if ch_done c then [] else ch_first c) @ rest (ch_second c) = rest s" "ok (ch_second c)"
    "r = (if compression = Gzip then OpenGzip (gz_new c) else OpenPlain c)"
proof -
  obtain x s' where x: "read_head rd 4 [] s = (x, s')" by fastforce
  have h: "case x of Inl e \<Rightarrow> \<exists>m. e = IoError m
      | Inr magic \<Rightarrow> ok s' \<and> rest s = magic @ rest s' \<and> magic = take 4 (rest s)"
    by (rule byte_source.read_head_post[OF src(1) x src(2)]) simp_all
  obtain magic where magic: "x = Inr magic" using d x by (cases x) (auto simp: decompressed_def)
  have m: "ok s'" "rest s = magic @ rest s'" "magic = take 4 (rest s)" using h unfolding magic sum.case by blast+
  let ?c = "\<lparr>ch_first = magic, ch_done = False, ch_second = s'\<rparr>"
  have "(if ch_done ?c then [] else ch_first ?c) @ rest (ch_second ?c) = rest s" using m(2)[symmetric] by simp
  moreover have "compression = detect magic" "compression \<noteq> Zstd"
    "r = (if compression = Gzip then OpenGzip (gz_new ?c) else OpenPlain ?c)"
    using d x magic by (cases "detect magic"; simp add: decompressed_def; fail)+
  ultimately show ?thesis using that[of ?c] m(1,3) by simp
qed

text \<open>
  C18. \<open>decompressed\<close> names the format of the first four bytes of the stream and loses none of them: the
  reader of a plain dump, and the reader the gzip decoder is created over, deliver the whole stream
  from its first byte; zstd is refused by name, and any other error is a read error.
\<close>

theorem decompressed_whole_stream:
  assumes "byte_source rd rest ok" "ok s"
  shows "case decompressed rd gz_new s of
      Inl e \<Rightarrow> (\<exists>m. e = IoError m) \<or> (e = UnsupportedCompression ''zstd'' \<and> detect (take 4 (rest s)) = Zstd)
    | Inr (compression, r) \<Rightarrow> compression = detect (take 4 (rest s)) \<and> compression \<noteq> Zstd \<and>
        (\<exists>c. (if ch_done c then [] else ch_first c) @ rest (ch_second c) = rest s \<and> ok (ch_second c)
           \<and> r = (if compression = Gzip then OpenGzip (gz_new c) else OpenPlain c))"
proof (cases "decompressed rd gz_new s")
  case (Inl e)
  obtain x s' where x: "read_head rd 4 [] s = (x, s')" by fastforce
  have h: "case x of Inl e \<Rightarrow> \<exists>m. e = IoError m
      | Inr magic \<Rightarrow> ok s' \<and> rest s = magic @ rest s' \<and> magic = take 4 (rest s)"
    by (rule byte_source.read_head_post[OF assms(1) x assms(2)]) simp_all
  show ?thesis
  proof (cases x)
    case (Inl e)
    then show ?thesis using x h by (simp add: decompressed_def)
  next
    case magic: (Inr magic)
    have "magic = take 4 (rest s)" using h unfolding magic sum.case by blast
    then show ?thesis using Inl x magic by (cases "detect magic") (auto simp: decompressed_def)
  qed
next
  case (Inr p)
  obtain compression r where p: "p = (compression, r)" by fastforce
  obtain c where "compression = detect (take 4 (rest s))" "compression \<noteq> Zstd"
    "(if ch_done c then [] else ch_first c) @ rest (ch_second c) = rest s" "ok (ch_second c)"
    "r = (if compression = Gzip then OpenGzip (gz_new c) else OpenPlain c)"
    by (rule decompressed_post[OF assms Inr[unfolded p]])
  then show ?thesis unfolding Inr p sum.case prod.case by blast
qed

theorem decompressed_whole_stream_witness:
  "case decompressed cursor_read (\<lambda>c. ()) ''hello'' of
      Inl e \<Rightarrow> (\<exists>m. e = IoError m) \<or> (e = UnsupportedCompression ''zstd'' \<and> detect (take 4 ''hello'') = Zstd)
    | Inr (compression, r) \<Rightarrow> compression = detect (take 4 ''hello'') \<and> compression \<noteq> Zstd \<and>
        (\<exists>c. (if ch_done c then [] else ch_first c) @ ch_second c = ''hello'' \<and> True
           \<and> r = (if compression = Gzip then OpenGzip () else OpenPlain c))"
  by (rule decompressed_whole_stream[OF cursor.byte_source_axioms TrueI])

end
