(* ===== verification/Pg_Values.thy ===== *)
theory Pg_Values
  imports Errors Codecs "HOL-Library.Signed_Division"
begin

section \<open>Field values\<close>

text \<open>
  \<open>src/values.rs\<close>: the conversions of an unescaped field into integers, floats, booleans, decimals,
  dates, times, timestamps, bytes and array elements. A result is \<open>Inr (Some x)\<close>, \<open>Inr None\<close> for a value
  that is valid but has no encoding, or an error. An \<open>i64\<close> is an integer; arithmetic that the code does
  unchecked goes through \<open>i64\<close>, which wraps as a release build does, division truncates (\<open>sdiv\<close>), and
  checked operations return an option. A float is the value its text denotes, exactly; rounding it to
  32 or 64 bits is the standard library's, and a parameter. Lemmas are in \<open>Value_Laws\<close>.
\<close>

subsection \<open>Machine arithmetic\<close>

definition I64_MAX :: int where "I64_MAX = 9223372036854775807"
definition I64_MIN :: int where "I64_MIN = -9223372036854775808"
definition I128_MAX :: int where "I128_MAX = 170141183460469231731687303715884105727"

definition i64 :: "int \<Rightarrow> int" where
  "i64 x = (x + 9223372036854775808) mod 18446744073709551616 - 9223372036854775808"

definition checked64 :: "int \<Rightarrow> int option" where
  "checked64 x = (if I64_MIN \<le> x \<and> x \<le> I64_MAX then Some x else None)"

definition checked128 :: "int \<Rightarrow> int option" where
  "checked128 x = (if - I128_MAX - 1 \<le> x \<and> x \<le> I128_MAX then Some x else None)"

definition wrap128 :: "int \<Rightarrow> int" where
  "wrap128 x = (x + I128_MAX + 1) mod (2 * (I128_MAX + 1)) - I128_MAX - 1"

definition MIN_SUPPORTED_DAY :: int where "MIN_SUPPORTED_DAY = -2440588"
definition MICROS_PER_SEC :: int where "MICROS_PER_SEC = 1000000"
definition MICROS_PER_DAY :: int where "MICROS_PER_DAY = 86400 * MICROS_PER_SEC"

definition bad :: "bytes \<Rightarrow> bytes \<Rightarrow> error" where
  "bad column expected = UnparsableValue column expected"

definition text_of :: "bytes \<Rightarrow> bytes \<Rightarrow> bytes \<Rightarrow> bytes res" where
  "text_of v column expected = (if utf8_valid v then Inr v else Inl (bad column expected))"

subsection \<open>Integers, floats, booleans\<close>

definition parse_i16 :: "bytes \<Rightarrow> bytes \<Rightarrow> int option res" where
  "parse_i16 v column =
     and_then (text_of v column ''smallint'') (\<lambda>s.
     and_then (ok_or (bad column ''smallint'') (parse_signed (-32768) 32767 (trim s))) (\<lambda>i. Inr (Some i)))"

definition parse_i32 :: "bytes \<Rightarrow> bytes \<Rightarrow> int option res" where
  "parse_i32 v column =
     and_then (text_of v column ''integer'') (\<lambda>s.
     and_then (ok_or (bad column ''integer'') (parse_signed (-2147483648) 2147483647 (trim s))) (\<lambda>i. Inr (Some i)))"

definition parse_i64 :: "bytes \<Rightarrow> bytes \<Rightarrow> int option res" where
  "parse_i64 v column =
     and_then (text_of v column ''bigint'') (\<lambda>s.
     and_then (ok_or (bad column ''bigint'') (parse_signed I64_MIN I64_MAX (trim s))) (\<lambda>i. Inr (Some i)))"

text \<open>
  \<open>str::parse\<close> at a float type: an optional sign, then \<open>inf\<close>, \<open>infinity\<close> or \<open>nan\<close> in any case, or digits
  with an optional point and an optional exponent. \<open>Decimal neg m e\<close> is plus or minus \<open>m * 10^e\<close>.
\<close>

datatype float_val = NotANumber | Infinite bool | Decimal bool nat int

definition parse_exponent :: "bytes \<Rightarrow> int option" where
  "parse_exponent s =
     (case s of
        [] \<Rightarrow> None
      | c # r \<Rightarrow> if c = CHR ''-'' then map_option (\<lambda>n. - int n) (parse_nat r)
               else if c = CHR ''+'' then map_option int (parse_nat r)
               else map_option int (parse_nat s))"

definition parse_number :: "bool \<Rightarrow> bytes \<Rightarrow> float_val option" where
  "parse_number neg s =
     (let ip = takeWhile is_ascii_digit s;
          r = dropWhile is_ascii_digit s;
          (fp, r') = (case r of
             c # t \<Rightarrow> if c = CHR ''.'' then (takeWhile is_ascii_digit t, dropWhile is_ascii_digit t) else ([], r)
           | [] \<Rightarrow> ([], r));
          mant = digits_val (ip @ fp)
      in if ip = [] \<and> fp = [] then None
         else (case r' of
            [] \<Rightarrow> Some (Decimal neg mant (- int (length fp)))
          | c # t \<Rightarrow> if c = CHR ''e'' \<or> c = CHR ''E''
                   then map_option (\<lambda>e. Decimal neg mant (e - int (length fp))) (parse_exponent t)
                   else None))"

definition parse_float :: "bytes \<Rightarrow> float_val option" where
  "parse_float s =
     (let (neg, r) =
        (case s of c # t \<Rightarrow> if c = CHR ''-'' then (True, t) else if c = CHR ''+'' then (False, t) else (False, s)
                 | [] \<Rightarrow> (False, s))
      in if eq_ignore_ascii_case r ''nan'' then Some NotANumber
         else if eq_ignore_ascii_case r ''inf'' \<or> eq_ignore_ascii_case r ''infinity'' then Some (Infinite neg)
         else parse_number neg r)"

definition float_text :: "(float_val \<Rightarrow> 'f) \<Rightarrow> bytes \<Rightarrow> bytes \<Rightarrow> bytes \<Rightarrow> 'f option res" where
  "float_text round_to s column expected =
     (if s = ''NaN'' then Inr (Some (round_to NotANumber))
      else if s = ''Infinity'' then Inr (Some (round_to (Infinite False)))
      else if s = ''-Infinity'' then Inr (Some (round_to (Infinite True)))
      else and_then (ok_or (bad column expected) (parse_float s)) (\<lambda>x. Inr (Some (round_to x))))"

definition parse_f32 :: "(float_val \<Rightarrow> 'f) \<Rightarrow> bytes \<Rightarrow> bytes \<Rightarrow> 'f option res" where
  "parse_f32 round32 v column =
     and_then (text_of v column ''real'') (\<lambda>s. float_text round32 (trim s) column ''real'')"

definition parse_f64 :: "(float_val \<Rightarrow> 'f) \<Rightarrow> bytes \<Rightarrow> bytes \<Rightarrow> 'f option res" where
  "parse_f64 round64 v column =
     and_then (text_of v column ''double precision'') (\<lambda>s. float_text round64 (trim s) column ''double precision'')"

definition parse_bool :: "bytes \<Rightarrow> bytes \<Rightarrow> bool option res" where
  "parse_bool v column =
     (if v \<in> set [''t'', ''true'', ''T''] then Inr (Some True)
      else if v \<in> set [''f'', ''false'', ''F''] then Inr (Some False)
      else Inl (bad column ''boolean''))"

subsection \<open>Decimals\<close>

text \<open>The two loops: \<open>checked_mul(10)\<close> and \<open>checked_add\<close> of a digit, and the padding with zeros.\<close>

fun unscaled_loop :: "bytes \<Rightarrow> int \<Rightarrow> int option" where
  "unscaled_loop [] n = Some n"
| "unscaled_loop (b # bs) n =
     Option.bind (checked128 (n * 10)) (\<lambda>m.
     Option.bind (checked128 (m + int (digit_val b))) (unscaled_loop bs))"

fun pad_loop :: "nat \<Rightarrow> int \<Rightarrow> int option" where
  "pad_loop 0 n = Some n"
| "pad_loop (Suc k) n = Option.bind (checked128 (n * 10)) (pad_loop k)"

definition split_sign :: "bytes \<Rightarrow> bool \<times> bytes" where
  "split_sign s =
     (case s of
        c # r \<Rightarrow> if c = CHR ''-'' then (True, r) else if c = CHR ''+'' then (False, r) else (False, s)
      | [] \<Rightarrow> (False, s))"

definition decimal_digits :: "bool \<Rightarrow> bytes \<Rightarrow> bytes \<Rightarrow> nat \<Rightarrow> int \<Rightarrow> bytes \<Rightarrow> int option res" where
  "decimal_digits negative int_part frac_part precision scale column =
     (let err = bad column ''numeric''
      in if int_part = [] \<and> frac_part = [] then Inl err
         else if \<not> list_all is_ascii_digit int_part \<or> \<not> list_all is_ascii_digit frac_part then Inl err
         else if scale < 0 then Inl err
         else
           (let sc = nat scale;
                (frac_keep, frac_drop) =
                  (if sc < length frac_part then (take sc frac_part, drop sc frac_part) else (frac_part, []))
            in if list_ex (\<lambda>b. b \<noteq> CHR ''0'') frac_drop then Inl err
               else and_then (ok_or err (unscaled_loop (int_part @ frac_keep) 0)) (\<lambda>n.
                    and_then (ok_or err (pad_loop (sc - length frac_keep) n)) (\<lambda>unscaled.
                      if wrap128 (10 ^ precision) \<le> unscaled then Inl err
                      else Inr (Some (if negative then - unscaled else unscaled))))))"

definition parse_decimal :: "bytes \<Rightarrow> nat \<Rightarrow> int \<Rightarrow> bytes \<Rightarrow> int option res" where
  "parse_decimal v precision scale column =
     and_then (text_of v column ''numeric'') (\<lambda>s0.
       let s = trim s0; (negative, digits) = split_sign s
       in if s = ''NaN'' then Inr None
          else if digits = [] \<or> list_ex (\<lambda>b. b = CHR ''e'' \<or> b = CHR ''E'') digits
          then Inl (bad column ''numeric'')
          else (case find_byte (CHR ''.'') digits of
              Some i \<Rightarrow> decimal_digits negative (take i digits) (drop (i + 1) digits) precision scale column
            | None \<Rightarrow> decimal_digits negative digits [] precision scale column))"

subsection \<open>Array literals\<close>

fun array_quoted :: "bytes \<Rightarrow> bytes \<Rightarrow> (bytes \<times> bytes) option" where
  "array_quoted [] buf = None"
| "array_quoted (c # s) buf =
     (if c = DQ then Some (buf, s)
      else if c = BSL then
        (case s of [] \<Rightarrow> None | e # t \<Rightarrow> array_quoted t (buf @ [e]))
      else array_quoted s (buf @ [c]))"

definition bare_char :: "char \<Rightarrow> bool" where
  "bare_char c \<longleftrightarrow> c \<noteq> CHR '','' \<and> c \<noteq> CHR ''}'' \<and> \<not> is_ascii_whitespace c"

text \<open>One element from the front of the text, white space before it skipped, and the text after it.\<close>

definition array_element :: "bytes \<Rightarrow> (bytes option \<times> bytes) option" where
  "array_element s0 =
     (let s = dropWhile is_ascii_whitespace s0
      in if s \<noteq> [] \<and> hd s = DQ then map_option (\<lambda>(buf, r). (Some buf, r)) (array_quoted (tl s) [])
         else (let raw_el = takeWhile bare_char s
               in Some (if raw_el = ''NULL'' then None else Some raw_el, dropWhile bare_char s)))"

lemma array_quoted_length: "array_quoted s buf = Some (b, r) \<Longrightarrow> length r < length s"
  by (induction s buf rule: array_quoted.induct) (auto split: if_splits list.splits)

lemma array_element_length: "array_element s = Some (e, r) \<Longrightarrow> length r \<le> length s"
proof -
  assume a: "array_element s = Some (e, r)"
  have d: "length (dropWhile P xs) \<le> length xs" for P and xs :: bytes by (rule length_dropWhile_le)
  let ?s = "dropWhile is_ascii_whitespace s"
  from a consider b where "array_quoted (tl ?s) [] = Some (b, r)" | "r = dropWhile bare_char ?s"
    by (auto simp: array_element_def Let_def split: if_splits)
  then show ?thesis
  proof cases
    case 1
    then have "length r < length (tl ?s)" by (rule array_quoted_length)
    then show ?thesis using d[of is_ascii_whitespace s] by simp
  qed (use d[of bare_char ?s] d[of is_ascii_whitespace s] in simp)
qed

function array_loop :: "bytes \<Rightarrow> bytes \<Rightarrow> bytes option list \<Rightarrow> bytes option list res" where
  "array_loop column s elements =
     (case array_element s of
        None \<Rightarrow> Inl (bad column ''array'')
      | Some (e, r) \<Rightarrow>
          (case dropWhile is_ascii_whitespace r of
             [] \<Rightarrow> Inr (elements @ [e])
           | c # t \<Rightarrow> if c = CHR '','' then array_loop column t (elements @ [e])
                    else Inl (bad column ''array'')))"
  by pat_completeness auto
termination
proof (relation "measure (\<lambda>(column, s, elements). length s)", goal_cases)
  case (2 column s elements p e r c t)
  have "length r \<le> length s" using array_element_length[of s e r] 2(1,2) by simp
  moreover have "length (c # t) \<le> length r" unfolding 2(3)[symmetric] by (rule length_dropWhile_le)
  ultimately show ?case by simp
qed simp

declare array_loop.simps [simp del]

definition parse_array_elements :: "bytes \<Rightarrow> bytes \<Rightarrow> bytes option list res" where
  "parse_array_elements v column =
     (if v = [] \<or> hd v \<noteq> CHR ''{'' \<or> last v \<noteq> CHR ''}'' \<or> length v < 2 then Inl (bad column ''array'')
      else (let inner = butlast (tl v)
            in if inner = [] then Inr [] else array_loop column inner []))"


subsection \<open>Dates and times\<close>

definition days_from_civil :: "int \<Rightarrow> int \<Rightarrow> int \<Rightarrow> int" where
  "days_from_civil y0 m d =
     (let y = (if m \<le> 2 then i64 (y0 - 1) else y0);
          era = (if 0 \<le> y then y else i64 (y - 399)) sdiv 400;
          yoe = i64 (y - i64 (era * 400));
          mp = (m + 9) smod 12;
          doy = (153 * mp + 2) sdiv 5 + d - 1;
          doe = i64 (i64 (i64 (i64 (yoe * 365) + yoe sdiv 4) - yoe sdiv 100) + doy)
      in i64 (i64 (i64 (era * 146097) + doe) - 719468))"

definition split_era :: "bytes \<Rightarrow> bytes \<times> bool" where
  "split_era s = (if ends_with s '' BC'' then (trim_end (take (length s - 3) s), True) else (s, False))"

text \<open>\<open>str::splitn\<close>: at most \<open>n\<close> pieces, the last one unsplit.\<close>

fun splitn :: "nat \<Rightarrow> char \<Rightarrow> bytes \<Rightarrow> bytes list" where
  "splitn 0 sep s = []"
| "splitn (Suc n) sep s =
     (if n = 0 then [s]
      else (case find_byte sep s of None \<Rightarrow> [s] | Some i \<Rightarrow> take i s # splitn n sep (drop (i + 1) s)))"

definition parse_int64 :: "bytes \<Rightarrow> int option" where
  "parse_int64 s = parse_signed I64_MIN I64_MAX s"

definition civil_parts :: "bytes \<Rightarrow> (int \<times> int \<times> int) option" where
  "civil_parts s =
     (case splitn 3 (CHR ''-'') s of
        [ys, ms, ds] \<Rightarrow>
          if ys = [] \<or> \<not> list_all is_ascii_digit ys then None
          else if length ms \<noteq> 2 \<or> length ds \<noteq> 2 then None
          else Option.bind (parse_int64 ys) (\<lambda>y.
               Option.bind (parse_int64 ms) (\<lambda>m.
               Option.bind (parse_int64 ds) (\<lambda>d.
                 if \<not> (1 \<le> m \<and> m \<le> 12) \<or> \<not> (1 \<le> d \<and> d \<le> 31) then None else Some (y, m, d))))
      | _ \<Rightarrow> None)"

definition parse_date :: "bytes \<Rightarrow> bytes \<Rightarrow> int option res" where
  "parse_date v column =
     and_then (text_of v column ''date'') (\<lambda>s0.
       let s1 = trim s0
       in if s1 = ''infinity'' \<or> s1 = ''-infinity'' then Inr None
          else (let (s, bc) = split_era s1
                in and_then (ok_or (bad column ''date'') (civil_parts s)) (\<lambda>(y0, m, d).
                     let y = (if bc then i64 (1 - y0) else y0);
                         days = days_from_civil y m d
                     in if days < MIN_SUPPORTED_DAY \<and> \<not> bc then Inl (bad column ''date'')
                        else if -2147483648 \<le> days \<and> days \<le> 2147483647 then Inr (Some days)
                        else Inl (bad column ''date''))))"

text \<open>The fraction of a second, in microseconds.\<close>

definition frac_micros :: "bytes \<Rightarrow> int option" where
  "frac_micros frac =
     (if frac = [] then Some 0
      else if 6 < length frac \<or> \<not> list_all is_ascii_digit frac then None
      else map_option (\<lambda>scaled. scaled * 10 ^ (6 - length frac)) (parse_int64 frac))"

definition time_micros :: "bytes \<Rightarrow> int option" where
  "time_micros s =
     (let (hms, frac) = (case find_byte (CHR ''.'') s of
            Some i \<Rightarrow> (take i s, drop (i + 1) s) | None \<Rightarrow> (s, []));
          it = splitn 3 (CHR '':'') hms
      in Option.bind (parse_int64 (hd it)) (\<lambda>h.
         Option.bind (case tl it of ms # _ \<Rightarrow> parse_int64 ms | [] \<Rightarrow> None) (\<lambda>m.
         Option.bind (case tl (tl it) of ss # _ \<Rightarrow> parse_int64 ss | [] \<Rightarrow> parse_int64 ''0'') (\<lambda>sec.
           if \<not> (0 \<le> h \<and> h \<le> 24) \<or> \<not> (0 \<le> m \<and> m < 60) \<or> \<not> (0 \<le> sec \<and> sec \<le> 60) then None
           else map_option (\<lambda>micros. (h * 3600 + m * 60 + sec) * MICROS_PER_SEC + micros) (frac_micros frac)))))"

text \<open>\<open>rfind(['+', '-'])\<close> in the text after the first space.\<close>

definition rfind_sign :: "bytes \<Rightarrow> nat option" where
  "rfind_sign s =
     (case (rfind_byte (CHR ''+'') s, rfind_byte (CHR ''-'') s) of
        (None, b) \<Rightarrow> b | (a, None) \<Rightarrow> a | (Some i, Some j) \<Rightarrow> Some (max i j))"

text \<open>The parts after the first of an offset: absent or unreadable is zero.\<close>

fun offset_part :: "bytes list \<Rightarrow> int" where
  "offset_part [] = 0"
| "offset_part (x # xs) = (case parse_int64 x of Some n \<Rightarrow> n | None \<Rightarrow> 0)"

definition offset_micros :: "int \<Rightarrow> int \<Rightarrow> int \<Rightarrow> int \<Rightarrow> int" where
  "offset_micros sign h m seconds =
     i64 (i64 (sign * i64 (i64 (i64 (h * 3600) + i64 (m * 60)) + seconds)) * MICROS_PER_SEC)"

definition split_offset :: "bytes \<Rightarrow> bytes \<times> int option" where
  "split_offset s =
     (let search_from = (case find_byte (CHR '' '') s of Some i \<Rightarrow> i + 1 | None \<Rightarrow> 0)
      in case rfind_sign (drop search_from s) of
           None \<Rightarrow> (s, None)
         | Some rel \<Rightarrow>
             (let at = search_from + rel;
                  sign = (if s ! at = CHR ''-'' then -1 else 1);
                  parts = split_on (CHR '':'') (drop (at + 1) s)
              in case parse_int64 (hd parts) of
                   None \<Rightarrow> (s, None)
                 | Some h \<Rightarrow>
                     (take at s,
                      Some (offset_micros sign h (offset_part (tl parts)) (offset_part (tl (tl parts)))))))"

definition parse_time :: "bytes \<Rightarrow> bytes \<Rightarrow> int option res" where
  "parse_time v column =
     and_then (text_of v column ''time'') (\<lambda>s0.
       let (body, offset) = split_offset (trim s0)
       in and_then (ok_or (bad column ''time'') (time_micros body)) (\<lambda>micros.
            Inr (Some (i64 (micros - (case offset of Some x \<Rightarrow> x | None \<Rightarrow> 0)) mod MICROS_PER_DAY))))"

definition utc_micros :: "int \<Rightarrow> int \<Rightarrow> int option \<Rightarrow> int option" where
  "utc_micros days micros offset =
     Option.bind (checked64 (days * MICROS_PER_DAY)) (\<lambda>a.
     Option.bind (checked64 (a + micros)) (\<lambda>b.
     checked64 (b - (case offset of Some x \<Rightarrow> x | None \<Rightarrow> 0))))"

definition split_space :: "bytes \<Rightarrow> bytes \<times> bytes" where
  "split_space body =
     (case find_byte (CHR '' '') body of
        Some i \<Rightarrow> (take i body, drop (i + 1) body)
      | None \<Rightarrow> (body, ''00:00:00''))"

definition parse_timestamp :: "bytes \<Rightarrow> bool \<Rightarrow> bytes \<Rightarrow> int option res" where
  "parse_timestamp v tz column =
     and_then (text_of v column ''timestamp'') (\<lambda>s0.
       let s1 = trim s0
       in if s1 = ''infinity'' \<or> s1 = ''-infinity'' then Inr None
          else
            (let (s, bc) = split_era s1;
                 (body, offset) = (if tz then split_offset s else (s, None));
                 (date_part, time_part) = split_space body;
                 err = bad column ''timestamp''
             in and_then (ok_or err (civil_parts date_part)) (\<lambda>(y0, m, d).
                and_then (ok_or err (time_micros (trim time_part))) (\<lambda>micros.
                and_then (ok_or err
                  (utc_micros (days_from_civil (if bc then i64 (1 - y0) else y0) m d) micros offset)) (\<lambda>t.
                Inr (Some t))))))"

subsection \<open>bytea\<close>

definition hex_val :: "char \<Rightarrow> nat option" where
  "hex_val b =
     (if 48 \<le> byte_val b \<and> byte_val b \<le> 57 then Some (byte_val b - 48)
      else if 97 \<le> byte_val b \<and> byte_val b \<le> 102 then Some (byte_val b - 97 + 10)
      else if 65 \<le> byte_val b \<and> byte_val b \<le> 70 then Some (byte_val b - 65 + 10)
      else None)"

fun hex_pairs :: "bytes \<Rightarrow> bytes \<Rightarrow> bytes option" where
  "hex_pairs (a # b # s) out =
     Option.bind (hex_val a) (\<lambda>hi. Option.bind (hex_val b) (\<lambda>lo. hex_pairs s (out @ [char_of (hi * 16 + lo)])))"
| "hex_pairs _ out = Some out"

definition is_octal_digit :: "char \<Rightarrow> bool" where
  "is_octal_digit b \<longleftrightarrow> 48 \<le> byte_val b \<and> byte_val b \<le> 55"

fun bytea_loop :: "bytes \<Rightarrow> bytes \<Rightarrow> bytes option" where
  "bytea_loop [] out = Some out"
| "bytea_loop (c # s) out =
     (if c \<noteq> BSL then bytea_loop s (out @ [c])
      else (case s of
          [] \<Rightarrow> None
        | d # t \<Rightarrow>
            if d = BSL then bytea_loop t (out @ [BSL])
            else if is_ascii_digit d then
              (case t of
                 e # f # u \<Rightarrow>
                   if is_octal_digit d \<and> is_octal_digit e \<and> is_octal_digit f then
                     (let value = (digit_val d * 8 + digit_val e) * 8 + digit_val f
                      in if 255 < value then None else bytea_loop u (out @ [char_of value]))
                   else None
               | _ \<Rightarrow> None)
            else None))"

definition parse_bytea :: "bytes \<Rightarrow> bytes \<Rightarrow> bytes \<Rightarrow> bytes res" where
  "parse_bytea v column out =
     ok_or (bad column ''bytea'')
       (if starts_with v [BSL, CHR ''x''] then
          (let hex = drop 2 v in if odd (length hex) then None else hex_pairs hex out)
        else bytea_loop v out)"

end
