(* ===== verification/Value_Laws.thy ===== *)
theory Value_Laws
  imports Pg_Values
begin

section \<open>Field values: laws\<close>

text \<open>
  What the conversions of \<open>Pg_Values\<close> compute: integers and their ranges, decimals as exact numbers,
  the day count as the Gregorian calendar, dates and timestamps from their parts, array literals and
  both forms of \<open>bytea\<close> read back, and errors that say nothing of the value.
\<close>

subsection \<open>Machine arithmetic\<close>

lemma i64_id: "I64_MIN \<le> x \<Longrightarrow> x \<le> I64_MAX \<Longrightarrow> i64 x = x"
  by (simp add: i64_def I64_MIN_def I64_MAX_def)

lemma sdiv_nonneg: "0 \<le> a \<Longrightarrow> 0 < b \<Longrightarrow> a sdiv b = a div (b::int)"
  by (cases "a = 0") (simp_all add: signed_divide_int_def sgn_if)

lemma smod_nonneg: "0 \<le> a \<Longrightarrow> 0 < b \<Longrightarrow> a smod b = a mod (b::int)"
  by (cases "a = 0") (simp_all add: signed_modulo_int_def sgn_if)

subsection \<open>The calendar\<close>

definition leap :: "int \<Rightarrow> bool" where
  "leap y \<longleftrightarrow> y mod 4 = 0 \<and> (y mod 100 \<noteq> 0 \<or> y mod 400 = 0)"

definition month_days :: "int \<Rightarrow> int \<Rightarrow> int" where
  "month_days y m =
     (if m = 2 then (if leap y then 29 else 28) else if m \<in> {4, 6, 9, 11} then 30 else 31)"

definition valid_date :: "int \<Rightarrow> int \<Rightarrow> int \<Rightarrow> bool" where
  "valid_date y m d \<longleftrightarrow> 1 \<le> m \<and> m \<le> 12 \<and> 1 \<le> d \<and> d \<le> month_days y m"

fun next_day :: "int \<times> int \<times> int \<Rightarrow> int \<times> int \<times> int" where
  "next_day (y, m, d) =
     (if d < month_days y m then (y, m, d + 1) else if m < 12 then (y, m + 1, 1) else (y + 1, 1, 1))"

text \<open>Years for which no intermediate value leaves the \<open>i64\<close> range, with room to spare.\<close>

definition sane_year :: "int \<Rightarrow> bool" where
  "sane_year y \<longleftrightarrow> -1000000000000 \<le> y \<and> y \<le> 1000000000000"

text \<open>The count of days before March of year \<open>y\<close>, and of the days before a month counted from March.\<close>

definition days_to_march :: "int \<Rightarrow> int" where
  "days_to_march y = 365 * y + y div 4 - y div 100 + y div 400"

definition march_days :: "int \<Rightarrow> int" where
  "march_days mp = (153 * mp + 2) div 5"

lemma era_floor:
  assumes "sane_year y"
  shows "(if 0 \<le> y then y else i64 (y - 399)) sdiv 400 = y div 400"
proof (cases "0 \<le> y")
  case True
  then show ?thesis by (simp add: sdiv_nonneg)
next
  case False
  have i: "i64 (y - 399) = y - 399" by (rule i64_id) (use assms in \<open>auto simp: sane_year_def I64_MIN_def I64_MAX_def\<close>)
  have "(y - 399) sdiv 400 = - ((399 - y) div 400)"
    using False by (simp add: signed_divide_int_def sgn_if)
  also have "(399 - y) div 400 = - (y div 400)"
  proof (rule int_div_pos_eq)
    show "399 - y = 400 * - (y div 400) + (399 - y mod 400)"
      using mult_div_mod_eq[of 400 y] by linarith
    show "0 \<le> 399 - y mod 400" "399 - y mod 400 < 400"
      using pos_mod_bound[of 400 y] pos_mod_sign[of 400 y] by linarith+
  qed
  finally show ?thesis using False i by simp
qed

lemma march_split: "y div 400 * 146097 + (y mod 400 * 365 + y mod 400 div 4 - y mod 400 div 100) = days_to_march (y::int)"
proof -
  define q r where "q = y div 400" and "r = y mod 400"
  have y: "y = r + 400 * q" by (simp add: q_def r_def)
  have "y div 4 = 100 * q + r div 4" using div_mult_self1[of 4 r "100 * q"] y by (simp add: mult.assoc)
  moreover have "y div 100 = 4 * q + r div 100" using div_mult_self1[of 100 r "4 * q"] y by (simp add: mult.assoc)
  ultimately show ?thesis unfolding days_to_march_def q_def[symmetric] r_def[symmetric] using y by linarith
qed

lemma days_from_civil_eq:
  assumes "sane_year y" "1 \<le> m" "m \<le> 12" "0 \<le> d" "d \<le> 1000"
  shows "days_from_civil y m d =
    days_to_march (if m \<le> 2 then y - 1 else y) + march_days ((m + 9) mod 12) + d - 719469"
proof -
  define y' where "y' = (if m \<le> 2 then y - 1 else y)"
  have b: "-1000000000001 \<le> y'" "y' \<le> 1000000000000" using assms(1) by (auto simp: y'_def sane_year_def)
  note w = I64_MIN_def I64_MAX_def
  have y1: "(if m \<le> 2 then i64 (y - 1) else y) = y'"
    using assms(1) by (auto simp: y'_def sane_year_def w intro!: i64_id)
  have era: "(if 0 \<le> y' then y' else i64 (y' - 399)) sdiv 400 = y' div 400"
  proof (cases "sane_year y'")
    case True
    then show ?thesis by (rule era_floor)
  next
    case False
    then have "y' = -1000000000001" using b by (auto simp: sane_year_def)
    then show ?thesis by (simp add: i64_def signed_divide_int_def)
  qed
  define q r where "q = y' div 400" and "r = y' mod 400"
  have y': "y' = q * 400 + r" by (simp add: q_def r_def)
  have rb: "0 \<le> r" "r < 400" by (simp_all add: r_def)
  then have qb: "-2500000001 \<le> q" "q \<le> 2500000000" using b y' by linarith+
  have q: "i64 (q * 400) = q * 400" by (rule i64_id) (use qb in \<open>simp_all add: w\<close>)
  have yoe: "i64 (y' - q * 400) = r" using y' rb by (subst i64_id) (simp_all add: w)
  define mp where "mp = (m + 9) mod 12"
  have mb: "0 \<le> mp" "mp < 12" by (simp_all add: mp_def)
  have mp: "(m + 9) smod 12 = mp" using assms by (simp add: smod_nonneg mp_def)
  define k where "k = march_days mp"
  have k: "(153 * mp + 2) sdiv 5 = k" using mb by (simp add: sdiv_nonneg k_def march_days_def)
  have kb: "0 \<le> k" "k \<le> 337" using mb by (simp_all add: k_def march_days_def)
  have rd: "r sdiv 4 = r div 4" "r sdiv 100 = r div 100" using rb by (simp_all add: sdiv_nonneg)
  have rdb: "0 \<le> r div 4" "r div 4 \<le> 100" "0 \<le> r div 100" "r div 100 \<le> 4" using rb by linarith+
  define doe where "doe = r * 365 + r div 4 - r div 100 + (k + d - 1)"
  have doe: "i64 (i64 (i64 (i64 (r * 365) + r sdiv 4) - r sdiv 100) + (k + d - 1)) = doe"
    using rb rdb kb assms(4,5) by (simp add: rd i64_id w doe_def)
  have db: "-10 \<le> doe" "doe \<le> 200000" using rb rdb kb assms(4,5) by (simp_all add: doe_def)
  have fin: "i64 (i64 (i64 (q * 146097) + doe) - 719468) = q * 146097 + doe - 719468"
    using qb db by (simp add: i64_id w)
  have "days_from_civil y m d = q * 146097 + doe - 719468"
    using fin unfolding days_from_civil_def Let_def y1 era[folded q_def] q yoe mp k doe .
  also have "\<dots> = days_to_march y' + k + d - 719469"
    using march_split[of y'] by (simp add: q_def r_def doe_def)
  finally show ?thesis by (simp add: y'_def k_def mp_def)
qed


lemma div_plus_1:
  assumes "0 < (n::int)"
  shows "(y + 1) div n = y div n + (if (y + 1) mod n = 0 then 1 else 0)"
proof -
  define q r where "q = y div n" and "r = y mod n"
  have y: "y = n * q + r" "0 \<le> r" "r < n" using assms by (simp_all add: q_def r_def)
  show ?thesis
  proof (cases "r + 1 = n")
    case True
    then have e: "y + 1 = n * (q + 1)" using y by (simp add: algebra_simps)
    then show ?thesis using assms by (simp add: q_def[symmetric] e)
  next
    case False
    then have e: "y + 1 = n * q + (r + 1)" "0 \<le> r + 1" "r + 1 < n" using y by simp_all
    have "(y + 1) div n = q" using e by (rule int_div_pos_eq)
    moreover have "(y + 1) mod n = r + 1" using e by (rule int_mod_pos_eq)
    ultimately show ?thesis using y by (simp add: q_def[symmetric])
  qed
qed

lemma days_to_march_Suc: "days_to_march (y + 1) = days_to_march y + (if leap (y + 1) then 366 else 365)"
proof -
  have d: "(y + 1) div 4 = y div 4 + (if (y + 1) mod 4 = 0 then 1 else 0)"
    "(y + 1) div 100 = y div 100 + (if (y + 1) mod 100 = 0 then 1 else 0)"
    "(y + 1) div 400 = y div 400 + (if (y + 1) mod 400 = 0 then 1 else 0)" by (simp_all add: div_plus_1)
  define P4 P100 P400 where "P4 \<longleftrightarrow> (y + 1) mod 4 = 0" and "P100 \<longleftrightarrow> (y + 1) mod 100 = 0"
    and "P400 \<longleftrightarrow> (y + 1) mod 400 = 0"
  have P: "P400 \<Longrightarrow> P100" "P100 \<Longrightarrow> P4"
    unfolding P4_def P100_def P400_def mod_eq_0_iff_dvd by (erule dvd_trans[rotated], simp)+
  have "days_to_march (y + 1) = days_to_march y + 365 + (if P4 then 1 else 0) - (if P100 then 1 else 0)
      + (if P400 then 1 else 0)"
    unfolding days_to_march_def d P4_def[symmetric] P100_def[symmetric] P400_def[symmetric] by (simp add: algebra_simps)
  moreover have "leap (y + 1) \<longleftrightarrow> P4 \<and> (\<not> P100 \<or> P400)"
    by (simp only: leap_def P4_def P100_def P400_def)
  ultimately show ?thesis using P by auto
qed

lemma days_next_day:
  assumes "valid_date y m d" "sane_year y" "sane_year (y + 1)" "next_day (y, m, d) = (y', m', d')"
  shows "days_from_civil y' m' d' = days_from_civil y m d + 1"
proof -
  have md: "1 \<le> m" "m \<le> 12" "1 \<le> d" "d \<le> month_days y m" "month_days y m \<le> 31"
    using assms(1) by (auto simp: valid_date_def month_days_def)
  note here = days_from_civil_eq[OF assms(2) md(1,2), of d]
  show ?thesis
  proof (cases "d < month_days y m")
    case True
    then show ?thesis
      using here days_from_civil_eq[OF assms(2) md(1,2), of "d + 1"] md assms(4) by simp
  next
    case False
    then have d: "d = month_days y m" using md by simp
    consider "m = 12" | "m = 2" | "m \<noteq> 12" "m \<noteq> 2" by blast
    then show ?thesis
    proof cases
      case 1
      then show ?thesis
        using here days_from_civil_eq[OF assms(3), of 1 1] d assms(4)
        by (simp add: month_days_def march_days_def)
    next
      case 2
      then show ?thesis
        using here days_from_civil_eq[OF assms(2), of 3 1] d assms(4) days_to_march_Suc[of "y - 1"]
        by (simp add: month_days_def march_days_def split: if_splits)
    next
      case 3
      then have m: "m \<in> {1, 3, 4, 5, 6, 7, 8, 9, 10, 11}"
        using md(1,2) unfolding insert_iff empty_iff by presburger
      then show ?thesis
        using here days_from_civil_eq[OF assms(2), of "m + 1" 1] d assms(4) md
        by (auto simp: month_days_def march_days_def)
    qed
  qed
qed

lemma days_epoch: "days_from_civil 1970 1 1 = 0"
  by (simp add: days_from_civil_eq sane_year_def days_to_march_def march_days_def)

text \<open>So distinct dates have distinct day counts, in calendar order.\<close>

definition date_less :: "int \<times> int \<times> int \<Rightarrow> int \<times> int \<times> int \<Rightarrow> bool" where
  "date_less a b \<longleftrightarrow> (case (a, b) of ((y, m, d), (y', m', d')) \<Rightarrow>
     y < y' \<or> y = y' \<and> (m < m' \<or> m = m' \<and> d < d'))"

text \<open>The day of the year, counted from 0, and the days before a year.\<close>

definition days_to_year :: "int \<Rightarrow> int" where
  "days_to_year y = days_to_march (y - 1) + 306"

definition year_day :: "int \<Rightarrow> int \<Rightarrow> int \<Rightarrow> int" where
  "year_day y m d = (if m \<le> 2 then march_days ((m + 9) mod 12) - 306 else march_days ((m + 9) mod 12) + 59
     + (if leap y then 1 else 0)) + d - 1"

lemma days_by_year:
  assumes "sane_year y" "valid_date y m d"
  shows "days_from_civil y m d = days_to_year y + year_day y m d - 719468"
proof -
  have md: "1 \<le> m" "m \<le> 12" "1 \<le> d" "d \<le> 31"
    using assms(2) by (auto simp: valid_date_def month_days_def split: if_splits)
  show ?thesis
    using days_from_civil_eq[OF assms(1) md(1,2), of d] md days_to_march_Suc[of "y - 1"]
    by (auto simp: days_to_year_def year_day_def)
qed


lemma days_to_year_Suc: "days_to_year (y + 1) = days_to_year y + (if leap y then 366 else 365)"
  using days_to_march_Suc[of "y - 1"] by (simp add: days_to_year_def)

lemma days_to_year_mono: "y + 1 \<le> y' \<Longrightarrow> days_to_year (y + 1) \<le> days_to_year y'"
proof (induction y' rule: int_ge_induct)
  case (step i)
  then show ?case using days_to_year_Suc[of i] by (simp split: if_splits)
qed simp

lemma twelve_months: "1 \<le> (m::int) \<Longrightarrow> m \<le> 12 \<Longrightarrow> m \<in> {1, 2, 3, 4, 5, 6, 7, 8, 9, 10, 11, 12}"
  unfolding insert_iff empty_iff by presburger

lemma year_day_step:
  assumes "1 \<le> m" "m < 12"
  shows "year_day y (m + 1) 1 = year_day y m 1 + month_days y m"
proof -
  have "m \<in> {1, 2, 3, 4, 5, 6, 7, 8, 9, 10, 11}"
    using assms unfolding insert_iff empty_iff by presburger
  then show ?thesis by (auto simp: year_day_def month_days_def march_days_def)
qed

lemma year_day_month: "year_day y m d = year_day y m 1 + d - 1"
  by (simp add: year_day_def)

lemma year_day_mono:
  assumes "1 \<le> m" "m + 1 \<le> m'" "m' \<le> 12"
  shows "year_day y m 1 + month_days y m \<le> year_day y m' 1"
  using assms(2,3)
proof (induction m' rule: int_ge_induct)
  case base
  then show ?case using year_day_step[of m y] assms(1) by simp
next
  case (step i)
  moreover have "0 \<le> month_days y i" by (simp add: month_days_def)
  ultimately show ?case using year_day_step[of i y] assms(1) by simp
qed

lemma year_day_range:
  assumes "valid_date y m d"
  shows "0 \<le> year_day y m d" "year_day y m d < (if leap y then 366 else 365)"
proof -
  have md: "1 \<le> m" "m \<le> 12" "1 \<le> d" "d \<le> month_days y m" using assms by (auto simp: valid_date_def)
  have ends: "year_day y 1 1 = 0" "year_day y 12 1 = (if leap y then 335 else 334)"
    by (simp_all add: year_day_def march_days_def)
  have "0 \<le> month_days y 1" by (simp add: month_days_def)
  then show "0 \<le> year_day y m d"
    using year_day_mono[of 1 m y] md ends(1) year_day_month[of y m d] by (cases "m = 1") auto
  show "year_day y m d < (if leap y then 366 else 365)"
  proof (cases "m = 12")
    case True
    then show ?thesis using md ends(2) year_day_month[of y m d] by (simp add: month_days_def split: if_splits)
  next
    case False
    then have "year_day y m 1 + month_days y m \<le> year_day y 12 1" using md by (intro year_day_mono) auto
    then show ?thesis using md ends(2) year_day_month[of y m d] by (auto split: if_splits)
  qed
qed

lemma days_strictly_ordered:
  assumes "valid_date y m d" "valid_date y' m' d'" "sane_year y" "sane_year y'"
    and "date_less (y, m, d) (y', m', d')"
  shows "days_from_civil y m d < days_from_civil y' m' d'"
proof -
  note by_year = days_by_year[OF assms(3,1)] days_by_year[OF assms(4,2)]
  note range = year_day_range[OF assms(1)] year_day_range[OF assms(2)]
  consider "y < y'" | "y = y'" "m < m'" | "y = y'" "m = m'" "d < d'"
    using assms(5) by (auto simp: date_less_def)
  then show ?thesis
  proof cases
    case 1
    then show ?thesis
      using days_to_year_mono[of y y'] days_to_year_Suc[of y] by_year range by (simp split: if_splits)
  next
    case 2
    have b: "1 \<le> m" "d \<le> month_days y m" "m' \<le> 12" "1 \<le> d'" using assms(1,2) by (auto simp: valid_date_def)
    have "year_day y m 1 + month_days y m \<le> year_day y m' 1"
      using b(1,3) 2(2) by (intro year_day_mono) auto
    then show ?thesis
      using by_year year_day_month[of y m d] year_day_month[of y m' d'] b 2(1) by simp
  next
    case 3
    then show ?thesis using by_year year_day_month[of y m d] year_day_month[of y m d'] by simp
  qed
qed

subsection \<open>Decimals\<close>

lemma checked128_Some: "checked128 x = Some y \<longleftrightarrow> y = x \<and> - I128_MAX - 1 \<le> x \<and> x \<le> I128_MAX"
  by (auto simp: checked128_def)

lemma foldl_digits: "foldl (\<lambda>n c. n * 10 + digit_val c) n s = n * 10 ^ length s + digits_val s"
proof (induction s rule: rev_induct)
  case Nil
  then show ?case by simp
next
  case (snoc c s)
  then show ?case by (simp add: algebra_simps)
qed

lemma digits_val_append: "digits_val (s @ t) = digits_val s * 10 ^ length t + digits_val t"
  using foldl_digits[of "digits_val s" t] by (simp add: digits_val_def)

lemma digits_val_Cons: "digits_val (c # s) = digit_val c * 10 ^ length s + digits_val s"
  using digits_val_append[of "[c]" s] digits_val_snoc[of "[]" c] by simp

lemma unscaled_loop_Some:
  assumes "0 \<le> n" "n * 10 ^ length bs + int (digits_val bs) \<le> I128_MAX"
  shows "unscaled_loop bs n = Some (n * 10 ^ length bs + int (digits_val bs))"
  using assms
proof (induction bs arbitrary: n)
  case (Cons b bs)
  let ?m = "n * 10 + int (digit_val b)"
  have e: "?m * 10 ^ length bs + int (digits_val bs) = n * 10 ^ length (b # bs) + int (digits_val (b # bs))"
    by (simp add: digits_val_Cons algebra_simps)
  have p: "(1::int) \<le> 10 ^ length bs" by simp
  have "?m * 1 \<le> ?m * 10 ^ length bs" using Cons.prems(1) p by (intro mult_left_mono) auto
  moreover have "?m * 10 ^ length bs + int (digits_val bs) \<le> I128_MAX" unfolding e by (rule Cons.prems(2))
  ultimately have m: "0 \<le> ?m" "?m \<le> I128_MAX" using Cons.prems(1) by simp_all
  then have "checked128 (n * 10) = Some (n * 10)" "checked128 ?m = Some ?m"
    using Cons.prems(1) by (auto simp: checked128_def I128_MAX_def)
  then show ?case using Cons.IH[of ?m] m(1) Cons.prems(2) e by simp
qed simp

lemma unscaled_loop_big:
  assumes "0 \<le> n" "unscaled_loop bs n = Some r"
  shows "r = n * 10 ^ length bs + int (digits_val bs)"
  using assms
proof (induction bs arbitrary: n)
  case (Cons b bs)
  then have "unscaled_loop bs (n * 10 + int (digit_val b)) = Some r"
    by (auto simp: bind_eq_Some_conv checked128_Some)
  then show ?case using Cons.IH[of "n * 10 + int (digit_val b)"] Cons.prems(1)
    by (simp add: digits_val_Cons algebra_simps)
qed simp

lemma pad_loop_Some: "0 \<le> n \<Longrightarrow> n * 10 ^ k \<le> I128_MAX \<Longrightarrow> pad_loop k n = Some (n * 10 ^ k)"
proof (induction k arbitrary: n)
  case (Suc k)
  have "n * 10 * 1 \<le> n * 10 * 10 ^ k" using Suc.prems(1) by (intro mult_left_mono) auto
  then have "checked128 (n * 10) = Some (n * 10)"
    using Suc.prems by (auto simp: checked128_def I128_MAX_def algebra_simps)
  then show ?case using Suc by (simp add: algebra_simps)
qed simp

lemma pad_loop_big: "pad_loop k n = Some r \<Longrightarrow> r = n * 10 ^ k"
proof (induction k arbitrary: n)
  case (Suc k)
  then have "pad_loop k (n * 10) = Some r" by (auto simp: bind_eq_Some_conv checked128_Some)
  then show ?case using Suc.IH[of "n * 10"] by simp
qed simp


text \<open>
  The number a decimal text denotes, as an unscaled integer at scale \<open>s\<close>, and whether it fits: what the
  code must compute when no digit beyond the scale is significant.
\<close>

definition unscaled_value :: "bytes \<Rightarrow> bytes \<Rightarrow> nat \<Rightarrow> int" where
  "unscaled_value ip fp s = int (digits_val (ip @ take s fp)) * 10 ^ (s - length fp)"

definition surplus_zero :: "bytes \<Rightarrow> nat \<Rightarrow> bool" where
  "surplus_zero fp s \<longleftrightarrow> list_all (\<lambda>b. b = CHR ''0'') (drop s fp)"

lemma decimal_digits_exact:
  assumes "list_all is_ascii_digit ip" "list_all is_ascii_digit fp" "ip \<noteq> [] \<or> fp \<noteq> []" "p \<le> 38"
  shows "decimal_digits neg ip fp p (int s) column =
    (if surplus_zero fp s \<and> unscaled_value ip fp s < 10 ^ p
     then Inr (Some (if neg then - unscaled_value ip fp s else unscaled_value ip fp s))
     else Inl (bad column ''numeric''))"
proof -
  let ?keep = "take s fp" and ?v = "unscaled_value ip fp s"
  have keep: "(if s < length fp then (take s fp, drop s fp) else (fp, [])) = (?keep, drop s fp)" by simp
  have pad: "s - min (length fp) s = s - length fp" by simp
  have lim: "(10::int) ^ p \<le> 10 ^ 38" using assms(4) by (intro power_increasing) auto
  have big: "(10::int) ^ 38 \<le> I128_MAX" by (simp add: I128_MAX_def)
  have w: "wrap128 (10 ^ p) = 10 ^ p"
    using lim by (simp add: wrap128_def I128_MAX_def)
  have surplus: "list_ex (\<lambda>b. b \<noteq> CHR ''0'') (drop s fp) \<longleftrightarrow> \<not> surplus_zero fp s"
    by (auto simp: surplus_zero_def list_ex_iff list_all_iff)
  have main: "and_then (ok_or (bad column ''numeric'') (unscaled_loop (ip @ ?keep) 0)) (\<lambda>n.
      and_then (ok_or (bad column ''numeric'') (pad_loop (s - length fp) n)) (\<lambda>u.
        if 10 ^ p \<le> u then Inl (bad column ''numeric'') else Inr (Some (if neg then - u else u))))
    = (if ?v < 10 ^ p then Inr (Some (if neg then - ?v else ?v)) else Inl (bad column ''numeric''))"
  proof (cases "?v < 10 ^ p")
    case True
    let ?n = "int (digits_val (ip @ ?keep))"
    have "?n * 1 \<le> ?n * 10 ^ (s - length fp)" by (intro mult_left_mono) auto
    then have "?n \<le> I128_MAX" "?v \<le> I128_MAX" using True lim big by (simp_all add: unscaled_value_def)
    then have "unscaled_loop (ip @ ?keep) 0 = Some ?n" "pad_loop (s - length fp) ?n = Some ?v"
      using unscaled_loop_Some[of 0 "ip @ ?keep"] pad_loop_Some[of ?n "s - length fp"]
      by (simp_all add: unscaled_value_def)
    then show ?thesis using True by simp
  next
    case False
    have "10 ^ p \<le> u" if "unscaled_loop (ip @ ?keep) 0 = Some n" "pad_loop (s - length fp) n = Some u" for n u
      using unscaled_loop_big[OF _ that(1)] pad_loop_big[OF that(2)] False by (simp add: unscaled_value_def)
    then show ?thesis using False
      by (cases "unscaled_loop (ip @ ?keep) 0"; cases "pad_loop (s - length fp) (the (unscaled_loop (ip @ ?keep) 0))")
        auto
  qed
  show ?thesis
    using assms(1-3) main
    by (auto simp: decimal_digits_def Let_def keep pad w surplus simp del: take_append)
qed


text \<open>A decimal text without an exponent: a sign or none, digits, and a point with digits or none.\<close>

definition decimal_text :: "bytes \<Rightarrow> bytes \<Rightarrow> bytes option \<Rightarrow> bytes" where
  "decimal_text sign ip fp =
     sign @ ip @ (case fp of None \<Rightarrow> [] | Some f \<Rightarrow> CHR ''.'' # f)"

definition fraction :: "bytes option \<Rightarrow> bytes" where
  "fraction fp = (case fp of None \<Rightarrow> [] | Some f \<Rightarrow> f)"

lemma digit_facts: "is_ascii_digit c \<Longrightarrow> solid c \<and> c \<noteq> CHR ''.'' \<and> c \<noteq> CHR ''-'' \<and> c \<noteq> CHR ''+'' \<and> c \<noteq> CHR ''e''
    \<and> c \<noteq> CHR ''E'' \<and> c \<noteq> CHR ''N'' \<and> c \<noteq> CHR '':'' \<and> c \<noteq> CHR '' '' \<and> c \<noteq> CHR ''i'' \<and> c \<noteq> CHR ''C''"
  by (auto simp: byte_defs)

lemma solid_signs: "solid (CHR ''-'')" "solid (CHR ''+'')" "solid (CHR ''.'')" "solid (CHR '':'')"
  by (simp_all add: byte_defs)

lemma parse_decimal_text:
  assumes "sign \<in> {[], ''-'', ''+''}" "list_all is_ascii_digit ip" "list_all is_ascii_digit (fraction fp)"
    "ip \<noteq> [] \<or> fraction fp \<noteq> []"
  shows "parse_decimal (decimal_text sign ip fp) p scale column
    = decimal_digits (sign = ''-'') ip (fraction fp) p scale column"
proof -
  let ?body = "ip @ (case fp of None \<Rightarrow> [] | Some f \<Rightarrow> CHR ''.'' # f)"
  have body: "c \<in> set ?body \<Longrightarrow> is_ascii_digit c \<or> c = CHR ''.''" for c
    using assms(2,3) by (auto simp: list_all_iff fraction_def split: option.splits)
  have sol: "c \<in> set (decimal_text sign ip fp) \<Longrightarrow> solid c" for c
    using assms(1) body digit_facts solid_signs by (auto simp: decimal_text_def)
  have tr: "trim (decimal_text sign ip fp) = decimal_text sign ip fp"
    "utf8_valid (decimal_text sign ip fp)"
    using sol by (auto intro: trim_all_solid utf8_valid_all_solid)
  have ne: "?body \<noteq> []" using assms(4) by (auto simp: fraction_def split: option.splits)
  have hd: "hd ?body \<noteq> CHR ''-''" "hd ?body \<noteq> CHR ''+''"
    using body[OF hd_in_set[OF ne]] digit_facts by auto
  have sg: "split_sign (decimal_text sign ip fp) = (sign = ''-'', ?body)"
  proof -
    consider "sign = []" | "sign = ''-''" | "sign = ''+''" using assms(1) by auto
    then show ?thesis
    proof cases
      case 1
      then show ?thesis using hd ne by (cases ?body) (simp_all add: decimal_text_def split_sign_def)
    qed (simp_all add: decimal_text_def split_sign_def)
  qed
  have "CHR ''N'' \<notin> set (decimal_text sign ip fp)"
    using assms(1) body digit_facts by (fastforce simp: decimal_text_def)
  then have nan: "decimal_text sign ip fp \<noteq> ''NaN''" by auto
  have ex: "\<not> list_ex (\<lambda>b. b = CHR ''e'' \<or> b = CHR ''E'') ?body"
    using body digit_facts by (fastforce simp: list_ex_iff)
  have nodot: "CHR ''.'' \<notin> set ip" using assms(2) digit_facts by (auto simp: list_all_iff)
  show ?thesis
  proof (cases fp)
    case None
    then show ?thesis
      using tr sg nan ex ne nodot by (simp add: parse_decimal_def text_of_def fraction_def Let_def)
  next
    case (Some f)
    then show ?thesis
      using tr sg nan ex ne nodot
      by (simp add: parse_decimal_def text_of_def fraction_def Let_def find_byte_here)
  qed
qed


subsection \<open>Dates and times from their parts\<close>

definition two :: "int \<Rightarrow> bytes" where
  "two n = [digit_char (nat (n div 10)), digit_char (nat (n mod 10))]"

lemma two_digits:
  assumes "0 \<le> n" "n < 100"
  shows "list_all is_ascii_digit (two n)" "int (digits_val (two n)) = n" "length (two n) = 2" "two n \<noteq> []"
proof -
  have b: "nat (n div 10) < 10" "nat (n mod 10) < 10" using assms by linarith+
  have "digits_val ([digit_char (nat (n div 10))] @ [digit_char (nat (n mod 10))])
      = digits_val ([] @ [digit_char (nat (n div 10))]) * 10 + nat (n mod 10)"
    using b by (simp only: digits_val_snoc digit_val_char append_Nil)
  also have "digits_val ([] @ [digit_char (nat (n div 10))]) = nat (n div 10)"
    using b by (simp only: digits_val_snoc digit_val_char digits_val_Nil)
  also have "nat (n div 10) * 10 + nat (n mod 10) = nat n"
    using assms by (simp add: nat_div_distrib nat_mod_distrib)
  finally show "int (digits_val (two n)) = n" using assms by (simp add: two_def)
qed (use assms in \<open>auto simp: two_def\<close>)

lemma parse_signed_digits:
  assumes "list_all is_ascii_digit ds" "ds \<noteq> []" "lo \<le> 0" "int (digits_val ds) \<le> hi"
  shows "parse_signed lo hi ds = Some (int (digits_val ds))"
proof -
  obtain c r where ds: "ds = c # r" using assms(2) by (cases ds) auto
  have "c \<noteq> CHR ''-''" "c \<noteq> CHR ''+''" using assms(1) ds digit_facts by auto
  then show ?thesis using assms ds by (simp add: parse_signed_def parse_nat_def)
qed

lemma parse_int64_digits:
  "list_all is_ascii_digit ds \<Longrightarrow> ds \<noteq> [] \<Longrightarrow> int (digits_val ds) \<le> I64_MAX \<Longrightarrow>
     parse_int64 ds = Some (int (digits_val ds))"
  by (simp add: parse_int64_def parse_signed_digits I64_MIN_def)

lemma parse_int64_two: "0 \<le> n \<Longrightarrow> n < 100 \<Longrightarrow> parse_int64 (two n) = Some n"
  using parse_int64_digits[OF two_digits(1), of n] two_digits[of n] by (simp add: I64_MAX_def)

lemma digits_notin: "list_all is_ascii_digit ds \<Longrightarrow> \<not> is_ascii_digit c \<Longrightarrow> c \<notin> set ds"
  by (auto simp: list_all_iff)

lemma not_digit_chars [simp]:
  "\<not> is_ascii_digit (CHR ''-'')" "\<not> is_ascii_digit (CHR ''+'')" "\<not> is_ascii_digit (CHR '':'')"
  "\<not> is_ascii_digit (CHR ''.'')" "\<not> is_ascii_digit (CHR '' '')" "\<not> is_ascii_digit (CHR ''C'')"
  "\<not> is_ascii_digit (CHR ''i'')"
  by (simp_all add: byte_defs)

definition date_text :: "bytes \<Rightarrow> int \<Rightarrow> int \<Rightarrow> bytes" where
  "date_text ys m d = ys @ CHR ''-'' # two m @ CHR ''-'' # two d"

text \<open>What a written date must satisfy: a year in digits, a month and a day in range.\<close>

definition date_ok :: "bytes \<Rightarrow> int \<Rightarrow> int \<Rightarrow> bool" where
  "date_ok ys m d \<longleftrightarrow> ys \<noteq> [] \<and> list_all is_ascii_digit ys \<and> digits_val ys \<le> 4999999
     \<and> 1 \<le> m \<and> m \<le> 12 \<and> 1 \<le> d \<and> d \<le> 31"

lemma civil_parts_text:
  assumes "date_ok ys m d"
  shows "civil_parts (date_text ys m d) = Some (int (digits_val ys), m, d)"
proof -
  have a: "ys \<noteq> []" "list_all is_ascii_digit ys" "1 \<le> m" "m \<le> 12" "1 \<le> d" "d \<le> 31"
    "digits_val ys \<le> 4999999" using assms by (simp_all add: date_ok_def)
  have n: "CHR ''-'' \<notin> set ys" "CHR ''-'' \<notin> set (two m)" "CHR ''-'' \<notin> set (two d)"
    using a digits_notin two_digits(1) by (simp_all add: digits_notin)
  have "splitn 3 (CHR ''-'') (date_text ys m d) = [ys, two m, two d]"
    using n by (simp add: date_text_def numeral_3_eq_3 find_byte_here)
  then show ?thesis
    using a two_digits(3)[of m] two_digits(3)[of d] parse_int64_two[of m] parse_int64_two[of d]
      parse_int64_digits[OF a(2,1)]
    by (simp add: civil_parts_def I64_MAX_def)
qed

lemma days_to_march_bounds: "- 368 * \<bar>y\<bar> - 3 \<le> days_to_march y" "days_to_march y \<le> 368 * \<bar>y\<bar> + 3"
proof -
  have "y = 4 * (y div 4) + y mod 4" "y = 100 * (y div 100) + y mod 100" "y = 400 * (y div 400) + y mod 400"
    by simp_all
  moreover have "0 \<le> y mod 4" "y mod 4 < 4" "0 \<le> y mod 100" "y mod 100 < 100" "0 \<le> y mod 400" "y mod 400 < 400"
    by simp_all
  ultimately show "- 368 * \<bar>y\<bar> - 3 \<le> days_to_march y" "days_to_march y \<le> 368 * \<bar>y\<bar> + 3"
    unfolding days_to_march_def by linarith+
qed

lemma march_days_bounds: "1 \<le> m \<Longrightarrow> m \<le> 12 \<Longrightarrow> 0 \<le> march_days ((m + 9) mod 12) \<and> march_days ((m + 9) mod 12) \<le> 337"
  using twelve_months[of m] by (auto simp: march_days_def)

lemma days_bounds:
  assumes "-5000000 \<le> y" "y \<le> 5000000" "1 \<le> m" "m \<le> 12" "1 \<le> d" "d \<le> 31"
  shows "-2147483648 \<le> days_from_civil y m d" "days_from_civil y m d \<le> 2147483647"
    and "0 \<le> y \<Longrightarrow> MIN_SUPPORTED_DAY \<le> days_from_civil y m d"
proof -
  define Y where "Y = (if m \<le> 2 then y - 1 else y)"
  define k where "k = march_days ((m + 9) mod 12)"
  have eq: "days_from_civil y m d = days_to_march Y + k + d - 719469"
    unfolding Y_def k_def by (rule days_from_civil_eq) (use assms in \<open>auto simp: sane_year_def\<close>)
  have k: "0 \<le> k" "k \<le> 337" using march_days_bounds[OF assms(3,4)] by (simp_all add: k_def)
  have Y: "\<bar>Y\<bar> \<le> 5000001" "0 \<le> y \<Longrightarrow> -1 \<le> Y" using assms by (auto simp: Y_def)
  note b = days_to_march_bounds[of Y]
  show "-2147483648 \<le> days_from_civil y m d" "days_from_civil y m d \<le> 2147483647"
    using eq k Y(1) b assms(5,6) by linarith+
  show "MIN_SUPPORTED_DAY \<le> days_from_civil y m d" if "0 \<le> y"
  proof (cases "0 \<le> Y")
    case True
    then have "0 \<le> Y div 4" "Y div 100 \<le> Y" "0 \<le> Y div 400"
      using days_to_march_bounds by (auto simp: pos_imp_zdiv_nonneg_iff intro: zdiv_mono2[of Y 1 100, simplified])
    then show ?thesis using True eq k assms(5) by (simp add: MIN_SUPPORTED_DAY_def days_to_march_def)
  next
    case False
    then have "Y = -1" using Y(2) that by simp
    then show ?thesis using eq k assms(5) by (simp add: MIN_SUPPORTED_DAY_def days_to_march_def)
  qed
qed

definition era_suffix :: "bool \<Rightarrow> bytes" where
  "era_suffix bc = (if bc then '' BC'' else [])"

definition civil_year :: "bytes \<Rightarrow> bool \<Rightarrow> int" where
  "civil_year ys bc = (if bc then 1 - int (digits_val ys) else int (digits_val ys))"

lemma split_era_suffix:
  assumes "s \<noteq> []" "is_ascii_digit (last s)"
  shows "split_era (s @ era_suffix bc) = (s, bc)"
proof (cases bc)
  case True
  have "trim_end s = s" using assms digit_solid by (intro trim_end_solid) auto
  then show ?thesis using True by (simp add: split_era_def era_suffix_def)
next
  case False
  have "\<not> ends_with s '' BC''"
  proof
    assume "ends_with s '' BC''"
    then obtain u where "s = u @ '' BC''" by (rule ends_withE)
    then show False using assms(2) by simp
  qed
  then show ?thesis using False by (simp add: split_era_def era_suffix_def)
qed


lemma date_text_chars:
  assumes "date_ok ys m d"
  shows "c \<in> set (date_text ys m d) \<Longrightarrow> is_ascii_digit c \<or> c = CHR ''-''"
    "date_text ys m d \<noteq> []" "is_ascii_digit (last (date_text ys m d))" "is_ascii_digit (hd (date_text ys m d))"
proof -
  have a: "ys \<noteq> []" "list_all is_ascii_digit ys" "list_all is_ascii_digit (two m)" "list_all is_ascii_digit (two d)"
    using assms two_digits(1) by (auto simp: date_ok_def)
  then show "c \<in> set (date_text ys m d) \<Longrightarrow> is_ascii_digit c \<or> c = CHR ''-''"
    by (auto simp: date_text_def list_all_iff)
  show "date_text ys m d \<noteq> []" by (simp add: date_text_def)
  show "is_ascii_digit (last (date_text ys m d))" using a(4) by (simp add: date_text_def two_def)
  show "is_ascii_digit (hd (date_text ys m d))" using a(1,2) by (cases ys) (simp_all add: date_text_def)
qed

lemma dash_ascii: "is_ascii_byte (CHR ''-'')"
  by (simp add: byte_defs)

lemma era_chars: "c \<in> set (era_suffix bc) \<Longrightarrow> is_ascii_byte c"
  by (auto simp: era_suffix_def byte_defs)

lemma era_text_trim:
  assumes "s \<noteq> []" "solid (hd s)" "solid (last s)"
  shows "trim (s @ era_suffix bc) = s @ era_suffix bc"
  by (rule trim_solid) (use assms in \<open>auto simp: era_suffix_def byte_defs\<close>)

lemma not_infinity:
  assumes "s \<noteq> []" "is_ascii_digit (hd s)"
  shows "s @ t \<noteq> ''infinity''" "s @ t \<noteq> ''-infinity''"
  using assms by (cases s; auto)+

lemma parse_date_text:
  assumes "date_ok ys m d"
  shows "parse_date (date_text ys m d @ era_suffix bc) column
    = Inr (Some (days_from_civil (civil_year ys bc) m d))"
proof -
  note c = date_text_chars[OF assms]
  have sol: "solid (hd (date_text ys m d))" "solid (last (date_text ys m d))" using c digit_solid by blast+
  have v: "utf8_valid (date_text ys m d @ era_suffix bc)"
    by (rule utf8_valid_ascii) (auto dest!: c(1) intro: is_ascii_digit_ascii era_chars simp: dash_ascii)
  have nonneg: "bc \<or> 0 \<le> civil_year ys bc" by (simp add: civil_year_def)
  have y: "-4999998 \<le> civil_year ys bc" "civil_year ys bc \<le> 4999999" and "1 \<le> m" "m \<le> 12" "1 \<le> d" "d \<le> 31"
    using assms by (auto simp: civil_year_def date_ok_def)
  then have b: "-2147483648 \<le> days_from_civil (civil_year ys bc) m d" "days_from_civil (civil_year ys bc) m d \<le> 2147483647"
    "days_from_civil (civil_year ys bc) m d < MIN_SUPPORTED_DAY \<Longrightarrow> bc"
    using days_bounds[of "civil_year ys bc" m d] nonneg by (auto simp: not_less)
  have w: "(if bc then i64 (1 - int (digits_val ys)) else int (digits_val ys)) = civil_year ys bc"
    using y by (auto simp: civil_year_def i64_id I64_MIN_def I64_MAX_def)
  show ?thesis
    using v b not_infinity[OF c(2,4), of "era_suffix bc"]
    by (auto simp: parse_date_def text_of_def era_text_trim[OF c(2) sol] split_era_suffix[OF c(2,3)]
        civil_parts_text[OF assms] w Let_def)
qed

text \<open>A time of day: hours, minutes, seconds, and the digits of a fraction or none.\<close>

definition time_text :: "int \<Rightarrow> int \<Rightarrow> int \<Rightarrow> bytes \<Rightarrow> bytes" where
  "time_text h mi s frac =
     two h @ CHR '':'' # two mi @ CHR '':'' # two s @ (if frac = [] then [] else CHR ''.'' # frac)"

definition time_ok :: "int \<Rightarrow> int \<Rightarrow> int \<Rightarrow> bytes \<Rightarrow> bool" where
  "time_ok h mi s frac \<longleftrightarrow> 0 \<le> h \<and> h \<le> 24 \<and> 0 \<le> mi \<and> mi < 60 \<and> 0 \<le> s \<and> s \<le> 60
     \<and> length frac \<le> 6 \<and> list_all is_ascii_digit frac"

definition micros_of :: "int \<Rightarrow> int \<Rightarrow> int \<Rightarrow> bytes \<Rightarrow> int" where
  "micros_of h mi s frac =
     (h * 3600 + mi * 60 + s) * 1000000 + int (digits_val frac) * 10 ^ (6 - length frac)"

lemma digits_val_bound: "list_all is_ascii_digit s \<Longrightarrow> digits_val s < 10 ^ length s"
proof (induction s)
  case (Cons c s)
  then have "digit_val c \<le> 9" "digits_val s < 10 ^ length s" by (auto simp: digit_val_def byte_defs)
  then have "digit_val c * 10 ^ length s + digits_val s < 9 * 10 ^ length s + 10 ^ length s"
    by (intro add_le_less_mono mult_right_mono) auto
  then show ?case by (simp add: digits_val_Cons)
qed simp

lemma frac_micros_digits:
  assumes "length frac \<le> 6" "list_all is_ascii_digit frac"
  shows "frac_micros frac = Some (int (digits_val frac) * 10 ^ (6 - length frac))"
proof (cases "frac = []")
  case False
  have "digits_val frac < 10 ^ 6"
    using digits_val_bound[OF assms(2)] power_increasing[OF assms(1), of "10::nat"] by linarith
  then have "parse_int64 frac = Some (int (digits_val frac))"
    by (intro parse_int64_digits[OF assms(2) False]) (simp add: I64_MAX_def)
  then show ?thesis using assms False by (simp add: frac_micros_def)
qed (simp add: frac_micros_def)

lemma time_micros_text:
  assumes "time_ok h mi s frac"
  shows "time_micros (time_text h mi s frac) = Some (micros_of h mi s frac)"
proof -
  have r: "0 \<le> h" "h < 100" "h \<le> 24" "0 \<le> mi" "mi < 60" "0 \<le> s" "s \<le> 60" "length frac \<le> 6" "list_all is_ascii_digit frac"
    using assms by (auto simp: time_ok_def)
  let ?hms = "two h @ CHR '':'' # two mi @ CHR '':'' # two s"
  have d: "list_all is_ascii_digit (two h)" "list_all is_ascii_digit (two mi)" "list_all is_ascii_digit (two s)"
    using r two_digits(1) by auto
  have n: "CHR '':'' \<notin> set (two h)" "CHR '':'' \<notin> set (two mi)" "CHR '':'' \<notin> set (two s)" "CHR ''.'' \<notin> set ?hms"
    using d by (auto simp: digits_notin)
  have sp: "splitn 3 (CHR '':'') ?hms = [two h, two mi, two s]"
    using n by (simp add: numeral_3_eq_3 find_byte_here)
  have parts: "(case find_byte (CHR ''.'') (time_text h mi s frac) of
        Some i \<Rightarrow> (take i (time_text h mi s frac), drop (i + 1) (time_text h mi s frac))
      | None \<Rightarrow> (time_text h mi s frac, [])) = (?hms, frac)"
  proof (cases "frac = []")
    case True
    then show ?thesis using n(4) by (simp add: time_text_def)
  next
    case False
    define hms where "hms = ?hms"
    have "time_text h mi s frac = hms @ CHR ''.'' # frac" using False by (simp add: time_text_def hms_def)
    moreover have "CHR ''.'' \<notin> set hms" using n(4) unfolding hms_def .
    ultimately show ?thesis unfolding hms_def[symmetric] by (simp add: find_byte_here)
  qed
  show ?thesis
    using r parse_int64_two[of h] parse_int64_two[of mi] parse_int64_two[of s] frac_micros_digits[OF r(8,9)]
    by (simp add: time_micros_def parts sp micros_of_def MICROS_PER_SEC_def Let_def)
qed


text \<open>An offset from UTC: a sign, hours, and minutes or none.\<close>

definition offset_text :: "bool \<Rightarrow> int \<Rightarrow> int option \<Rightarrow> bytes" where
  "offset_text west oh om =
     (if west then CHR ''-'' else CHR ''+'') # two oh @ (case om of None \<Rightarrow> [] | Some m \<Rightarrow> CHR '':'' # two m)"

definition offset_ok :: "int \<Rightarrow> int option \<Rightarrow> bool" where
  "offset_ok oh om \<longleftrightarrow> 0 \<le> oh \<and> oh < 100 \<and> (case om of None \<Rightarrow> True | Some m \<Rightarrow> 0 \<le> m \<and> m < 60)"

definition offset_of :: "bool \<Rightarrow> int \<Rightarrow> int option \<Rightarrow> int" where
  "offset_of west oh om =
     (if west then -1 else 1) * (oh * 3600 + (case om of None \<Rightarrow> 0 | Some m \<Rightarrow> m) * 60) * 1000000"

lemma time_text_chars:
  assumes "time_ok h mi s frac"
  shows "c \<in> set (time_text h mi s frac) \<Longrightarrow> is_ascii_digit c \<or> c = CHR '':'' \<or> c = CHR ''.''"
    "time_text h mi s frac \<noteq> []" "is_ascii_digit (hd (time_text h mi s frac))"
    "is_ascii_digit (last (time_text h mi s frac))"
proof -
  have d: "list_all is_ascii_digit (two h)" "list_all is_ascii_digit (two mi)" "list_all is_ascii_digit (two s)"
    "list_all is_ascii_digit frac" using assms two_digits(1) by (auto simp: time_ok_def)
  then show "c \<in> set (time_text h mi s frac) \<Longrightarrow> is_ascii_digit c \<or> c = CHR '':'' \<or> c = CHR ''.''"
    by (auto simp: time_text_def list_all_iff split: if_splits)
  show "time_text h mi s frac \<noteq> []" by (simp add: time_text_def)
  show "is_ascii_digit (hd (time_text h mi s frac))" using d(1) by (simp add: time_text_def two_def)
  show "is_ascii_digit (last (time_text h mi s frac))"
    using d(3,4) by (cases frac rule: rev_cases) (auto simp: time_text_def two_def)
qed

lemma offset_micros_small:
  assumes "offset_ok oh om"
  shows "offset_micros (if west then -1 else 1) oh (case om of None \<Rightarrow> 0 | Some m \<Rightarrow> m) 0 = offset_of west oh om"
proof -
  define m where "m = (case om of None \<Rightarrow> 0 | Some m \<Rightarrow> m)"
  have b: "0 \<le> oh" "oh < 100" "0 \<le> m" "m < 60" using assms by (auto simp: offset_ok_def m_def split: option.splits)
  have "i64 (oh * 3600) = oh * 3600" "i64 (m * 60) = m * 60" "i64 (oh * 3600 + m * 60) = oh * 3600 + m * 60"
    "i64 (- (oh * 3600 + m * 60)) = - (oh * 3600 + m * 60)"
    "i64 ((oh * 3600 + m * 60) * 1000000) = (oh * 3600 + m * 60) * 1000000"
    "i64 (- (oh * 3600 + m * 60) * 1000000) = - (oh * 3600 + m * 60) * 1000000"
    using b by (auto intro!: i64_id simp: I64_MIN_def I64_MAX_def)
  then show ?thesis
    unfolding m_def[symmetric] offset_of_def offset_micros_def MICROS_PER_SEC_def by (cases west) simp_all
qed

lemma rfind_sign_offset:
  assumes "CHR ''+'' \<notin> set u" "CHR ''-'' \<notin> set u" "CHR ''+'' \<notin> set v" "CHR ''-'' \<notin> set v"
  shows "rfind_sign (u @ (if west then CHR ''-'' else CHR ''+'') # v) = Some (length u)"
proof -
  have last: "rfind_byte c (u @ c # v) = Some (length u)" if "c \<notin> set v" for c
    using that by (simp add: rfind_byte_def find_byte_here)
  show ?thesis using assms by (cases west) (simp_all add: rfind_sign_def last)
qed

lemma split_offset_text:
  assumes "CHR '' '' \<notin> set dt" "time_ok h mi s frac" "offset_ok oh om"
  shows "split_offset (dt @ CHR '' '' # time_text h mi s frac @ offset_text west oh om)
    = (dt @ CHR '' '' # time_text h mi s frac, Some (offset_of west oh om))"
proof -
  define t where "t = time_text h mi s frac"
  define v where "v = two oh @ (case om of None \<Rightarrow> [] | Some m \<Rightarrow> CHR '':'' # two m)"
  define sg where "sg = (if west then CHR ''-'' else CHR ''+'')"
  define pre where "pre = dt @ CHR '' '' # t"
  have om: "0 \<le> oh" "oh < 100" "\<And>m. om = Some m \<Longrightarrow> 0 \<le> m \<and> m < 100"
    using assms(3) by (auto simp: offset_ok_def)
  have dv: "list_all is_ascii_digit (two oh)" "\<And>m. om = Some m \<Longrightarrow> list_all is_ascii_digit (two m)"
    using two_digits(1) om by auto
  have tn: "CHR ''+'' \<notin> set t" "CHR ''-'' \<notin> set t"
    using time_text_chars(1)[OF assms(2)] unfolding t_def by fastforce+
  have vn: "CHR ''+'' \<notin> set v" "CHR ''-'' \<notin> set v"
    using dv by (auto simp: v_def digits_notin split: option.splits)
  have whole: "dt @ CHR '' '' # time_text h mi s frac @ offset_text west oh om = pre @ sg # v"
    by (simp add: t_def v_def sg_def pre_def offset_text_def)
  have sp: "find_byte (CHR '' '') (pre @ sg # v) = Some (length dt)"
    using assms(1) by (simp add: pre_def find_byte_here)
  have "drop (length dt + 1) (pre @ sg # v) = t @ sg # v" by (simp add: pre_def)
  then have rf: "rfind_sign (drop (length dt + 1) (pre @ sg # v)) = Some (length t)"
    using rfind_sign_offset[OF tn vn, of west] by (simp add: sg_def)
  have here: "length dt + 1 + length t = length pre" by (simp add: pre_def)
  have colon: "CHR '':'' \<notin> set (two oh)" "\<And>m. om = Some m \<Longrightarrow> CHR '':'' \<notin> set (two m)"
    using dv by (auto simp: digits_notin)
  have parts: "split_on (CHR '':'') v = two oh # (case om of None \<Rightarrow> [] | Some m \<Rightarrow> [two m])"
    using colon by (auto simp: v_def split_on_sep split: option.splits)
  have hours: "parse_int64 (two oh) = Some oh" using om by (simp add: parse_int64_two)
  have op: "offset_part (case om of None \<Rightarrow> [] | Some m \<Rightarrow> [two m]) = (case om of None \<Rightarrow> 0 | Some m \<Rightarrow> m)"
    "offset_part (tl (case om of None \<Rightarrow> [] | Some m \<Rightarrow> [two m])) = 0"
    using om(3) by (auto simp: parse_int64_two split: option.splits)
  have sgn: "(if sg = CHR ''-'' then -1 else 1 :: int) = (if west then -1 else 1)" by (simp add: sg_def)
  have "split_offset (pre @ sg # v) = (pre, Some (offset_of west oh om))"
    unfolding split_offset_def sp option.case rf Let_def here
    by (simp add: parts hours op sgn offset_micros_small[OF assms(3)])
  then show ?thesis unfolding whole by (simp add: pre_def t_def)
qed


text \<open>
  A timestamp as PostgreSQL writes it: a date, a space, a time, an offset when the type has one, and
  the era.
\<close>

definition stamp_text :: "bytes \<Rightarrow> int \<Rightarrow> int \<Rightarrow> bytes \<Rightarrow> bytes \<Rightarrow> bool \<Rightarrow> bytes" where
  "stamp_text ys m d time offset bc = (date_text ys m d @ CHR '' '' # time @ offset) @ era_suffix bc"

lemma utc_micros_small:
  assumes "\<bar>y\<bar> \<le> 280000" "1 \<le> m" "m \<le> 12" "1 \<le> d" "d \<le> 31"
    "0 \<le> micros" "micros \<le> 100000000000" "\<bar>off\<bar> \<le> 1000000000000"
    "off = (case offset of Some x \<Rightarrow> x | None \<Rightarrow> 0)"
  shows "utc_micros (days_from_civil y m d) micros offset
    = Some (days_from_civil y m d * MICROS_PER_DAY + micros - off)"
proof -
  have "\<bar>days_from_civil y m d\<bar> \<le> 104000000"
  proof -
    define Y where "Y = (if m \<le> 2 then y - 1 else y)"
    define k where "k = march_days ((m + 9) mod 12)"
    have "days_from_civil y m d = days_to_march Y + k + d - 719469"
      unfolding Y_def k_def by (rule days_from_civil_eq) (use assms in \<open>auto simp: sane_year_def\<close>)
    moreover have "0 \<le> k" "k \<le> 337" using march_days_bounds[OF assms(2,3)] by (simp_all add: k_def)
    moreover have "\<bar>Y\<bar> \<le> 280001" using assms(1) by (auto simp: Y_def)
    ultimately show ?thesis using days_to_march_bounds[of Y] assms(4,5) by linarith
  qed
  then have "checked64 (days_from_civil y m d * MICROS_PER_DAY) = Some (days_from_civil y m d * MICROS_PER_DAY)"
    "checked64 (days_from_civil y m d * MICROS_PER_DAY + micros) = Some (days_from_civil y m d * MICROS_PER_DAY + micros)"
    "checked64 (days_from_civil y m d * MICROS_PER_DAY + micros - off)
      = Some (days_from_civil y m d * MICROS_PER_DAY + micros - off)"
    using assms(6-8) by (auto simp: checked64_def I64_MIN_def I64_MAX_def MICROS_PER_DAY_def MICROS_PER_SEC_def)
  then show ?thesis using assms(9) by (simp add: utc_micros_def)
qed

lemma micros_of_bounds:
  assumes "time_ok h mi s frac"
  shows "0 \<le> micros_of h mi s frac" "micros_of h mi s frac \<le> 100000000000"
proof -
  have "list_all is_ascii_digit frac" "length frac \<le> 6" and t: "0 \<le> h" "h \<le> 24" "0 \<le> mi" "mi < 60" "0 \<le> s" "s \<le> 60"
    using assms by (auto simp: time_ok_def)
  then have "digits_val frac * 10 ^ (6 - length frac) < 10 ^ length frac * 10 ^ (6 - length frac)"
    using digits_val_bound by (intro mult_less_mono1) auto
  also have "\<dots> = 10 ^ 6" using \<open>length frac \<le> 6\<close> by (simp flip: power_add)
  finally have "int (digits_val frac * 10 ^ (6 - length frac)) < int (10 ^ 6)" by (simp only: of_nat_less_iff)
  then have "int (digits_val frac) * 10 ^ (6 - length frac) < 1000000" by simp
  moreover have "0 \<le> int (digits_val frac) * 10 ^ (6 - length frac)" by simp
  moreover have "(h * 3600 + mi * 60 + s) * 1000000 \<le> 90000 * 1000000" "0 \<le> (h * 3600 + mi * 60 + s) * 1000000"
    using t by simp_all
  ultimately show "0 \<le> micros_of h mi s frac" "micros_of h mi s frac \<le> 100000000000"
    unfolding micros_of_def MICROS_PER_SEC_def by simp_all
qed

lemma offset_text_end:
  assumes "offset_ok oh om"
  shows "offset_text west oh om \<noteq> []" "is_ascii_digit (last (offset_text west oh om))"
    "c \<in> set (offset_text west oh om) \<Longrightarrow> is_ascii_digit c \<or> c \<in> {CHR ''-'', CHR ''+'', CHR '':''}"
proof -
  have b: "0 \<le> oh" "oh < 100" "\<And>m. om = Some m \<Longrightarrow> 0 \<le> m \<and> m < 100"
    using assms by (auto simp: offset_ok_def)
  have d: "list_all is_ascii_digit (two oh)" "\<And>m. om = Some m \<Longrightarrow> list_all is_ascii_digit (two m)"
    using two_digits(1) b by auto
  show "offset_text west oh om \<noteq> []" by (simp add: offset_text_def)
  show "is_ascii_digit (last (offset_text west oh om))"
    using d by (cases om) (auto simp: offset_text_def two_def)
  show "c \<in> set (offset_text west oh om) \<Longrightarrow> is_ascii_digit c \<or> c \<in> {CHR ''-'', CHR ''+'', CHR '':''}"
    using d by (auto simp: offset_text_def list_all_iff split: option.splits if_splits)
qed

lemma sign_ascii: "is_ascii_byte (CHR ''+'')" "is_ascii_byte (CHR '':'')" "is_ascii_byte (CHR ''.'')" "is_ascii_byte (CHR '' '')"
  by (simp_all add: byte_defs)

lemma parse_timestamp_text:
  assumes "date_ok ys m d" "time_ok h mi s frac" "\<bar>civil_year ys bc\<bar> \<le> 280000"
    and "case off of None \<Rightarrow> True | Some (west, oh, om) \<Rightarrow> tz \<and> offset_ok oh om"
    and "off = None \<longrightarrow> \<not> tz"
  shows "parse_timestamp (stamp_text ys m d (time_text h mi s frac)
      (case off of None \<Rightarrow> [] | Some (west, oh, om) \<Rightarrow> offset_text west oh om) bc) tz column
    = Inr (Some (days_from_civil (civil_year ys bc) m d * MICROS_PER_DAY + micros_of h mi s frac
        - (case off of None \<Rightarrow> 0 | Some (west, oh, om) \<Rightarrow> offset_of west oh om)))"
proof -
  define ot where "ot = (case off of None \<Rightarrow> [] | Some (west, oh, om) \<Rightarrow> offset_text west oh om)"
  define ov where "ov = (case off of None \<Rightarrow> None | Some (west, oh, om) \<Rightarrow> Some (offset_of west oh om))"
  let ?dt = "date_text ys m d" and ?t = "time_text h mi s frac"
  let ?body = "?dt @ CHR '' '' # ?t"
  note dc = date_text_chars[OF assms(1)] and tc = time_text_chars[OF assms(2)]
  have oc1: "ot = [] \<or> is_ascii_digit (last ot)"
    using offset_text_end(2) assms(4) by (auto simp: ot_def split: option.splits prod.splits)
  have oc2: "is_ascii_digit c \<or> c \<in> {CHR ''-'', CHR ''+'', CHR '':''}" if "c \<in> set ot" for c
  proof (cases off)
    case (Some q)
    obtain west oh om where "q = (west, oh, om)" by (cases q)
    then show ?thesis using that Some assms(4) offset_text_end(3)[of oh om c west] by (simp add: ot_def)
  qed (use that in \<open>simp add: ot_def\<close>)
  note oc = oc1 oc2
  let ?s = "?dt @ CHR '' '' # ?t @ ot"
  have s: "?s \<noteq> []" "is_ascii_digit (hd ?s)" "is_ascii_digit (last ?s)"
    using dc(2,4) tc(2,4) oc(1) by (cases "ot = []"; simp)+
  have sol: "solid (hd ?s)" "solid (last ?s)" using s digit_solid by blast+
  have v: "utf8_valid (?s @ era_suffix bc)"
    by (rule utf8_valid_ascii)
      (auto dest!: dc(1) tc(1) oc(2) intro: is_ascii_digit_ascii era_chars simp: dash_ascii sign_ascii)
  have nosp: "CHR '' '' \<notin> set ?dt" using dc(1) by fastforce
  have body: "(if tz then split_offset ?s else (?s, None)) = (?body, ov)"
    using split_offset_text[OF nosp assms(2)] assms(4,5)
    by (cases off) (auto simp: ot_def ov_def split: prod.splits)
  have sp: "split_space ?body = (?dt, ?t)"
    using nosp by (simp add: split_space_def find_byte_here)
  have tt: "trim ?t = ?t" using tc(2,3,4) digit_solid by (intro trim_solid) blast
  have y: "i64 (1 - int (digits_val ys)) = 1 - int (digits_val ys)"
    using assms(1) by (intro i64_id) (auto simp: date_ok_def I64_MIN_def I64_MAX_def)
  have w: "(if bc then i64 (1 - int (digits_val ys)) else int (digits_val ys)) = civil_year ys bc"
    unfolding y by (simp add: civil_year_def)
  have ob: "\<bar>case ov of Some x \<Rightarrow> x | None \<Rightarrow> 0\<bar> \<le> 1000000000000"
    using assms(4) by (auto simp: ov_def offset_of_def offset_ok_def abs_mult split: option.splits prod.splits)
  have md: "1 \<le> m" "m \<le> 12" "1 \<le> d" "d \<le> 31" using assms(1) by (auto simp: date_ok_def)
  note um = utc_micros_small[OF assms(3) md micros_of_bounds[OF assms(2)] ob refl]
  have "parse_timestamp (?s @ era_suffix bc) tz column
    = Inr (Some (days_from_civil (civil_year ys bc) m d * MICROS_PER_DAY + micros_of h mi s frac
        - (case ov of Some x \<Rightarrow> x | None \<Rightarrow> 0)))"
    unfolding parse_timestamp_def text_of_def
    using v not_infinity[OF s(1,2), of "era_suffix bc"]
    by (simp only: v if_True and_then_simps era_text_trim[OF s(1) sol] Let_def if_False simp_thms
        split_era_suffix[OF s(1,3)] prod.case body sp civil_parts_text[OF assms(1)] ok_or_simps w tt
        time_micros_text[OF assms(2)] um)
  moreover have "(case ov of Some x \<Rightarrow> x | None \<Rightarrow> 0) = (case off of None \<Rightarrow> 0 | Some (west, oh, om) \<Rightarrow> offset_of west oh om)"
    by (auto simp: ov_def split: option.splits)
  ultimately show ?thesis by (simp add: stamp_text_def flip: ot_def)
qed

end
