(* ===== verification/Value_Props.thy ===== *)
theory Value_Props
  imports Value_Laws
begin

section \<open>Round trips and errors of the field values\<close>

text \<open>
  What the conversions of \<open>src/values.rs\<close> promise, over the arithmetic of \<open>Value_Laws\<close>: the integers,
  \<open>bytea\<close> in both output formats and array literals are read back exactly (the first three are
  interpretations of \<open>codec\<close>), a decimal, a date and a timestamp denote what their text says, NULL is
  substituted for \<open>infinity\<close> and \<open>NaN\<close> and nothing else, every value lies in the range of its Arrow type,
  and an error names the column and the type, whatever the value was.
\<close>

subsection \<open>Integers\<close>

text \<open>An integer field as it is written; \<open>None\<close> has no text.\<close>

definition int_field :: "int option \<Rightarrow> bytes" where
  "int_field v = (case v of Some i \<Rightarrow> int_str i | None \<Rightarrow> [])"

definition fits :: "int \<Rightarrow> int \<Rightarrow> int option \<Rightarrow> bool" where
  "fits lo hi v \<longleftrightarrow> (\<exists>i. v = Some i \<and> lo \<le> i \<and> i \<le> hi)"

lemma int_str_text: "utf8_valid (int_str i)" "trim (int_str i) = int_str i"
  by (rule utf8_valid_all_solid trim_all_solid, rule int_str_solid, assumption)+

lemma int_str_comma [simp]: "CHR '','' \<notin> set (int_str i)"
  by (auto simp: int_str_def byte_defs dest: nat_str_digits split: if_splits)

interpretation int16: separated_codec int_field "\<lambda>s. parse_i16 s column" "fits (-32768) 32767" "CHR '',''"
  for column
  by unfold_locales
    (auto simp: fits_def int_field_def parse_i16_def text_of_def int_str_text parse_signed_int_str)

interpretation int32: separated_codec int_field "\<lambda>s. parse_i32 s column" "fits (-2147483648) 2147483647" "CHR '',''"
  for column
  by unfold_locales
    (auto simp: fits_def int_field_def parse_i32_def text_of_def int_str_text parse_signed_int_str)

interpretation int64: separated_codec int_field "\<lambda>s. parse_i64 s column" "fits I64_MIN I64_MAX" "CHR '',''"
  for column
  by unfold_locales
    (auto simp: fits_def int_field_def parse_i64_def text_of_def int_str_text parse_signed_int_str)

text \<open>
  C36. Every value of the type, written as PostgreSQL writes it, is read back, for the three integer widths;
  a text that is read at all is in the range of its type.
\<close>

theorem integers_round_trip:
  "(fits (-32768) 32767 v \<longrightarrow> parse_i16 (int_field v) column = Inr v)
   \<and> (fits (-2147483648) 2147483647 v \<longrightarrow> parse_i32 (int_field v) column = Inr v)
   \<and> (fits I64_MIN I64_MAX v \<longrightarrow> parse_i64 (int_field v) column = Inr v)
   \<and> (parse_i16 s column = Inr w \<longrightarrow> fits (-32768) 32767 w)
   \<and> (parse_i32 s column = Inr w \<longrightarrow> fits (-2147483648) 2147483647 w)
   \<and> (parse_i64 s column = Inr w \<longrightarrow> fits I64_MIN I64_MAX w)"
  by (auto simp: int16.dec_enc int32.dec_enc int64.dec_enc)
     (auto simp: parse_i16_def parse_i32_def parse_i64_def fits_def and_then_eq_Inr dest: parse_signed_range)

theorem integers_round_trip_witness:
  "fits (-32768) 32767 (Some (-32768)) \<and> parse_i16 (int_field (Some (-32768))) ''c'' = Inr (Some (-32768))
   \<and> fits I64_MIN I64_MAX (Some I64_MIN) \<and> parse_i64 (int_field (Some I64_MIN)) ''c'' = Inr (Some I64_MIN)
   \<and> parse_i32 ''+7'' ''c'' = Inr (Some 7) \<and> fits (-2147483648) 2147483647 (Some 7)"
proof -
  have "parse_i32 ''+7'' ''c'' = Inr (Some 7)" by code_simp
  then show ?thesis
    using integers_round_trip[of "Some (-32768)" "''c''" "''+7''" "Some 7"]
      integers_round_trip[of "Some I64_MIN" "''c''" "[]" None]
    by (simp add: fits_def I64_MIN_def I64_MAX_def)
qed

subsection \<open>\<open>bytea\<close>\<close>

text \<open>The two formats of \<open>bytea_output\<close>.\<close>

definition hex_out :: "nat \<Rightarrow> char" where
  "hex_out n = (if n < 10 then char_of (48 + n) else char_of (87 + n))"

definition hex_text :: "bytes \<Rightarrow> bytes" where
  "hex_text bs = BSL # CHR ''x'' # concat (map (\<lambda>b. [hex_out (byte_val b div 16), hex_out (byte_val b mod 16)]) bs)"

definition escape_out :: "char \<Rightarrow> bytes" where
  "escape_out b =
     (if b = BSL then [BSL, BSL]
      else if 32 \<le> byte_val b \<and> byte_val b \<le> 126 then [b]
      else [BSL, digit_char (byte_val b div 64), digit_char (byte_val b div 8 mod 8), digit_char (byte_val b mod 8)])"

definition escape_text :: "bytes \<Rightarrow> bytes" where
  "escape_text bs = concat (map escape_out bs)"

lemma byte_val_bound: "byte_val b < 256"
  by simp

lemma digit_char_not: "\<not> is_ascii_digit c \<Longrightarrow> d < 10 \<Longrightarrow> digit_char d \<noteq> c"
  using is_ascii_digit_char by blast

lemma hex_val_out: "n < 16 \<Longrightarrow> hex_val (hex_out n) = Some n"
  by (auto simp: hex_val_def hex_out_def byte_val_char_of)

lemma hex_pairs_text:
  "hex_pairs (concat (map (\<lambda>b. [hex_out (byte_val b div 16), hex_out (byte_val b mod 16)]) bs)) out = Some (out @ bs)"
proof (induction bs arbitrary: out)
  case (Cons b bs)
  have "byte_val b div 16 < 16" by (rule less_mult_imp_div_less) simp
  then have "hex_val (hex_out (byte_val b div 16)) = Some (byte_val b div 16)"
    "hex_val (hex_out (byte_val b mod 16)) = Some (byte_val b mod 16)"
    by (simp_all add: hex_val_out)
  then show ?case using Cons by simp
qed simp

lemma even_hex: "even (length (concat (map (\<lambda>b. [f b, g b]) bs)))"
  by (induction bs) auto

lemma parse_bytea_hex: "parse_bytea (hex_text bs) column out = Inr (out @ bs)"
  using hex_pairs_text[of bs out] by (simp add: parse_bytea_def hex_text_def starts_with_def even_hex)

lemma octal_digits:
  fixes n :: nat
  assumes "n < 256"
  shows "(n div 64 * 8 + n div 8 mod 8) * 8 + n mod 8 = n" "n div 64 < 8" "n div 8 mod 8 < 8"
proof -
  have "n div 64 = n div 8 div 8" by (simp flip: div_mult2_eq)
  then show "(n div 64 * 8 + n div 8 mod 8) * 8 + n mod 8 = n" by simp
  show "n div 64 < 8" using assms by simp
qed simp

lemma octal_char: "k < 8 \<Longrightarrow> is_octal_digit (digit_char k) \<and> is_ascii_digit (digit_char k) \<and> digit_char k \<noteq> BSL"
  using digit_char_not[of BSL k] by (simp add: is_octal_digit_def byte_defs)

lemma bytea_loop_octal:
  assumes "i < 8" "j < 8" "k < 8" "(i * 8 + j) * 8 + k < 256"
  shows "bytea_loop (BSL # digit_char i # digit_char j # digit_char k # s) out
    = bytea_loop s (out @ [char_of ((i * 8 + j) * 8 + k)])"
  using octal_char[OF assms(1)] octal_char[OF assms(2)] octal_char[OF assms(3)] assms
  by (simp add: Let_def)

lemma bytea_loop_escape: "bytea_loop (escape_out b @ s) out = bytea_loop s (out @ [b])"
proof (cases "b = BSL \<or> 32 \<le> byte_val b \<and> byte_val b \<le> 126")
  case False
  note d = octal_digits[OF byte_val_bound[of b]]
  have q: "byte_val b div 64 < 8" by (rule less_mult_imp_div_less, rule less_trans[OF byte_val_bound]) simp
  have "bytea_loop (BSL # digit_char (byte_val b div 64) # digit_char (byte_val b div 8 mod 8)
      # digit_char (byte_val b mod 8) # s) out
    = bytea_loop s (out @ [char_of ((byte_val b div 64 * 8 + byte_val b div 8 mod 8) * 8 + byte_val b mod 8)])"
    by (rule bytea_loop_octal) (simp_all only: q d(1) byte_val_bound mod_less_divisor zero_less_numeral)
  also have "\<dots> = bytea_loop s (out @ [b])" unfolding d(1) by simp
  finally show ?thesis using False by (simp add: escape_out_def)
qed (auto simp: escape_out_def)

lemma bytea_loop_text: "bytea_loop (escape_text bs @ s) out = bytea_loop s (out @ bs)"
  by (induction bs arbitrary: out) (simp_all add: escape_text_def bytea_loop_escape)

lemma escape_text_not_hex: "\<not> starts_with (escape_text bs) [BSL, CHR ''x'']"
proof (cases bs)
  case (Cons b r)
  have "digit_char (byte_val b div 64) \<noteq> CHR ''x''"
  proof
    assume a: "digit_char (byte_val b div 64) = CHR ''x''"
    have "byte_val b div 64 < 4" by (rule less_mult_imp_div_less) simp
    then have "is_ascii_digit (digit_char (byte_val b div 64))" by simp
    then show False unfolding a by (simp add: byte_defs)
  qed
  then show ?thesis using Cons by (auto simp: escape_text_def escape_out_def starts_with_def)
qed (simp add: escape_text_def starts_with_def)

lemma parse_bytea_escape: "parse_bytea (escape_text bs) column out = Inr (out @ bs)"
  using bytea_loop_text[of bs "[]" out] by (simp add: parse_bytea_def escape_text_not_hex)

interpretation bytea_hex: codec hex_text "\<lambda>s. parse_bytea s column []" "\<lambda>bs. True" for column
  by unfold_locales (simp add: parse_bytea_hex)

interpretation bytea_escape: codec escape_text "\<lambda>s. parse_bytea s column []" "\<lambda>bs. True" for column
  by unfold_locales (simp add: parse_bytea_escape)

text \<open>
  C35. Binary data is read back whichever of its two formats the dump uses, appended to what the caller's
  buffer already holds, and distinct data has distinct texts.
\<close>

theorem bytea_round_trip:
  "parse_bytea (hex_text bs) column out = Inr (out @ bs)
   \<and> parse_bytea (escape_text bs) column out = Inr (out @ bs)
   \<and> (hex_text bs = hex_text cs \<or> escape_text bs = escape_text cs \<longrightarrow> bs = cs)"
  using bytea_hex.enc_inj[of bs cs] bytea_escape.enc_inj[of bs cs]
  by (auto simp: parse_bytea_hex parse_bytea_escape)

theorem bytea_round_trip_witness:
  "escape_text [CHR 0x00, BSL, CHR ''a'', CHR 0xFF] = [BSL, CHR ''0'', CHR ''0'', CHR ''0'', BSL, BSL, CHR ''a'', BSL, CHR ''3'', CHR ''7'', CHR ''7'']
   \<and> parse_bytea (hex_text [CHR 0xFF]) ''c'' [] = Inr [CHR 0xFF]
   \<and> hex_text [CHR 0xFF] \<noteq> hex_text [CHR 0x00]"
proof -
  have "escape_text [CHR 0x00, BSL, CHR ''a'', CHR 0xFF]
    = [BSL, CHR ''0'', CHR ''0'', CHR ''0'', BSL, BSL, CHR ''a'', BSL, CHR ''3'', CHR ''7'', CHR ''7'']" by code_simp
  then show ?thesis using bytea_round_trip[of "[CHR 0xFF]" "''c''" "[]" "[CHR 0x00]"] by auto
qed

subsection \<open>Array literals\<close>

text \<open>
  \<open>array_out\<close> of PostgreSQL for one dimension: an element is quoted when it is empty, reads as \<open>NULL\<close>, or
  holds a delimiter, a quote, a backslash or white space; inside quotes the last two kinds are escaped.
\<close>

definition array_special :: "char \<Rightarrow> bool" where
  "array_special c \<longleftrightarrow> c \<in> {DQ, BSL, CHR ''{'', CHR ''}'', CHR '','', CHR 0x0B} \<or> is_ascii_whitespace c"

definition needs_quote :: "bytes \<Rightarrow> bool" where
  "needs_quote s \<longleftrightarrow> s = [] \<or> eq_ignore_ascii_case s ''NULL'' \<or> list_ex array_special s"

definition array_escape :: "char \<Rightarrow> bytes" where
  "array_escape c = (if c = DQ \<or> c = BSL then [BSL, c] else [c])"

definition element_text :: "bytes option \<Rightarrow> bytes" where
  "element_text e =
     (case e of None \<Rightarrow> ''NULL''
      | Some s \<Rightarrow> if needs_quote s then DQ # concat (map array_escape s) @ [DQ] else s)"

definition array_text :: "bytes option list \<Rightarrow> bytes" where
  "array_text es = CHR ''{'' # join_with (CHR '','') (map element_text es) @ ''}''"

lemma array_quoted_text: "array_quoted (concat (map array_escape s) @ DQ # r) buf = Some (buf @ s, r)"
  by (induction s arbitrary: buf) (simp_all add: array_escape_def)

lemma takeWhile_run: "list_all P s \<Longrightarrow> r = [] \<or> \<not> P (hd r) \<Longrightarrow> takeWhile P (s @ r) = s \<and> dropWhile P (s @ r) = r"
  by (induction s) (cases r; auto)+

lemma plain_element:
  assumes "\<not> needs_quote s"
  shows "s \<noteq> []" "list_all bare_char s" "hd s \<noteq> DQ" "\<not> is_ascii_whitespace (hd s)" "s \<noteq> ''NULL''"
proof -
  show s: "s \<noteq> []" "s \<noteq> ''NULL''" using assms by (auto simp: needs_quote_def)
  have n: "\<not> array_special c" if "c \<in> set s" for c using that assms by (auto simp: needs_quote_def list_ex_iff)
  then show "list_all bare_char s" by (auto simp: list_all_iff array_special_def bare_char_def)
  show "hd s \<noteq> DQ" "\<not> is_ascii_whitespace (hd s)" using n[of "hd s"] s(1) by (auto simp: array_special_def)
qed

lemma array_element_bare:
  assumes "s \<noteq> []" "list_all bare_char s" "hd s \<noteq> DQ" "\<not> is_ascii_whitespace (hd s)" "r = [] \<or> hd r = CHR '',''"
  shows "array_element (s @ r) = Some (if s = ''NULL'' then None else Some s, r)"
proof -
  have "dropWhile is_ascii_whitespace (s @ r) = s @ r" using assms(1,4) by (cases s) auto
  moreover have "takeWhile bare_char (s @ r) = s \<and> dropWhile bare_char (s @ r) = r"
    by (rule takeWhile_run) (use assms(2,5) in \<open>auto simp: bare_char_def\<close>)
  ultimately show ?thesis using assms(1,3) by (simp add: array_element_def)
qed

lemma array_element_text:
  assumes "r = [] \<or> hd r = CHR '',''"
  shows "array_element (element_text e @ r) = Some (e, r)"
proof (cases e)
  case None
  have "array_element (''NULL'' @ r) = Some (if ''NULL'' = ''NULL'' then None else Some ''NULL'', r)"
    by (rule array_element_bare[OF _ _ _ _ assms]) (simp_all add: bare_char_def byte_defs)
  then show ?thesis using None by (simp add: element_text_def)
next
  case (Some s)
  show ?thesis
  proof (cases "needs_quote s")
    case True
    have "\<not> is_ascii_whitespace DQ" by (simp add: byte_defs)
    then show ?thesis
      using True Some array_quoted_text[of s r "[]"] by (simp add: element_text_def array_element_def)
  next
    case False
    then show ?thesis
      using Some array_element_bare[OF plain_element(1-4)[OF False] assms] plain_element(5)[OF False]
      by (simp add: element_text_def)
  qed
qed

lemma element_text_nonempty: "element_text e \<noteq> []"
  by (auto simp: element_text_def needs_quote_def split: option.split)

lemma array_loop_text:
  "es \<noteq> [] \<Longrightarrow> array_loop column (join_with (CHR '','') (map element_text es)) acc = Inr (acc @ es)"
proof (induction es arbitrary: acc)
  case (Cons e es)
  show ?case
  proof (cases es)
    case Nil
    then show ?thesis using array_element_text[of "[]" e] by (subst array_loop.simps) simp
  next
    case (Cons f fs)
    let ?r = "CHR '','' # join_with (CHR '','') (map element_text es)"
    have w: "\<not> is_ascii_whitespace (CHR '','')" by (simp add: byte_defs)
    have j: "join_with (CHR '','') (map element_text (e # es)) = element_text e @ ?r" using Cons by simp
    show ?thesis
      unfolding j using array_element_text[of ?r e] Cons.IH[of "acc @ [e]"] w Cons
      by (subst array_loop.simps) simp
  qed
qed simp

lemma parse_array_text: "parse_array_elements (array_text es) column = Inr es"
proof (cases es)
  case Nil
  then show ?thesis by (simp add: parse_array_elements_def array_text_def)
next
  case (Cons e r)
  have "join_with (CHR '','') (map element_text es) \<noteq> []"
    using Cons element_text_nonempty[of e] by (cases r) simp_all
  then show ?thesis
    using array_loop_text[of es column "[]"] Cons by (simp add: parse_array_elements_def array_text_def butlast_append)
qed

interpretation array_literal: codec array_text "\<lambda>s. parse_array_elements s column" "\<lambda>es. True" for column
  by unfold_locales (rule parse_array_text)

text \<open>
  C34. An array literal as PostgreSQL prints it is cut into exactly its elements, NULL elements told apart
  from the text \<open>NULL\<close>, quotes, commas, braces and backslashes inside an element included; so two
  different arrays never have the same literal.
\<close>

theorem array_round_trip:
  "parse_array_elements (array_text es) column = Inr es \<and> (array_text es = array_text fs \<longleftrightarrow> es = fs)"
  using array_literal.enc_inj[of es fs] by (auto simp: parse_array_text)

subsection \<open>Errors, NULLs and ranges\<close>

lemmas value_defs = parse_i16_def parse_i32_def parse_i64_def parse_f32_def parse_f64_def float_text_def
  parse_bool_def parse_date_def parse_time_def parse_timestamp_def text_of_def

lemma array_loop_error: "array_loop column s es = Inl e \<Longrightarrow> e = bad column ''array''"
proof (induction column s es rule: array_loop.induct)
  case (1 column s es)
  show ?case
    using 1(2) by (subst (asm) array_loop.simps) (auto split: option.splits prod.splits list.splits if_splits intro: 1(1))
qed

lemma decimal_digits_results:
  "decimal_digits neg ip fp p s column = Inl e \<Longrightarrow> e = bad column ''numeric''"
  "decimal_digits neg ip fp p s column \<noteq> Inr None"
  by (auto simp: decimal_digits_def Let_def and_then_eq_Inl and_then_eq_Inr split: if_splits prod.splits)

lemma parse_decimal_results:
  "parse_decimal v p s column = Inl e \<Longrightarrow> e = bad column ''numeric''"
  "parse_decimal v p s column = Inr None \<longleftrightarrow> utf8_valid v \<and> trim v = ''NaN''"
  by (auto simp: parse_decimal_def text_of_def decimal_digits_results and_then_eq_Inl and_then_eq_Inr Let_def
      split: if_splits option.splits prod.splits dest: decimal_digits_results(1))

lemma parse_date_results:
  "parse_date v column = Inl e \<Longrightarrow> e = bad column ''date''"
  "parse_date v column = Inr None \<longleftrightarrow> utf8_valid v \<and> trim v \<in> {''infinity'', ''-infinity''}"
  "parse_date v column = Inr (Some d) \<Longrightarrow> -2147483648 \<le> d \<and> d \<le> 2147483647"
  by (auto simp: parse_date_def text_of_def and_then_eq_Inl and_then_eq_Inr Let_def split: if_splits prod.splits)

lemma parse_timestamp_results:
  "parse_timestamp v tz column = Inl e \<Longrightarrow> e = bad column ''timestamp''"
  "parse_timestamp v tz column = Inr None \<longleftrightarrow> utf8_valid v \<and> trim v \<in> {''infinity'', ''-infinity''}"
  "parse_timestamp v tz column = Inr (Some t) \<Longrightarrow> I64_MIN \<le> t \<and> t \<le> I64_MAX"
  by (auto simp: parse_timestamp_def text_of_def and_then_eq_Inl and_then_eq_Inr Let_def utc_micros_def
      checked64_def bind_eq_Some_conv split: if_splits prod.splits)

lemma parse_time_results:
  "parse_time v column = Inl e \<Longrightarrow> e = bad column ''time''"
  "parse_time v column \<noteq> Inr None"
  "parse_time v column = Inr (Some t) \<Longrightarrow> 0 \<le> t \<and> t < MICROS_PER_DAY"
  by (auto simp: parse_time_def text_of_def and_then_eq_Inl and_then_eq_Inr Let_def MICROS_PER_DAY_def
      MICROS_PER_SEC_def split: if_splits prod.splits)

lemma parse_float_results:
  "parse_f32 r v column = Inl e \<Longrightarrow> e = bad column ''real''"
  "parse_f64 r v column = Inl e \<Longrightarrow> e = bad column ''double precision''"
  "parse_f32 r v column \<noteq> Inr None" "parse_f64 r v column \<noteq> Inr None"
  by (auto simp: value_defs and_then_eq_Inl and_then_eq_Inr split: if_splits)

lemma parse_int_results:
  "parse_i16 v column = Inl e \<Longrightarrow> e = bad column ''smallint''"
  "parse_i32 v column = Inl e \<Longrightarrow> e = bad column ''integer''"
  "parse_i64 v column = Inl e \<Longrightarrow> e = bad column ''bigint''"
  "parse_i16 v column \<noteq> Inr None" "parse_i32 v column \<noteq> Inr None" "parse_i64 v column \<noteq> Inr None"
  by (auto simp: value_defs and_then_eq_Inl and_then_eq_Inr split: if_splits)

lemma parse_bool_results: "parse_bool v column = Inl e \<Longrightarrow> e = bad column ''boolean''" "parse_bool v column \<noteq> Inr None"
  by (auto simp: parse_bool_def split: if_splits)

lemma parse_bytea_error: "parse_bytea v column out = Inl e \<Longrightarrow> e = bad column ''bytea''"
  by (simp add: parse_bytea_def)

lemma parse_array_error: "parse_array_elements v column = Inl e \<Longrightarrow> e = bad column ''array''"
  by (auto simp: parse_array_elements_def Let_def dest: array_loop_error split: if_splits)

text \<open>
  C32. Whatever the value was, an error of a conversion is \<open>UnparsableValue\<close> with the column and the type's
  name: it carries nothing of the value, which may be hostile.
\<close>

theorem value_errors_hide_the_value:
  assumes "e \<in> {e. parse_i16 v column = Inl e \<or> parse_i32 v column = Inl e \<or> parse_i64 v column = Inl e
      \<or> parse_f32 r32 v column = Inl e \<or> parse_f64 r64 v column = Inl e \<or> parse_bool v column = Inl e
      \<or> parse_decimal v p s column = Inl e \<or> parse_date v column = Inl e \<or> parse_time v column = Inl e
      \<or> parse_timestamp v tz column = Inl e \<or> parse_bytea v column out = Inl e
      \<or> parse_array_elements v column = Inl e}"
  shows "\<exists>expected \<in> set [''smallint'', ''integer'', ''bigint'', ''real'', ''double precision'', ''boolean'',
      ''numeric'', ''date'', ''time'', ''timestamp'', ''bytea'', ''array'']. e = UnparsableValue column expected"
proof -
  have "e \<in> bad column ` set [''smallint'', ''integer'', ''bigint'', ''real'', ''double precision'', ''boolean'',
      ''numeric'', ''date'', ''time'', ''timestamp'', ''bytea'', ''array'']"
    using assms
    by (elim CollectE disjE)
      (drule parse_int_results parse_float_results parse_decimal_results(1) parse_date_results(1)
        parse_time_results(1) parse_timestamp_results(1) parse_array_error parse_bool_results(1) parse_bytea_error
       | simp)+
  then show ?thesis by (auto simp: bad_def)
qed

theorem value_errors_hide_the_value_witness:
  "parse_date ''SECRET'' ''born'' = Inl (UnparsableValue ''born'' ''date'')
   \<and> (\<exists>expected \<in> set [''smallint'', ''integer'', ''bigint'', ''real'', ''double precision'', ''boolean'',
      ''numeric'', ''date'', ''time'', ''timestamp'', ''bytea'', ''array''].
      UnparsableValue ''born'' ''date'' = UnparsableValue ''born'' expected)"
proof -
  have d: "parse_date ''SECRET'' ''born'' = Inl (UnparsableValue ''born'' ''date'')" by code_simp
  then show ?thesis
    using value_errors_hide_the_value[of "UnparsableValue ''born'' ''date''" "''SECRET''" "''born''"] by simp
qed

text \<open>
  C33. A valid value becomes NULL exactly when its type cannot hold it: \<open>NaN\<close> for a decimal, \<open>infinity\<close> and
  \<open>-infinity\<close> for a date and a timestamp. No other conversion ever answers NULL.
\<close>

theorem nulls_only_for_infinity_and_nan:
  "(parse_decimal v p s column = Inr None \<longleftrightarrow> utf8_valid v \<and> trim v = ''NaN'')
   \<and> (parse_date v column = Inr None \<longleftrightarrow> utf8_valid v \<and> trim v \<in> {''infinity'', ''-infinity''})
   \<and> (parse_timestamp v tz column = Inr None \<longleftrightarrow> utf8_valid v \<and> trim v \<in> {''infinity'', ''-infinity''})
   \<and> Inr None \<notin> {parse_i16 v column, parse_i32 v column, parse_i64 v column, parse_time v column}
   \<and> parse_f32 r32 v column \<noteq> Inr None \<and> parse_f64 r64 v column \<noteq> Inr None \<and> parse_bool v column \<noteq> Inr None"
proof -
  have "Inr None \<notin> {parse_i16 v column, parse_i32 v column, parse_i64 v column, parse_time v column}"
    using parse_int_results(4-6)[of v column] parse_time_results(2)[of v column]
    by (metis empty_iff insert_iff)
  then show ?thesis
    by (simp add: parse_decimal_results(2) parse_date_results(2) parse_timestamp_results(2) parse_float_results(3,4)
      parse_bool_results(2))
qed

lemma unscaled_loop_nonneg: "unscaled_loop bs 0 = Some m \<Longrightarrow> 0 \<le> m"
  by (drule unscaled_loop_big[rotated]) simp_all

lemma pad_loop_nonneg: "pad_loop k m = Some u \<Longrightarrow> 0 \<le> m \<Longrightarrow> 0 \<le> u"
  by (drule pad_loop_big) simp

lemma decimal_digits_range:
  assumes "p \<le> 38" "decimal_digits neg ip fp p s column = Inr (Some n)"
  shows "\<bar>n\<bar> < 10 ^ p"
proof -
  have "(10::int) ^ p \<le> 10 ^ 38" using assms(1) by (intro power_increasing) auto
  then have w: "wrap128 (10 ^ p) = 10 ^ p" by (simp add: wrap128_def I128_MAX_def)
  then show ?thesis
    using assms(2)
    by (auto simp: decimal_digits_def Let_def and_then_eq_Inr dest: unscaled_loop_nonneg pad_loop_nonneg
        split: if_splits prod.splits)
qed

lemma parse_decimal_range: "p \<le> 38 \<Longrightarrow> parse_decimal v p s column = Inr (Some n) \<Longrightarrow> \<bar>n\<bar> < 10 ^ p"
  by (auto simp: parse_decimal_def text_of_def and_then_eq_Inr Let_def dest: decimal_digits_range
      split: if_splits option.splits prod.splits)

text \<open>
  A value that is read is one its Arrow type holds: a decimal has at most the declared digits, a date
  fits 32 bits, a time lies within a day, a timestamp fits 64 bits.
\<close>

theorem values_in_range:
  "(p \<le> 38 \<and> parse_decimal v p s column = Inr (Some n) \<longrightarrow> \<bar>n\<bar> < 10 ^ p)
   \<and> (parse_date v column = Inr (Some d) \<longrightarrow> -2147483648 \<le> d \<and> d \<le> 2147483647)
   \<and> (parse_time v column = Inr (Some t) \<longrightarrow> 0 \<le> t \<and> t < MICROS_PER_DAY)
   \<and> (parse_timestamp v tz column = Inr (Some u) \<longrightarrow> I64_MIN \<le> u \<and> u \<le> I64_MAX)"
  using parse_decimal_range parse_date_results(3) parse_time_results(3) parse_timestamp_results(3) by blast

theorem values_in_range_witness:
  "parse_decimal ''-9.99'' 3 2 ''c'' = Inr (Some (-999)) \<and> \<bar>-999::int\<bar> < 10 ^ 3"
proof -
  have "parse_decimal ''-9.99'' 3 2 ''c'' = Inr (Some (-999))" by code_simp
  then show ?thesis using values_in_range[of 3 "''-9.99''" 2 "''c''" "-999"] by simp
qed

subsection \<open>What a decimal, a date and a timestamp denote\<close>

text \<open>
  C31. A decimal text becomes exactly the integer it denotes at the column's scale, and is refused exactly
  when a digit beyond the scale is not zero or the value needs more digits than the precision: nothing is
  rounded and no overflow of the 128 bits goes unnoticed.
\<close>

theorem parse_decimal_exact:
  assumes "sign \<in> {[], ''-'', ''+''}" "list_all is_ascii_digit ip" "list_all is_ascii_digit (fraction fp)"
    "ip \<noteq> [] \<or> fraction fp \<noteq> []" "p \<le> 38"
  shows "parse_decimal (decimal_text sign ip fp) p (int s) column =
    (if surplus_zero (fraction fp) s \<and> unscaled_value ip (fraction fp) s < 10 ^ p
     then Inr (Some ((if sign = ''-'' then -1 else 1) * unscaled_value ip (fraction fp) s))
     else Inl (bad column ''numeric''))"
  using parse_decimal_text[OF assms(1-4), of p "int s" column] decimal_digits_exact[OF assms(2-5)] by simp

theorem parse_decimal_exact_witness:
  "parse_decimal ''-12.30'' 4 1 ''c'' = Inr (Some (-123))
   \<and> parse_decimal (decimal_text ''-'' ''12'' (Some ''30'')) 4 (int 1) ''c'' =
      (if surplus_zero ''30'' 1 \<and> unscaled_value ''12'' ''30'' 1 < 10 ^ 4
       then Inr (Some ((if ''-'' = ''-'' then -1 else 1) * unscaled_value ''12'' ''30'' 1))
       else Inl (bad ''c'' ''numeric''))"
proof -
  have "parse_decimal ''-12.30'' 4 1 ''c'' = Inr (Some (-123))" by code_simp
  then show ?thesis
    using parse_decimal_exact[of "''-''" "''12''" "Some ''30''" 4 1 "''c''"] by (simp add: fraction_def byte_defs)
qed

text \<open>
  C38. \<open>days_from_civil\<close> is the proleptic Gregorian calendar: day 0 is 1970-01-01, the day after a date has
  the next number, and dates in calendar order have numbers in that order, for years of absolute value up
  to 10^12.
\<close>

theorem days_from_civil_calendar:
  "days_from_civil 1970 1 1 = 0
   \<and> (valid_date y m d \<and> sane_year y \<and> sane_year (y + 1) \<and> next_day (y, m, d) = (y', m', d')
      \<longrightarrow> days_from_civil y' m' d' = days_from_civil y m d + 1)
   \<and> (valid_date y m d \<and> valid_date a b c \<and> sane_year y \<and> sane_year a \<and> date_less (y, m, d) (a, b, c)
      \<longrightarrow> days_from_civil y m d < days_from_civil a b c)"
  using days_epoch days_next_day days_strictly_ordered by blast

theorem days_from_civil_calendar_witness:
  "valid_date 2024 2 29 \<and> next_day (2024, 2, 29) = (2024, 3, 1)
   \<and> days_from_civil 2024 3 1 = days_from_civil 2024 2 29 + 1
   \<and> days_from_civil 2024 2 29 < days_from_civil 2025 1 1"
proof -
  have a: "valid_date 2024 2 29" "valid_date 2025 1 1" "next_day (2024, 2, 29) = (2024, 3, 1)"
    "sane_year 2024" "sane_year (2024 + 1)" "date_less (2024, 2, 29) (2025, 1, 1)" by code_simp+
  then show ?thesis
    using days_from_civil_calendar[of 2024 2 29 2024 3 1 2025 1 1] by simp
qed

text \<open>
  The dates of the calendar, from the year 1 of either era up to the year 4999999, as PostgreSQL prints
  them; the times of a day, and the offsets of time zones.
\<close>

definition real_date :: "bytes \<Rightarrow> bool \<Rightarrow> int \<Rightarrow> int \<Rightarrow> bool" where
  "real_date ys bc m d \<longleftrightarrow> date_ok ys m d \<and> 1 \<le> digits_val ys \<and> valid_date (civil_year ys bc) m d"

definition real_time :: "int \<Rightarrow> int \<Rightarrow> int \<Rightarrow> bytes \<Rightarrow> bool" where
  "real_time h mi s frac \<longleftrightarrow> time_ok h mi s frac \<and> h < 24 \<and> s < 60"

definition real_offset :: "(bool \<times> int \<times> int option) option \<Rightarrow> bool" where
  "real_offset off \<longleftrightarrow> (case off of None \<Rightarrow> True | Some (_, oh, om) \<Rightarrow> offset_ok oh om \<and> oh < 16)"

text \<open>
  C37. A date as PostgreSQL prints it, that is a day of the calendar in a year from 1 to 4999999 of either
  era, is read as the day number of that date. A timestamp, a time of such a day within 280000 years with
  its fraction and, exactly when its type has a time zone, its offset in hours and minutes, is read as the
  microsecond of that instant in UTC. (Texts that are no dates are not covered; see \<open>lenient_values\<close>.)
\<close>

theorem dates_and_timestamps_denote:
  assumes "real_date ys bc m d"
  shows "parse_date (date_text ys m d @ era_suffix bc) column = Inr (Some (days_from_civil (civil_year ys bc) m d))
    \<and> (real_time h mi s frac \<and> \<bar>civil_year ys bc\<bar> \<le> 280000 \<and> real_offset off \<and> (tz \<longleftrightarrow> off \<noteq> None) \<longrightarrow>
      parse_timestamp (stamp_text ys m d (time_text h mi s frac)
          (case off of None \<Rightarrow> [] | Some (west, oh, om) \<Rightarrow> offset_text west oh om) bc) tz column
        = Inr (Some (days_from_civil (civil_year ys bc) m d * MICROS_PER_DAY + micros_of h mi s frac
            - (case off of None \<Rightarrow> 0 | Some (west, oh, om) \<Rightarrow> offset_of west oh om))))"
proof -
  have d: "date_ok ys m d" using assms by (simp add: real_date_def)
  show ?thesis
    by (intro conjI impI parse_date_text[OF d] parse_timestamp_text[OF d])
      (auto simp: real_time_def real_offset_def split: option.splits)
qed

theorem dates_and_timestamps_denote_witness:
  "parse_date ''2024-02-29'' [] = Inr (Some 19782)
   \<and> parse_timestamp ''2024-02-29 12:00:00.5+02'' True [] = Inr (Some (19782 * 86400000000 + 36000500000))
   \<and> parse_date (date_text ''2024'' 2 29 @ era_suffix False) []
       = Inr (Some (days_from_civil (civil_year ''2024'' False) 2 29))
   \<and> parse_timestamp (stamp_text ''2024'' 2 29 (time_text 12 0 0 ''5'') (offset_text False 2 None) False) True []
       = Inr (Some (days_from_civil (civil_year ''2024'' False) 2 29 * MICROS_PER_DAY + micros_of 12 0 0 ''5''
           - offset_of False 2 None))"
proof -
  have "parse_date ''2024-02-29'' [] = Inr (Some 19782)"
    "parse_timestamp ''2024-02-29 12:00:00.5+02'' True [] = Inr (Some (19782 * 86400000000 + 36000500000))"
    "real_date ''2024'' False 2 29" "real_time 12 0 0 ''5''" "real_offset (Some (False, 2, None))" "\<bar>civil_year ''2024'' False\<bar> \<le> 280000"
    by code_simp+
  then show ?thesis
    using dates_and_timestamps_denote[of "''2024''" False 2 29 "[]" 12 0 0 "''5''" "Some (False, 2, None)" True] by simp
qed

subsection \<open>Where the code and its comments part\<close>

text \<open>
  A day of the month is checked against 31 only, a signed month passes when it is two bytes long, the year
  0000 is taken for the year before the year 1, a trailing comma of an array literal makes an empty
  element, minutes of an offset that are not a number count as zero, midnight written \<open>24:00:00\<close> is the
  start of the day, and the day named \<open>0001-01-01\<close> by the comment of \<open>MIN_SUPPORTED_DAY\<close> is another one.
\<close>

lemma lenient_values:
  "parse_date ''2023-02-31'' c = Inr (Some 19419)" "parse_date ''2023-03-03'' c = Inr (Some 19419)"
  "parse_date ''2024-+1-01'' c = parse_date ''2024-01-01'' c"
  "parse_date ''0000-06-15'' c = parse_date ''0001-06-15 BC'' c"
  "parse_array_elements ''{1,}'' c = Inr [Some ''1'', Some []]"
  "split_offset ''2024-01-01 00:00:00+05:xx'' = (''2024-01-01 00:00:00'', Some 18000000000)"
  "parse_time ''24:00:00'' c = Inr (Some 0)"
  by code_simp+

lemma min_supported_day_is_not_year_one: "days_from_civil 1 1 1 = -719162" "MIN_SUPPORTED_DAY = -2440588"
  by code_simp+

end
