(* ===== verification/Transitions.thy ===== *)
theory Transitions
  imports Prelude
begin

section \<open>Labelled transitions\<close>

text \<open>
  What the concurrent components share. \<open>run step s ls t\<close> is a sequence of steps with labels \<open>ls\<close>. A
  \<open>stable_system\<close> is a step relation with a predicate every step keeps; a \<open>settling_system\<close> one in which
  every step lowers a measure, so that every run of it comes to a state in which nothing can move; an
  \<open>ordered_system\<close> has both, with a well-founded order that may rest on the predicate. The channel and the
  pipeline interpret them on their own steps.
\<close>

inductive run :: "('s \<Rightarrow> 'l \<Rightarrow> 's \<Rightarrow> bool) \<Rightarrow> 's \<Rightarrow> 'l list \<Rightarrow> 's \<Rightarrow> bool" for step where
  run_done: "run step s [] s"
| run_more: "step s l t \<Longrightarrow> run step t ls u \<Longrightarrow> run step s (l # ls) u"

inductive_simps run_Nil [simp]: "run step s [] t"
inductive_simps run_Cons: "run step s (l # ls) t"

lemma run_append: "run step s (ls @ ms) u \<longleftrightarrow> (\<exists>t. run step s ls t \<and> run step t ms u)"
  by (induction ls arbitrary: s) (auto simp: run_Cons)

lemma run_snoc: "run step s (ls @ [l]) u \<longleftrightarrow> (\<exists>t. run step s ls t \<and> step t l u)"
  by (simp add: run_append run_Cons)

lemma run_mono:
  assumes "run step s ls t" "\<And>a l b. step a l b \<Longrightarrow> step' a l b"
  shows "run step' s ls t"
  using assms(1) by induction (auto intro: run.intros assms(2))

definition stuck :: "('s \<Rightarrow> 'l \<Rightarrow> 's \<Rightarrow> bool) \<Rightarrow> 's \<Rightarrow> bool" where
  "stuck step s \<longleftrightarrow> (\<forall>l t. \<not> step s l t)"

locale stable_system =
  fixes step :: "'s \<Rightarrow> 'l \<Rightarrow> 's \<Rightarrow> bool" and inv :: "'s \<Rightarrow> bool"
  assumes step_inv: "inv s \<Longrightarrow> step s l t \<Longrightarrow> inv t"
begin

lemma run_inv: "run step s ls t \<Longrightarrow> inv s \<Longrightarrow> inv t"
  by (induction rule: run.induct) (auto intro: step_inv)

text \<open>What holds of every step from a state with the invariant holds along every run.\<close>

lemma run_rel:
  assumes "run step s ls t" "inv s"
    and "\<And>a. R a [] a"
    and "\<And>a l b ls c. inv a \<Longrightarrow> step a l b \<Longrightarrow> R b ls c \<Longrightarrow> R a (l # ls) c"
  shows "R s ls t"
  using assms(1,2) by induction (auto intro: assms(3,4) step_inv)

end

locale settling_system =
  fixes step :: "'s \<Rightarrow> 'l \<Rightarrow> 's \<Rightarrow> bool" and weight :: "'s \<Rightarrow> nat"
  assumes step_weight: "step s l t \<Longrightarrow> weight t < weight s"
begin

lemma wf_steps: "wf {(t, s). \<exists>l. step s l t}"
  by (rule wf_subset[of "measure weight"]) (auto dest: step_weight)

lemma run_length: "run step s ls t \<Longrightarrow> length ls + weight t \<le> weight s"
  by (induction rule: run.induct) (auto dest: step_weight)

lemma settles: "\<exists>ls t. run step s ls t \<and> stuck step t"
proof (induction "weight s" arbitrary: s rule: less_induct)
  case less
  show ?case
  proof (cases "stuck step s")
    case True
    then show ?thesis by (meson run_done)
  next
    case False
    then obtain l t where st: "step s l t" by (auto simp: stuck_def)
    then show ?thesis using less[OF step_weight[OF st]] by (meson run_more)
  qed
qed

end

locale ordered_system = stable_system step inv
  for step :: "'s \<Rightarrow> 'l \<Rightarrow> 's \<Rightarrow> bool" and inv :: "'s \<Rightarrow> bool" +
  fixes order :: "('s \<times> 's) set"
  assumes wf_order: "wf order" and step_order: "inv s \<Longrightarrow> step s l t \<Longrightarrow> (t, s) \<in> order"
begin

lemma no_endless_run: "inv (f 0) \<Longrightarrow> \<exists>i. \<not> step (f i) (g i) (f (Suc i))"
proof (rule ccontr)
  assume i: "inv (f 0)" and "\<not> (\<exists>i. \<not> step (f i) (g i) (f (Suc i)))"
  then have s: "step (f i) (g i) (f (Suc i))" for i by blast
  have "inv (f i)" for i by (induction i) (auto intro: i step_inv s)
  then have "\<forall>i. (f (Suc i), f i) \<in> order" using s step_order by blast
  then show False using wf_order unfolding wf_iff_no_infinite_down_chain by blast
qed

lemma comes_to_rest: "inv s \<Longrightarrow> \<exists>ls t. run step s ls t \<and> stuck step t"
proof (induction s rule: wf_induct_rule[OF wf_order])
  case (1 s)
  show ?case
  proof (cases "stuck step s")
    case True
    then show ?thesis by (meson run_done)
  next
    case False
    then obtain l t where st: "step s l t" by (auto simp: stuck_def)
    then show ?thesis using 1(1)[OF step_order[OF 1(2) st] step_inv[OF 1(2) st]] by (meson run_more)
  qed
qed

end

end
