(* ===== verification/Bounded_Chan.thy ===== *)
theory Bounded_Chan
  imports Transitions
begin

section \<open>The bounded channel\<close>

text \<open>
  \<open>src/chan.rs\<close>: a queue behind a mutex with two condition variables. A critical section, from taking
  the lock to releasing it, is one function on the state; a blocked call is a thread waiting on a
  condition variable, and a notification is a step of its own, because the code notifies after it has
  released the lock. A woken thread takes its turn again; a thread may also wake with no reason.
  Poisoning of the lock is not modelled: no critical section panics.
\<close>

record 'a chan_state =
  items :: "'a list"
  senders :: nat
  receivers :: nat
  capacity :: nat

definition bounded :: "nat \<Rightarrow> 'a chan_state" where
  "bounded cap = \<lparr>items = [], senders = 1, receivers = 1, capacity = max cap 1\<rparr>"

datatype send_result = Sent | SendErr | SendWaits

text \<open>One pass of the loop of \<open>send\<close>.\<close>

definition send_turn :: "'a chan_state \<Rightarrow> 'a \<Rightarrow> 'a chan_state \<times> send_result" where
  "send_turn c v =
     (if receivers c = 0 then (c, SendErr)
      else if length (items c) < capacity c then (c\<lparr>items := items c @ [v]\<rparr>, Sent)
      else (c, SendWaits))"

datatype 'a recv_result = Received 'a | RecvNone | RecvWaits

text \<open>One pass of the loop of \<open>recv\<close>.\<close>

definition recv_turn :: "'a chan_state \<Rightarrow> 'a chan_state \<times> 'a recv_result" where
  "recv_turn c =
     (case items c of
        v # vs \<Rightarrow> (c\<lparr>items := vs\<rparr>, Received v)
      | [] \<Rightarrow> if senders c = 0 then (c, RecvNone) else (c, RecvWaits))"

definition clone_sender :: "'a chan_state \<Rightarrow> 'a chan_state" where
  "clone_sender c = c\<lparr>senders := senders c + 1\<rparr>"

definition clone_receiver :: "'a chan_state \<Rightarrow> 'a chan_state" where
  "clone_receiver c = c\<lparr>receivers := receivers c + 1\<rparr>"

text \<open>Dropping an end: the new state, and whether everyone at the other end is to be woken.\<close>

definition drop_sender :: "'a chan_state \<Rightarrow> 'a chan_state \<times> bool" where
  "drop_sender c = (let c' = c\<lparr>senders := senders c - 1\<rparr> in (c', senders c' = 0))"

definition drop_receiver :: "'a chan_state \<Rightarrow> 'a chan_state \<times> bool" where
  "drop_receiver c = (let c' = c\<lparr>receivers := receivers c - 1\<rparr> in (c', receivers c' = 0))"

subsection \<open>Threads\<close>

text \<open>
  Where a thread stands: outside the channel, about to take the lock in a call, waiting on a condition
  variable, or past the lock and about to notify.
\<close>

datatype 'a pc =
    Idle
  | WantSend 'a | WaitSend 'a
  | WantRecv | WaitRecv
  | NotifyEmpty | NotifyFull | NotifyAllEmpty | NotifyAllFull

text \<open>The threads by number: where each stands and how many ends it holds.\<close>

record 'a world =
  chan :: "'a chan_state"
  pcs :: "'a pc list"
  txs :: "nat list"
  rxs :: "nat list"

datatype 'a label =
    LSent nat 'a | LSendErr nat 'a | LReceived nat 'a | LNone nat | LTau nat

fun wake_receiver :: "'a pc \<Rightarrow> 'a pc" where
  "wake_receiver WaitRecv = WantRecv"
| "wake_receiver p = p"

fun wake_sender :: "'a pc \<Rightarrow> 'a pc" where
  "wake_sender (WaitSend v) = WantSend v"
| "wake_sender p = p"

fun waits_recv :: "'a pc \<Rightarrow> bool" where
  "waits_recv WaitRecv = True"
| "waits_recv _ = False"

fun waits_send :: "'a pc \<Rightarrow> bool" where
  "waits_send (WaitSend v) = True"
| "waits_send _ = False"

definition at_pc :: "'a world \<Rightarrow> nat \<Rightarrow> 'a pc \<Rightarrow> bool" where
  "at_pc w i p \<longleftrightarrow> i < length (pcs w) \<and> pcs w ! i = p"

definition goto_pc :: "'a world \<Rightarrow> nat \<Rightarrow> 'a pc \<Rightarrow> 'a world" where
  "goto_pc w i p = w\<lparr>pcs := (pcs w)[i := p]\<rparr>"

text \<open>The steps a call in progress takes.\<close>

inductive turn :: "'a world \<Rightarrow> 'a label \<Rightarrow> 'a world \<Rightarrow> bool" where
  turn_sent: "at_pc w i (WantSend v) \<Longrightarrow> send_turn (chan w) v = (c, Sent) \<Longrightarrow>
     turn w (LSent i v) (goto_pc (w\<lparr>chan := c\<rparr>) i NotifyEmpty)"
| turn_send_err: "at_pc w i (WantSend v) \<Longrightarrow> send_turn (chan w) v = (c, SendErr) \<Longrightarrow>
     turn w (LSendErr i v) (goto_pc (w\<lparr>chan := c\<rparr>) i Idle)"
| turn_send_waits: "at_pc w i (WantSend v) \<Longrightarrow> send_turn (chan w) v = (c, SendWaits) \<Longrightarrow>
     turn w (LTau i) (goto_pc (w\<lparr>chan := c\<rparr>) i (WaitSend v))"
| turn_received: "at_pc w i WantRecv \<Longrightarrow> recv_turn (chan w) = (c, Received v) \<Longrightarrow>
     turn w (LReceived i v) (goto_pc (w\<lparr>chan := c\<rparr>) i NotifyFull)"
| turn_recv_none: "at_pc w i WantRecv \<Longrightarrow> recv_turn (chan w) = (c, RecvNone) \<Longrightarrow>
     turn w (LNone i) (goto_pc (w\<lparr>chan := c\<rparr>) i Idle)"
| turn_recv_waits: "at_pc w i WantRecv \<Longrightarrow> recv_turn (chan w) = (c, RecvWaits) \<Longrightarrow>
     turn w (LTau i) (goto_pc (w\<lparr>chan := c\<rparr>) i WaitRecv)"
| notify_empty_one: "at_pc w i NotifyEmpty \<Longrightarrow> at_pc w j WaitRecv \<Longrightarrow> i \<noteq> j \<Longrightarrow>
     turn w (LTau i) (goto_pc (goto_pc w i Idle) j WantRecv)"
| notify_empty_nobody: "at_pc w i NotifyEmpty \<Longrightarrow> \<not> list_ex waits_recv (pcs w) \<Longrightarrow>
     turn w (LTau i) (goto_pc w i Idle)"
| notify_full_one: "at_pc w i NotifyFull \<Longrightarrow> at_pc w j (WaitSend v) \<Longrightarrow> i \<noteq> j \<Longrightarrow>
     turn w (LTau i) (goto_pc (goto_pc w i Idle) j (WantSend v))"
| notify_full_nobody: "at_pc w i NotifyFull \<Longrightarrow> \<not> list_ex waits_send (pcs w) \<Longrightarrow>
     turn w (LTau i) (goto_pc w i Idle)"
| notify_empty_all: "at_pc w i NotifyAllEmpty \<Longrightarrow>
     turn w (LTau i) (w\<lparr>pcs := map wake_receiver ((pcs w)[i := Idle])\<rparr>)"
| notify_full_all: "at_pc w i NotifyAllFull \<Longrightarrow>
     turn w (LTau i) (w\<lparr>pcs := map wake_sender ((pcs w)[i := Idle])\<rparr>)"

text \<open>
  The steps of the threads' own programs: a call begins, an end is cloned (for another thread or the
  same) or dropped, and a waiting thread wakes with no reason.
\<close>

inductive begin_call :: "'a world \<Rightarrow> 'a label \<Rightarrow> 'a world \<Rightarrow> bool" where
  call_send: "at_pc w i Idle \<Longrightarrow> 0 < txs w ! i \<Longrightarrow> begin_call w (LTau i) (goto_pc w i (WantSend v))"
| call_recv: "at_pc w i Idle \<Longrightarrow> 0 < rxs w ! i \<Longrightarrow> begin_call w (LTau i) (goto_pc w i WantRecv)"
| clone_tx: "at_pc w i Idle \<Longrightarrow> 0 < txs w ! i \<Longrightarrow> j < length (txs w) \<Longrightarrow>
     begin_call w (LTau i) (w\<lparr>chan := clone_sender (chan w), txs := (txs w)[j := txs w ! j + 1]\<rparr>)"
| clone_rx: "at_pc w i Idle \<Longrightarrow> 0 < rxs w ! i \<Longrightarrow> j < length (rxs w) \<Longrightarrow>
     begin_call w (LTau i) (w\<lparr>chan := clone_receiver (chan w), rxs := (rxs w)[j := rxs w ! j + 1]\<rparr>)"
| drop_tx: "at_pc w i Idle \<Longrightarrow> 0 < txs w ! i \<Longrightarrow> drop_sender (chan w) = (c, b) \<Longrightarrow>
     begin_call w (LTau i) (goto_pc (w\<lparr>chan := c, txs := (txs w)[i := txs w ! i - 1]\<rparr>) i
       (if b then NotifyAllEmpty else Idle))"
| drop_rx: "at_pc w i Idle \<Longrightarrow> 0 < rxs w ! i \<Longrightarrow> drop_receiver (chan w) = (c, b) \<Longrightarrow>
     begin_call w (LTau i) (goto_pc (w\<lparr>chan := c, rxs := (rxs w)[i := rxs w ! i - 1]\<rparr>) i
       (if b then NotifyAllFull else Idle))"
| spurious: "at_pc w i WaitRecv \<or> (\<exists>v. at_pc w i (WaitSend v)) \<Longrightarrow>
     begin_call w (LTau i) (goto_pc w i (wake_sender (wake_receiver (pcs w ! i))))"

definition chan_step :: "'a world \<Rightarrow> 'a label \<Rightarrow> 'a world \<Rightarrow> bool" where
  "chan_step w l w' \<longleftrightarrow> turn w l w' \<or> begin_call w l w'"

text \<open>A fresh channel among \<open>n\<close> threads, its sender held by thread \<open>a\<close> and its receiver by \<open>b\<close>.\<close>

definition fresh_world :: "nat \<Rightarrow> nat \<Rightarrow> nat \<Rightarrow> nat \<Rightarrow> 'a world" where
  "fresh_world cap n a b =
     \<lparr>chan = bounded cap, pcs = replicate n Idle, txs = (replicate n 0)[a := 1], rxs = (replicate n 0)[b := 1]\<rparr>"

subsection \<open>The invariant\<close>

definition cnt :: "('p \<Rightarrow> bool) \<Rightarrow> 'p list \<Rightarrow> nat" where
  "cnt P ps = length (filter P ps)"

lemma cnt_simps [simp]: "cnt P [] = 0" "cnt P (p # ps) = of_bool (P p) + cnt P ps"
  by (simp_all add: cnt_def)

lemma cnt_0: "cnt P ps = 0 \<longleftrightarrow> (\<forall>p \<in> set ps. \<not> P p)"
  by (auto simp: cnt_def filter_empty_conv)

lemma list_ex_cnt [simp]: "list_ex P ps \<longleftrightarrow> 0 < cnt P ps"
  by (induction ps) auto

lemma cnt_pos: "i < length ps \<Longrightarrow> P (ps ! i) \<Longrightarrow> 0 < cnt P ps"
  using cnt_0[of P ps] by (meson gr0I nth_mem)

lemma cnt_map: "cnt P (map f ps) = cnt (P \<circ> f) ps"
  by (induction ps) auto

lemma cnt_cong: "(\<And>p. P p = Q p) \<Longrightarrow> cnt P ps = cnt Q ps"
  by (induction ps) auto

lemma cnt_mono: "(\<And>p. P p \<Longrightarrow> Q p) \<Longrightarrow> cnt P ps \<le> cnt Q ps"
  by (induction ps) (auto simp: le_SucI)

lemma cnt_update: "i < length ps \<Longrightarrow> cnt P (ps[i := p]) + of_bool (P (ps ! i)) = cnt P ps + of_bool (P p)"
proof (induction ps arbitrary: i)
  case (Cons q ps)
  then show ?case by (cases i) auto
qed simp

text \<open>The three cases of an update, as rewrite rules.\<close>

lemma cnt_same [simp]: "i < length ps \<Longrightarrow> P (ps ! i) = P p \<Longrightarrow> cnt P (ps[i := p]) = cnt P ps"
  using cnt_update[of i ps P p] by simp

lemma cnt_inc [simp]: "i < length ps \<Longrightarrow> \<not> P (ps ! i) \<Longrightarrow> P p \<Longrightarrow> cnt P (ps[i := p]) = Suc (cnt P ps)"
  using cnt_update[of i ps P p] by simp

lemma cnt_dec [simp]: "i < length ps \<Longrightarrow> P (ps ! i) \<Longrightarrow> \<not> P p \<Longrightarrow> cnt P (ps[i := p]) = cnt P ps - 1"
  using cnt_update[of i ps P p] by simp

lemma sum_list_inc [simp]: "j < length ns \<Longrightarrow> sum_list (ns[j := Suc (ns ! j)]) = Suc (sum_list (ns :: nat list))"
proof (induction ns arbitrary: j)
  case (Cons n ns)
  then show ?case by (cases j) auto
qed simp

lemma sum_list_dec [simp]: "j < length ns \<Longrightarrow> 0 < ns ! j \<Longrightarrow> sum_list (ns[j := ns ! j - Suc 0]) = sum_list (ns :: nat list) - 1"
proof (induction ns arbitrary: j)
  case (Cons n ns)
  then show ?case using elem_le_sum_list[of "j - 1" ns] by (cases j) auto
qed simp

text \<open>Who is in which call, and who is awake at an end: about to take its turn, or about to notify it.\<close>

fun in_send :: "'a pc \<Rightarrow> bool" where
  "in_send (WantSend v) = True"
| "in_send (WaitSend v) = True"
| "in_send _ = False"

fun in_recv :: "'a pc \<Rightarrow> bool" where
  "in_recv WantRecv = True"
| "in_recv WaitRecv = True"
| "in_recv _ = False"

fun awake_recv :: "'a pc \<Rightarrow> bool" where
  "awake_recv WantRecv = True"
| "awake_recv NotifyEmpty = True"
| "awake_recv _ = False"

fun awake_send :: "'a pc \<Rightarrow> bool" where
  "awake_send (WantSend v) = True"
| "awake_send NotifyFull = True"
| "awake_send _ = False"

fun closing_send :: "'a pc \<Rightarrow> bool" where
  "closing_send NotifyAllEmpty = True"
| "closing_send _ = False"

fun closing_recv :: "'a pc \<Rightarrow> bool" where
  "closing_recv NotifyAllFull = True"
| "closing_recv _ = False"

text \<open>
  The counts of the ends are the ends there are, a call is made by a thread that holds its end, and no
  wakeup is lost: while a receiver waits, every item has a receiver awake for it, and once the last
  sender is gone a notification to all is under way; and the same for waiting senders and free slots.
\<close>

definition ends_inv :: "'a world \<Rightarrow> bool" where
  "ends_inv w \<longleftrightarrow>
     length (txs w) = length (pcs w) \<and> length (rxs w) = length (pcs w)
     \<and> senders (chan w) = sum_list (txs w) \<and> receivers (chan w) = sum_list (rxs w)
     \<and> (\<forall>i < length (pcs w). (in_send (pcs w ! i) \<longrightarrow> 0 < txs w ! i) \<and> (in_recv (pcs w ! i) \<longrightarrow> 0 < rxs w ! i))"

definition queue_inv :: "'a world \<Rightarrow> bool" where
  "queue_inv w \<longleftrightarrow> 1 \<le> capacity (chan w) \<and> length (items (chan w)) \<le> capacity (chan w)"

definition recv_inv :: "'a world \<Rightarrow> bool" where
  "recv_inv w \<longleftrightarrow> cnt waits_recv (pcs w) = 0 \<or>
     length (items (chan w)) \<le> cnt awake_recv (pcs w) \<and> (senders (chan w) = 0 \<longrightarrow> 0 < cnt closing_send (pcs w))"

definition send_inv :: "'a world \<Rightarrow> bool" where
  "send_inv w \<longleftrightarrow> cnt waits_send (pcs w) = 0 \<or>
     (if receivers (chan w) = 0 then 0 < cnt closing_recv (pcs w)
      else capacity (chan w) \<le> length (items (chan w)) + cnt awake_send (pcs w))"

definition chan_inv :: "'a world \<Rightarrow> bool" where
  "chan_inv w \<longleftrightarrow> ends_inv w \<and> queue_inv w \<and> recv_inv w \<and> send_inv w"

lemmas turn_funs = send_turn_def recv_turn_def clone_sender_def clone_receiver_def drop_sender_def
  drop_receiver_def Let_def goto_pc_def at_pc_def

lemma wake_receiver_pc [simp]:
  "waits_recv (wake_receiver p) = False" "waits_send (wake_receiver p) = waits_send p"
  "awake_send (wake_receiver p) = awake_send p" "closing_recv (wake_receiver p) = closing_recv p"
  "in_send (wake_receiver p) = in_send p" "in_recv (wake_receiver p) = in_recv p"
  by (cases p; simp)+

lemma wake_sender_pc [simp]:
  "waits_send (wake_sender p) = False" "waits_recv (wake_sender p) = waits_recv p"
  "awake_recv (wake_sender p) = awake_recv p" "closing_send (wake_sender p) = closing_send p"
  "in_send (wake_sender p) = in_send p" "in_recv (wake_sender p) = in_recv p"
  by (cases p; simp)+

lemma cnt_wake [simp]:
  "cnt waits_recv (map wake_receiver ps) = 0" "cnt waits_send (map wake_receiver ps) = cnt waits_send ps"
  "cnt awake_send (map wake_receiver ps) = cnt awake_send ps"
  "cnt closing_recv (map wake_receiver ps) = cnt closing_recv ps"
  "cnt waits_send (map wake_sender ps) = 0" "cnt waits_recv (map wake_sender ps) = cnt waits_recv ps"
  "cnt awake_recv (map wake_sender ps) = cnt awake_recv ps"
  "cnt closing_send (map wake_sender ps) = cnt closing_send ps"
  by (simp_all add: cnt_map comp_def cnt_0)

lemma turn_queue: "queue_inv w \<Longrightarrow> turn w l w' \<Longrightarrow> queue_inv w'"
  by (erule turn.cases) (auto simp: queue_inv_def turn_funs split: if_splits list.splits)

lemma begin_queue: "queue_inv w \<Longrightarrow> begin_call w l w' \<Longrightarrow> queue_inv w'"
  by (erule begin_call.cases) (auto simp: queue_inv_def turn_funs)

lemma turn_ends: "ends_inv w \<Longrightarrow> turn w l w' \<Longrightarrow> ends_inv w'"
  by (erule turn.cases)
    (auto simp: ends_inv_def turn_funs nth_list_update split: if_splits list.splits)

lemma begin_ends: "ends_inv w \<Longrightarrow> begin_call w l w' \<Longrightarrow> ends_inv w'"
  by (erule begin_call.cases)
    (auto simp: ends_inv_def turn_funs nth_list_update split: if_splits)

lemma turn_recv: "recv_inv w \<Longrightarrow> turn w l w' \<Longrightarrow> recv_inv w'"
  by (erule turn.cases)
    (auto simp: recv_inv_def turn_funs split: if_splits list.splits)

lemma begin_recv: "recv_inv w \<Longrightarrow> begin_call w l w' \<Longrightarrow> recv_inv w'"
  by (erule begin_call.cases)
    (auto simp: recv_inv_def turn_funs split: if_splits)

lemma turn_send: "send_inv w \<Longrightarrow> turn w l w' \<Longrightarrow> send_inv w'"
  by (erule turn.cases)
    (auto simp: send_inv_def turn_funs split: if_splits list.splits)

lemma held_receiver: "ends_inv w \<Longrightarrow> i < length (pcs w) \<Longrightarrow> 0 < rxs w ! i \<Longrightarrow> 0 < receivers (chan w)"
  using elem_le_sum_list[of i "rxs w"] by (simp add: ends_inv_def)

lemma held_sender: "ends_inv w \<Longrightarrow> i < length (pcs w) \<Longrightarrow> 0 < txs w ! i \<Longrightarrow> 0 < senders (chan w)"
  using elem_le_sum_list[of i "txs w"] by (simp add: ends_inv_def)

lemma begin_send: "ends_inv w \<Longrightarrow> send_inv w \<Longrightarrow> begin_call w l w' \<Longrightarrow> send_inv w'"
  by (erule begin_call.cases)
    (auto simp: send_inv_def turn_funs split: if_splits dest: held_receiver)

lemma chan_step_inv: "chan_inv w \<Longrightarrow> chan_step w l w' \<Longrightarrow> chan_inv w'"
  unfolding chan_inv_def chan_step_def
  using turn_ends turn_queue turn_recv turn_send begin_ends begin_queue begin_recv begin_send by metis

lemma sum_list_one: "a < n \<Longrightarrow> sum_list ((replicate n 0)[a := Suc 0]) = Suc 0"
  by (simp add: sum_list_update sum_list_replicate)

lemma fresh_inv: "a < n \<Longrightarrow> b < n \<Longrightarrow> chan_inv (fresh_world cap n a b)"
  by (auto simp: chan_inv_def ends_inv_def queue_inv_def recv_inv_def send_inv_def fresh_world_def bounded_def
      sum_list_one cnt_0)

interpretation chan: stable_system chan_step chan_inv
  by unfold_locales (rule chan_step_inv)

subsection \<open>Every call comes to rest\<close>

text \<open>
  A turn lowers the weight: a woken thread costs less than the notification that woke it, and a
  notification to all costs more than every thread it can wake.
\<close>

fun pc_weight :: "nat \<Rightarrow> 'a pc \<Rightarrow> nat" where
  "pc_weight n Idle = 0"
| "pc_weight n (WantSend v) = 4"
| "pc_weight n WantRecv = 4"
| "pc_weight n (WaitSend v) = 2"
| "pc_weight n WaitRecv = 2"
| "pc_weight n NotifyEmpty = 3"
| "pc_weight n NotifyFull = 3"
| "pc_weight n NotifyAllEmpty = 2 * n + 1"
| "pc_weight n NotifyAllFull = 2 * n + 1"

definition world_weight :: "'a world \<Rightarrow> nat" where
  "world_weight w = sum_list (map (pc_weight (length (pcs w))) (pcs w))"

lemma weight_update:
  "i < length ps \<Longrightarrow> sum_list (map f (ps[i := p])) + f (ps ! i) = sum_list (map f ps) + (f p :: nat)"
proof (induction ps arbitrary: i)
  case (Cons q ps)
  show ?case
  proof (cases i)
    case (Suc k)
    then show ?thesis using Cons.IH[of k] Cons.prems by simp
  qed simp
qed simp

lemma weight_wake:
  "sum_list (map (pc_weight n \<circ> wake_receiver) ps) \<le> sum_list (map (pc_weight n) ps) + 2 * length ps"
  "sum_list (map (pc_weight n \<circ> wake_sender) ps) \<le> sum_list (map (pc_weight n) ps) + 2 * length ps"
proof -
  have "pc_weight n (wake_receiver p) \<le> pc_weight n p + 2" "pc_weight n (wake_sender p) \<le> pc_weight n p + 2" for p :: "'a pc"
    by (cases p; simp)+
  note w = this
  show "sum_list (map (pc_weight n \<circ> wake_receiver) ps) \<le> sum_list (map (pc_weight n) ps) + 2 * length ps"
  proof (induction ps)
    case (Cons p ps)
    then show ?case using w(1)[of p] by simp
  qed simp
  show "sum_list (map (pc_weight n \<circ> wake_sender) ps) \<le> sum_list (map (pc_weight n) ps) + 2 * length ps"
  proof (induction ps)
    case (Cons p ps)
    then show ?case using w(2)[of p] by simp
  qed simp
qed

lemma goto_weight:
  "at_pc w i p \<Longrightarrow> world_weight (goto_pc w i q) + pc_weight (length (pcs w)) p = world_weight w + pc_weight (length (pcs w)) q"
  using weight_update[of i "pcs w" "pc_weight (length (pcs w))" q]
  by (simp add: world_weight_def goto_pc_def at_pc_def)

lemma weight_chan [simp]: "world_weight (w\<lparr>chan := c\<rparr>) = world_weight w" "at_pc (w\<lparr>chan := c\<rparr>) i p = at_pc w i p"
  "pcs (goto_pc w i q) = (pcs w)[i := q]"
  by (simp_all add: world_weight_def at_pc_def goto_pc_def)

lemma turn_weight: "turn w l w' \<Longrightarrow> world_weight w' < world_weight w"
proof (induction rule: turn.induct)
  case (notify_empty_one w i j)
  then have "at_pc (goto_pc w i Idle) j WaitRecv" by (simp add: at_pc_def)
  from goto_weight[OF this, of WantRecv] goto_weight[OF notify_empty_one(1), of Idle] show ?case by simp
next
  case (notify_full_one w i j v)
  then have "at_pc (goto_pc w i Idle) j (WaitSend v)" by (simp add: at_pc_def)
  from goto_weight[OF this, of "WantSend v"] goto_weight[OF notify_full_one(1), of Idle] show ?case by simp
next
  case (notify_empty_all w i)
  then show ?case
    using weight_update[of i "pcs w" "pc_weight (length (pcs w))" Idle] weight_wake(1)[of "length (pcs w)" "(pcs w)[i := Idle]"]
    by (simp add: world_weight_def at_pc_def)
next
  case (notify_full_all w i)
  then show ?case
    using weight_update[of i "pcs w" "pc_weight (length (pcs w))" Idle] weight_wake(2)[of "length (pcs w)" "(pcs w)[i := Idle]"]
    by (simp add: world_weight_def at_pc_def)
next
  case (turn_sent w i v c)
  then show ?case using goto_weight[of "w\<lparr>chan := c\<rparr>" i "WantSend v" NotifyEmpty] by simp
next
  case (turn_send_err w i v c)
  then show ?case using goto_weight[of "w\<lparr>chan := c\<rparr>" i "WantSend v" Idle] by simp
next
  case (turn_send_waits w i v c)
  then show ?case using goto_weight[of "w\<lparr>chan := c\<rparr>" i "WantSend v" "WaitSend v"] by simp
next
  case (turn_received w i c v)
  then show ?case using goto_weight[of "w\<lparr>chan := c\<rparr>" i WantRecv NotifyFull] by simp
next
  case (turn_recv_none w i c)
  then show ?case using goto_weight[of "w\<lparr>chan := c\<rparr>" i WantRecv Idle] by simp
next
  case (turn_recv_waits w i c)
  then show ?case using goto_weight[of "w\<lparr>chan := c\<rparr>" i WantRecv WaitRecv] by simp
next
  case (notify_empty_nobody w i)
  then show ?case using goto_weight[of w i NotifyEmpty Idle] by simp
next
  case (notify_full_nobody w i)
  then show ?case using goto_weight[of w i NotifyFull Idle] by simp
qed

interpretation turns: settling_system turn world_weight
  by unfold_locales (rule turn_weight)

text \<open>Where nothing moves, a thread is outside the channel or waits.\<close>

lemma stuck_pcs:
  assumes "stuck turn w" "i < length (pcs w)"
  shows "pcs w ! i = Idle \<or> pcs w ! i = WaitRecv \<or> (\<exists>v. pcs w ! i = WaitSend v)"
proof -
  have no: "\<not> turn w l w'" for l w' using assms(1) by (simp add: stuck_def)
  note here = at_pc_def[of w i] assms(2)
  show ?thesis
  proof (cases "pcs w ! i")
    case (WantSend v)
    obtain c r where "send_turn (chan w) v = (c, r)" by fastforce
    then show ?thesis using turn_sent[of w i v c] turn_send_err[of w i v c] turn_send_waits[of w i v c] no here WantSend
      by (cases r) auto
  next
    case WantRecv
    obtain c r where "recv_turn (chan w) = (c, r)" by fastforce
    then show ?thesis using turn_received[of w i c] turn_recv_none[of w i c] turn_recv_waits[of w i c] no here WantRecv
      by (cases r) auto
  next
    case NotifyEmpty
    show ?thesis
    proof (cases "list_ex waits_recv (pcs w)")
      case True
      then obtain j where "j < length (pcs w)" "pcs w ! j = WaitRecv"
        by (auto simp: list_ex_iff in_set_conv_nth elim!: waits_recv.elims simp del: list_ex_cnt)
      then show ?thesis using notify_empty_one[of w i j] no here NotifyEmpty by (cases "i = j") (auto simp: at_pc_def)
    qed (use notify_empty_nobody[of w i] no here NotifyEmpty in auto)
  next
    case NotifyFull
    show ?thesis
    proof (cases "list_ex waits_send (pcs w)")
      case True
      then obtain j v where "j < length (pcs w)" "pcs w ! j = WaitSend v"
        by (auto simp: list_ex_iff in_set_conv_nth elim!: waits_send.elims simp del: list_ex_cnt)
      then show ?thesis using notify_full_one[of w i j v] no here NotifyFull by (cases "i = j") (auto simp: at_pc_def)
    qed (use notify_full_nobody[of w i] no here NotifyFull in auto)
  qed (use notify_empty_all[of w i] notify_full_all[of w i] no here in auto)
qed

lemma stuck_cnt: "stuck turn w \<Longrightarrow> (\<And>p. P p \<Longrightarrow> p \<noteq> Idle \<and> p \<noteq> WaitRecv \<and> (\<forall>v. p \<noteq> WaitSend v)) \<Longrightarrow> cnt P (pcs w) = 0"
  unfolding cnt_0 using stuck_pcs by (metis in_set_conv_nth)

subsection \<open>What passes through\<close>

text \<open>The values accepted and the values handed out by a run, in order.\<close>

fun sent :: "'a label list \<Rightarrow> 'a list" where
  "sent [] = []"
| "sent (LSent i v # ls) = v # sent ls"
| "sent (_ # ls) = sent ls"

fun received :: "'a label list \<Rightarrow> 'a list" where
  "received [] = []"
| "received (LReceived i v # ls) = v # received ls"
| "received (_ # ls) = received ls"

lemma step_items: "chan_step w l w' \<Longrightarrow> items (chan w) @ sent [l] = received [l] @ items (chan w')
    \<and> capacity (chan w') = capacity (chan w)"
  unfolding chan_step_def
  by (erule disjE; erule turn.cases begin_call.cases) (auto simp: turn_funs split: if_splits list.splits)

lemma sent_Cons: "sent (l # ls) = sent [l] @ sent ls" and received_Cons: "received (l # ls) = received [l] @ received ls"
  by (cases l; simp)+

lemma run_items: "run chan_step w ls w' \<Longrightarrow> items (chan w) @ sent ls = received ls @ items (chan w')
    \<and> capacity (chan w') = capacity (chan w)"
proof (induction rule: run.induct)
  case (run_more s l t ls u)
  have "items (chan s) @ sent (l # ls) = (items (chan s) @ sent [l]) @ sent ls" by (simp add: sent_Cons[of l ls])
  also have "\<dots> = received [l] @ (items (chan t) @ sent ls)" using step_items[OF run_more(1)] by simp
  also have "\<dots> = received (l # ls) @ items (chan u)" using run_more.IH by (simp add: received_Cons[of l ls])
  finally show ?case using step_items[OF run_more(1)] run_more.IH by simp
qed simp

text \<open>Once the last end of a kind is gone, there is none again, and what its other end sees is final.\<close>

lemma no_sender_step:
  assumes "chan_inv w" "senders (chan w) = 0" "chan_step w l w'"
  shows "senders (chan w') = 0 \<and> (items (chan w) = [] \<longrightarrow> items (chan w') = [])"
proof -
  have e: "ends_inv w" using assms(1) by (simp add: chan_inv_def)
  have t0: "txs w ! i = 0" if "i < length (pcs w)" for i
    using held_sender[OF e that] assms(2) by auto
  have "\<not> in_send (pcs w ! i)" if "i < length (pcs w)" for i
    using e t0[OF that] that by (auto simp: ends_inv_def)
  then have s: "pcs w ! i \<noteq> WantSend v" if "i < length (pcs w)" for i v using that by (metis in_send.simps(1))
  show ?thesis
    using assms(2,3) unfolding chan_step_def
    by (elim disjE turn.cases begin_call.cases) (use s t0 in \<open>auto simp: turn_funs split: if_splits list.splits\<close>)
qed

lemma no_receiver_step:
  assumes "chan_inv w" "receivers (chan w) = 0" "chan_step w l w'"
  shows "receivers (chan w') = 0"
proof -
  have e: "ends_inv w" using assms(1) by (simp add: chan_inv_def)
  have t0: "rxs w ! i = 0" if "i < length (pcs w)" for i
    using held_receiver[OF e that] assms(2) by auto
  show ?thesis
    using assms(2,3) unfolding chan_step_def
    by (elim disjE turn.cases begin_call.cases) (use t0 in \<open>auto simp: turn_funs split: if_splits list.splits\<close>)
qed

interpretation sender_gone: stable_system chan_step
  "\<lambda>w. chan_inv w \<and> senders (chan w) = 0 \<and> items (chan w) = []"
  by unfold_locales (use chan_step_inv no_sender_step in blast)

interpretation receiver_gone: stable_system chan_step "\<lambda>w. chan_inv w \<and> receivers (chan w) = 0"
  by unfold_locales (use chan_step_inv no_receiver_step in blast)

lemma none_means_gone: "turn w (LNone i) w' \<Longrightarrow> senders (chan w') = 0 \<and> items (chan w') = []"
  by (erule turn.cases) (auto simp: turn_funs split: if_splits list.splits)

lemma err_means_gone: "turn w (LSendErr i v) w' \<Longrightarrow> receivers (chan w') = 0"
  by (erule turn.cases) (auto simp: turn_funs split: if_splits list.splits)

text \<open>The abstract specification: a queue of bounded length.\<close>

fun queue_step :: "nat \<Rightarrow> 'a list \<Rightarrow> 'a label \<Rightarrow> 'a list \<Rightarrow> bool" where
  "queue_step cap q (LSent i v) q' \<longleftrightarrow> length q < cap \<and> q' = q @ [v]"
| "queue_step cap q (LReceived i v) q' \<longleftrightarrow> q = v # q'"
| "queue_step cap q (LNone i) q' \<longleftrightarrow> q = [] \<and> q' = []"
| "queue_step cap q (LSendErr i v) q' \<longleftrightarrow> q' = q"
| "queue_step cap q (LTau i) q' \<longleftrightarrow> q' = q"

lemma step_refines_queue: "chan_step w l w' \<Longrightarrow> queue_step (capacity (chan w)) (items (chan w)) l (items (chan w'))"
  unfolding chan_step_def
  by (erule disjE; erule turn.cases begin_call.cases) (auto simp: turn_funs split: if_splits list.splits)

lemma run_refines_queue:
  "run chan_step w ls w' \<Longrightarrow> run (queue_step (capacity (chan w))) (items (chan w)) ls (items (chan w'))"
proof (induction rule: run.induct)
  case (run_more s l t ls u)
  then show ?case using step_refines_queue[OF run_more(1)] step_items[OF run_more(1)] by (auto simp: run_Cons)
qed simp

subsection \<open>Properties\<close>

text \<open>
  C23. Whatever the threads do and however they interleave, a channel behaves as a bounded queue: every run
  of it is one of the queue's, so the values come out in the order they went in, none lost, none twice,
  and never more than the capacity are inside.
\<close>

theorem chan_refines_queue:
  assumes "a < n" "b < n" "run chan_step (fresh_world cap n a b) ls w"
  shows "run (queue_step (max cap 1)) [] ls (items (chan w))
    \<and> sent ls = received ls @ items (chan w) \<and> length (items (chan w)) \<le> max cap 1"
proof -
  have "chan_inv w" using chan.run_inv[OF assms(3) fresh_inv[OF assms(1,2)]] .
  then show ?thesis
    using run_refines_queue[OF assms(3)] run_items[OF assms(3)]
    by (simp add: fresh_world_def bounded_def chan_inv_def queue_inv_def)
qed

text \<open>
  C24. No wakeup is lost. From any state the threads can reach, the calls in progress come to rest after at
  most \<open>world_weight\<close> turns, whichever thread moves first; and then a call is still blocked only for its
  proper reason: a receiver because the queue is empty and a sender is alive, a sender because the queue
  is full and a receiver is alive. So receivers and senders are never blocked together.
\<close>

theorem chan_no_lost_wakeup:
  assumes "a < n" "b < n" "run chan_step (fresh_world cap n a b) ls w" "run turn w ms w'"
  shows "length ms \<le> world_weight w \<and> (\<exists>ks v. run turn w' ks v \<and> stuck turn v)
    \<and> (stuck turn w' \<longrightarrow>
        (\<forall>i < length (pcs w'). pcs w' ! i = Idle \<or> pcs w' ! i = WaitRecv \<or> (\<exists>x. pcs w' ! i = WaitSend x))
      \<and> (0 < cnt waits_recv (pcs w') \<longrightarrow> items (chan w') = [] \<and> 0 < senders (chan w'))
      \<and> (0 < cnt waits_send (pcs w') \<longrightarrow> length (items (chan w')) = max cap 1 \<and> 0 < receivers (chan w')))"
proof -
  have r: "run chan_step (fresh_world cap n a b) (ls @ ms) w'"
    unfolding run_append using assms(3) run_mono[OF assms(4), of chan_step] by (auto simp: chan_step_def)
  have inv: "chan_inv w'" using chan.run_inv[OF r fresh_inv[OF assms(1,2)]] .
  have cap: "capacity (chan w') = max cap 1" using run_items[OF r] by (simp add: fresh_world_def bounded_def)
  have "(0 < cnt waits_recv (pcs w') \<longrightarrow> items (chan w') = [] \<and> 0 < senders (chan w'))
      \<and> (0 < cnt waits_send (pcs w') \<longrightarrow> length (items (chan w')) = max cap 1 \<and> 0 < receivers (chan w'))"
    if st: "stuck turn w'"
  proof -
    have z: "cnt awake_recv (pcs w') = 0" "cnt closing_send (pcs w') = 0" "cnt awake_send (pcs w') = 0"
      "cnt closing_recv (pcs w') = 0"
      by (rule stuck_cnt[OF st]; auto)+
    show ?thesis
      using inv z cap by (auto simp: chan_inv_def queue_inv_def recv_inv_def send_inv_def split: if_splits)
  qed
  then show ?thesis using turns.run_length[OF assms(4)] turns.settles[of w'] stuck_pcs[of w'] by auto
qed

lemma gone_received: "chan_inv w \<Longrightarrow> receivers (chan w) = 0 \<Longrightarrow> turn w (LReceived i v) w' \<Longrightarrow> False"
proof -
  assume w: "chan_inv w" "receivers (chan w) = 0" "turn w (LReceived i v) w'"
  then have "i < length (pcs w)" "pcs w ! i = WantRecv" by (auto elim!: turn.cases simp: at_pc_def)
  then show False
    using w(1,2) held_receiver[of w i] by (auto simp: chan_inv_def ends_inv_def)
qed

lemma received_none:
  assumes "run chan_step w ms w'" "chan_inv w" "receivers (chan w) = 0"
  shows "received ms = [] \<and> receivers (chan w') = 0"
  using assms
proof (induction rule: run.induct)
  case (run_more s l t ls u)
  have "received [l] = []"
    using run_more(1) gone_received[OF run_more.prems] by (cases l) (auto simp: chan_step_def elim: begin_call.cases)
  then show ?case
    using run_more.IH chan_step_inv[OF run_more.prems(1) run_more(1)] no_receiver_step[OF run_more.prems run_more(1)]
    by (simp add: received_Cons[of l ls])
qed simp

text \<open>
  C25. Closing is final. When \<open>recv\<close> has answered \<open>None\<close>, every value that was ever accepted has been
  handed out, and from then on nothing is accepted or handed out any more; when \<open>send\<close> has handed its value
  back, no receiver is left and none ever takes a value again.
\<close>

theorem chan_closed_is_final:
  assumes "a < n" "b < n" "run chan_step (fresh_world cap n a b) ls w" "turn w l w'" "run chan_step w' ms w''"
  shows "((\<exists>i. l = LNone i) \<longrightarrow> received ls = sent ls \<and> sent ms = [] \<and> received ms = [] \<and> items (chan w'') = [])
    \<and> ((\<exists>i v. l = LSendErr i v) \<longrightarrow> receivers (chan w'') = 0 \<and> received ms = [])"
proof (rule conjI; rule impI)
  have st: "chan_step w l w'" using assms(4) by (simp add: chan_step_def)
  have inv: "chan_inv w" "chan_inv w'"
    using chan.run_inv[OF assms(3) fresh_inv[OF assms(1,2)]] chan_step_inv[OF _ st] by blast+
  { assume "\<exists>i. l = LNone i"
    then obtain i where l: "l = LNone i" by blast
    have g: "senders (chan w') = 0" "items (chan w') = []" using none_means_gone assms(4) l by blast+
    have e: "items (chan w'') = []" using sender_gone.run_inv[OF assms(5)] inv g by blast
    have "items (chan w) = []" using step_items[OF st] l g by simp
    then have "received ls = sent ls" using run_items[OF assms(3)] by (simp add: fresh_world_def bounded_def)
    moreover have "sent ms = received ms" using run_items[OF assms(5)] g(2) e by simp
    moreover have "sent ms = []"
      using assms(5) inv(2) g
    proof (induction rule: run.induct)
      case (run_more s l t ls u)
      have q: "queue_step (capacity (chan s)) [] l []" 
        using step_refines_queue[OF run_more(1)] run_more.prems no_sender_step[OF run_more.prems(1,2) run_more(1)] by simp
      then have "sent [l] = []" by (cases l) auto
      then show ?case
        using run_more.IH chan_step_inv[OF run_more.prems(1) run_more(1)] run_more.prems
          no_sender_step[OF run_more.prems(1,2) run_more(1)]
        by (simp add: sent_Cons[of l ls])
    qed simp
    ultimately show "received ls = sent ls \<and> sent ms = [] \<and> received ms = [] \<and> items (chan w'') = []"
      using e by simp }
  { assume "\<exists>i v. l = LSendErr i v"
    then obtain i v where l: "l = LSendErr i v" by blast
    have "receivers (chan w') = 0" using err_means_gone[of w i v w'] assms(4) l by simp
    then show "receivers (chan w'') = 0 \<and> received ms = []" using received_none[OF assms(5) inv(2)] by simp }
qed

text \<open>
  A run of two threads over a channel of one slot: thread 0 sends 7 and drops its sender, thread 1 receives
  7, then \<open>None\<close>.
\<close>

definition world_of :: "nat list \<Rightarrow> nat \<Rightarrow> nat pc \<Rightarrow> nat pc \<Rightarrow> nat world" where
  "world_of q s p0 p1 =
     \<lparr>chan = \<lparr>items = q, senders = s, receivers = 1, capacity = 1\<rparr>, pcs = [p0, p1], txs = [s, 0], rxs = [0, 1]\<rparr>"

lemmas example_simps = world_of_def turn_funs fresh_world_def bounded_def numeral_2_eq_2

lemma example_begin:
  "fresh_world 1 2 0 1 = world_of [] 1 Idle Idle"
  "begin_call (world_of [] 1 Idle Idle) (LTau 0) (world_of [] 1 (WantSend 7) Idle)"
  "begin_call (world_of [7] 1 Idle Idle) (LTau 0) (world_of [7] 0 NotifyAllEmpty Idle)"
  "begin_call (world_of q s Idle Idle) (LTau 1) (world_of q s Idle WantRecv)"
  using call_send[of "world_of [] 1 Idle Idle" 0 7] drop_tx[of "world_of [7] 1 Idle Idle" 0]
    call_recv[of "world_of q s Idle Idle" 1]
  by (simp_all add: example_simps)

lemma example_turns:
  "turn (world_of [] 1 (WantSend 7) Idle) (LSent 0 7) (world_of [7] 1 NotifyEmpty Idle)"
  "turn (world_of q s NotifyEmpty Idle) (LTau 0) (world_of q s Idle Idle)"
  "turn (world_of q s NotifyAllEmpty Idle) (LTau 0) (world_of q s Idle Idle)"
  "turn (world_of [7] s Idle WantRecv) (LReceived 1 7) (world_of [] s Idle NotifyFull)"
  "turn (world_of q s Idle NotifyFull) (LTau 1) (world_of q s Idle Idle)"
  "turn (world_of [] 0 Idle WantRecv) (LNone 1) (world_of [] 0 Idle Idle)"
  using turn_sent[of "world_of [] 1 (WantSend 7) Idle" 0 7] notify_empty_nobody[of "world_of q s NotifyEmpty Idle" 0]
    notify_empty_all[of "world_of q s NotifyAllEmpty Idle" 0] turn_received[of "world_of [7] s Idle WantRecv" 1]
    notify_full_nobody[of "world_of q s Idle NotifyFull" 1] turn_recv_none[of "world_of [] 0 Idle WantRecv" 1]
  by (simp_all add: example_simps)

lemma turn_is_step: "turn w l w' \<Longrightarrow> chan_step w l w'" and begin_is_step: "begin_call w l w' \<Longrightarrow> chan_step w l w'"
  by (simp_all add: chan_step_def)

lemmas example_steps = example_begin(2-4)[THEN begin_is_step] example_turns[THEN turn_is_step]

lemma example_run:
  "run chan_step (fresh_world 1 2 0 1) [LTau 0, LSent 0 7, LTau 0] (world_of [7] 1 Idle Idle)"
  "run chan_step (fresh_world 1 2 0 1)
     [LTau 0, LSent 0 7, LTau 0, LTau 0, LTau 0, LTau 1, LReceived 1 7, LTau 1, LTau 1] (world_of [] 0 Idle WantRecv)"
  unfolding example_begin(1) by (((rule run_more, rule example_steps)+)?, rule run_done)+

theorem chan_refines_queue_witness:
  "run chan_step (fresh_world 1 2 0 1) [LTau 0, LSent 0 (7::nat), LTau 0] (world_of [7] 1 Idle Idle)
   \<and> sent [LTau 0, LSent 0 (7::nat), LTau 0] = received [LTau 0, LSent 0 7, LTau 0] @ items (chan (world_of [7] 1 Idle Idle))"
  using chan_refines_queue[OF _ _ example_run(1)] example_run(1) by simp

theorem chan_no_lost_wakeup_witness:
  "run turn (world_of [] 0 Idle WantRecv) [LNone 1] (world_of [] 0 Idle Idle)
   \<and> length [LNone 1 :: nat label] \<le> world_weight (world_of [] 0 Idle WantRecv)"
proof -
  have r: "run turn (world_of [] 0 Idle WantRecv) [LNone 1] (world_of [] 0 Idle Idle)"
    by (rule run_more, rule example_turns(6), rule run_done)
  show ?thesis using chan_no_lost_wakeup[OF _ _ example_run(2) r] r by simp
qed

theorem chan_closed_is_final_witness:
  "turn (world_of [] 0 Idle WantRecv) (LNone 1) (world_of [] 0 Idle Idle)
   \<and> received [LTau 0, LSent 0 (7::nat), LTau 0, LTau 0, LTau 0, LTau 1, LReceived 1 7, LTau 1, LTau 1]
     = sent [LTau 0, LSent 0 7, LTau 0, LTau 0, LTau 0, LTau 1, LReceived 1 7, LTau 1, LTau 1]"
  using chan_closed_is_final[OF _ _ example_run(2) example_turns(6) run_done] example_turns(6) by simp

end
