(* ===== verification/Object_Source.thy ===== *)
theory Object_Source
  imports Dump_Reader
begin

section \<open>A dump in cloud storage\<close>

text \<open>
  \<open>src/source.rs\<close>: which locations are remote, how one is opened, and \<open>ObjectSource\<close>, a blocking reader
  over an object-store GET that resumes a broken stream from the offset already delivered. The object
  store, the URL parser and the file system are third-party: \<open>get\<close> answers a request for everything or
  for everything from an offset with a stream of items, each a chunk of bytes or an error, and may
  change the store's state \<open>'w\<close>; \<open>parse\<close> is \<open>Url::parse\<close>. The locale \<open>object_store\<close> states the contract of
  \<open>get\<close>, under which the reader is a \<open>byte_source\<close> of the object's bytes.
\<close>

type_synonym item = "bytes + bytes"

text \<open>What the code asks of a parsed URL: the scheme, the path, and \<open>to_file_path\<close>.\<close>

record url =
  url_scheme :: bytes
  url_path :: bytes
  url_file_path :: "bytes option"

definition REMOTE_SCHEMES :: "bytes list" where
  "REMOTE_SCHEMES = [''abfs'', ''abfss'', ''az'', ''adl'', ''azure'', ''gs'', ''s3'', ''s3a'', ''http'', ''https'']"

definition MAX_RESUMES :: nat where "MAX_RESUMES = 8"

definition is_remote :: "(bytes \<Rightarrow> bytes + url) \<Rightarrow> bytes \<Rightarrow> bool" where
  "is_remote parse uri =
     (case parse uri of Inr u \<Rightarrow> url_scheme u \<in> set REMOTE_SCHEMES | Inl _ \<Rightarrow> False)"

definition store_error :: "bytes \<Rightarrow> bytes \<Rightarrow> error" where
  "store_error ctx e = IoError (ctx @ '': '' @ e)"

definition local_path :: "(bytes \<Rightarrow> bytes + url) \<Rightarrow> bytes \<Rightarrow> bytes" where
  "local_path parse uri =
     (if starts_with uri ''file://'' then
        (case parse uri of
           Inr u \<Rightarrow> (case url_file_path u of Some p \<Rightarrow> p | None \<Rightarrow> url_path u)
         | Inl _ \<Rightarrow> uri)
      else uri)"

record 'w object_source =
  os_store :: 'w
  os_uri :: bytes
  os_total :: nat
  os_delivered :: nat
  os_resumes :: nat
  os_stream :: "item list option"
  os_pending :: bytes

type_synonym 'w get_fn = "'w \<Rightarrow> nat option \<Rightarrow> (bytes + item list) \<times> 'w"

definition open_stream :: "'w get_fn \<Rightarrow> 'w object_source \<Rightarrow> unit res \<times> 'w object_source" where
  "open_stream get s =
     (case get (os_store s) (if 0 < os_delivered s then Some (os_delivered s) else None) of
        (Inl e, w) \<Rightarrow>
          (Inl (store_error (''reading '' @ os_uri s @ '' from byte '' @ nat_str (os_delivered s)) e), s\<lparr>os_store := w\<rparr>)
      | (Inr stream, w) \<Rightarrow> (Inr (), s\<lparr>os_store := w, os_stream := Some stream\<rparr>))"

definition start :: "'w get_fn \<Rightarrow> 'w \<Rightarrow> nat \<Rightarrow> bytes \<Rightarrow> 'w object_source res" where
  "start get store object_size uri =
     (case open_stream get \<lparr>os_store = store, os_uri = uri, os_total = object_size, os_delivered = 0, os_resumes = 0,
          os_stream = None, os_pending = []\<rparr> of
        (Inl e, _) \<Rightarrow> Inl e
      | (Inr _, s) \<Rightarrow> Inr s)"

definition gave_up :: "'w object_source \<Rightarrow> bytes \<Rightarrow> bytes" where
  "gave_up s err = ''reading '' @ os_uri s @ '' failed after '' @ nat_str (os_resumes s) @ '' resumes at byte ''
     @ nat_str (os_delivered s) @ '' of '' @ nat_str (os_total s) @ '': '' @ err"

definition truncated :: "'w object_source \<Rightarrow> bytes" where
  "truncated s = ''reading '' @ os_uri s @ '' ended at byte '' @ nat_str (os_delivered s) @ '' of ''
     @ nat_str (os_total s) @ '': the transfer was truncated''"

text \<open>\<open>next_chunk\<close>: only a resume goes round the loop again.\<close>

function next_item :: "'w get_fn \<Rightarrow> 'w object_source \<Rightarrow> bytes option io_res \<times> 'w object_source" where
  "next_item get s =
     (case os_stream s of
        None \<Rightarrow> (Inr None, s)
      | Some [] \<Rightarrow>
          (if os_delivered s < os_total s then (Inl (truncated s), s\<lparr>os_stream := None\<rparr>)
           else (Inr None, s\<lparr>os_stream := None\<rparr>))
      | Some (Inr bs # r) \<Rightarrow>
          (Inr (Some bs), s\<lparr>os_stream := Some r, os_delivered := os_delivered s + length bs\<rparr>)
      | Some (Inl err # r) \<Rightarrow>
          (if os_total s \<le> os_delivered s then (Inr None, s\<lparr>os_stream := None\<rparr>)
           else if MAX_RESUMES \<le> os_resumes s then (Inl (gave_up s err), s\<lparr>os_stream := Some r\<rparr>)
           else (case open_stream get (s\<lparr>os_resumes := os_resumes s + 1, os_stream := None\<rparr>) of
                   (Inl e, s') \<Rightarrow> (Inl (display e), s')
                 | (Inr _, s') \<Rightarrow> next_item get s')))"
  by pat_completeness auto

lemma open_stream_resumes: "open_stream get s = (r, s') \<Longrightarrow> os_resumes s' = os_resumes s"
  by (auto simp: open_stream_def split: prod.splits sum.splits)

termination next_item
  by (relation "measure (\<lambda>(get, s). MAX_RESUMES - os_resumes s)") (auto dest!: open_stream_resumes[OF sym])

declare next_item.simps [simp del]

text \<open>The loop of \<open>read\<close>: pull chunks until one is not empty; \<open>False\<close> at the end of the stream.\<close>

lemma next_item_progress:
  assumes "next_item get s = (Inr (Some bs), s')"
  shows "os_resumes s < os_resumes s' \<and> os_resumes s' \<le> MAX_RESUMES
     \<or> os_resumes s' = os_resumes s \<and> length (the (os_stream s')) < length (the (os_stream s))"
  using assms
proof (induction get s arbitrary: bs s' rule: next_item.induct)
  case (1 get s)
  note step = next_item.simps[of get s]
  show ?case
  proof (cases "os_stream s")
    case None
    then show ?thesis using "1.prems" step by simp
  next
    case (Some items)
    show ?thesis
    proof (cases items)
      case Nil
      then show ?thesis using "1.prems" step Some by (simp split: if_splits)
    next
      case (Cons x r)
      show ?thesis
      proof (cases x)
        case (Inr b)
        then show ?thesis using "1.prems" step Some Cons by auto
      next
        case (Inl err)
        let ?s = "s\<lparr>os_resumes := os_resumes s + 1, os_stream := None\<rparr>"
        obtain q t where q: "open_stream get ?s = (q, t)" by fastforce
        have c: "\<not> os_total s \<le> os_delivered s" "\<not> MAX_RESUMES \<le> os_resumes s" "\<exists>u. q = Inr u"
          "next_item get t = (Inr (Some bs), s')"
          using "1.prems" step Some Cons Inl q by (auto split: if_splits sum.splits)
        then have "os_resumes t < os_resumes s' \<and> os_resumes s' \<le> MAX_RESUMES \<or> os_resumes s' = os_resumes t"
          using "1.IH"[OF Some Cons Inl c(1,2) q[symmetric]] by blast
        then show ?thesis using open_stream_resumes[OF q] c(2) by auto
      qed
    qed
  qed
qed

function fill_pending :: "'w get_fn \<Rightarrow> 'w object_source \<Rightarrow> bool io_res \<times> 'w object_source" where
  "fill_pending get s =
     (if os_pending s \<noteq> [] then (Inr True, s)
      else (case next_item get s of
              (Inl m, s') \<Rightarrow> (Inl m, s')
            | (Inr None, s') \<Rightarrow> (Inr False, s')
            | (Inr (Some bs), s') \<Rightarrow> fill_pending get (s'\<lparr>os_pending := bs\<rparr>)))"
  by pat_completeness auto
termination
  by (relation "measures [\<lambda>(get, s). MAX_RESUMES - os_resumes s, \<lambda>(get, s). length (the (os_stream s))]")
     (auto dest!: next_item_progress[OF sym])

declare fill_pending.simps [simp del]

definition source_read :: "'w get_fn \<Rightarrow> 'w object_source reader" where
  "source_read get s n =
     (if n = 0 then (Inr [], s)
      else (case fill_pending get s of
              (Inl m, s') \<Rightarrow> (Inl m, s')
            | (Inr found, s') \<Rightarrow>
                if found then (Inr (take n (os_pending s')), s'\<lparr>os_pending := drop n (os_pending s')\<rparr>)
                else (Inr [], s')))"

text \<open>What \<open>open\<close> returns: a buffered file, or an object source, with the size when it is known.\<close>

datatype ('f, 'w) input = LocalFile 'f | RemoteObject "'w object_source"

definition open_source ::
  "(bytes \<Rightarrow> bytes + url) \<Rightarrow> (bytes \<Rightarrow> bytes + 'f \<times> nat option) \<Rightarrow> (url \<Rightarrow> 'o \<Rightarrow> bytes + 'w) \<Rightarrow> ('w \<Rightarrow> (bytes + nat) \<times> 'w)
    \<Rightarrow> 'w get_fn \<Rightarrow> bytes \<Rightarrow> 'o \<Rightarrow> (('f, 'w) input \<times> nat option) res" where
  "open_source parse open_file store_for head_of get uri options =
     (if \<not> is_remote parse uri then
        (let path = local_path parse uri
         in case open_file path of
              Inl e \<Rightarrow> Inl (store_error (''opening '' @ path) e)
            | Inr (file, len) \<Rightarrow> Inr (LocalFile file, len))
      else
        (case parse uri of
           Inl e \<Rightarrow> Inl (store_error (''parsing '' @ uri) e)
         | Inr u \<Rightarrow>
             (case store_for u options of
                Inl e \<Rightarrow> Inl (store_error (''resolving '' @ uri) e)
              | Inr store \<Rightarrow>
                  (case head_of store of
                     (Inl e, _) \<Rightarrow> Inl (store_error (''reading metadata for '' @ uri) e)
                   | (Inr len, store') \<Rightarrow>
                       and_then (start get store' len uri) (\<lambda>reader. Inr (RemoteObject reader, Some len))))))"

subsection \<open>The contract of a store\<close>

text \<open>The bytes a stream delivers before its first error.\<close>

fun stream_of :: "item list \<Rightarrow> bytes" where
  "stream_of [] = []"
| "stream_of (Inr bs # r) = bs @ stream_of r"
| "stream_of (Inl e # r) = []"

definition from_offset :: "nat option \<Rightarrow> bytes \<Rightarrow> bytes" where
  "from_offset r obj = (case r of None \<Rightarrow> obj | Some n \<Rightarrow> drop n obj)"

text \<open>The invariant of a source whose store holds \<open>obj\<close>, and the bytes it has still to deliver.\<close>

definition source_inv :: "('w \<Rightarrow> bool) \<Rightarrow> bytes \<Rightarrow> 'w object_source \<Rightarrow> bool" where
  "source_inv sok obj s \<longleftrightarrow> sok (os_store s) \<and> os_total s = length obj \<and> os_delivered s \<le> length obj
     \<and> os_resumes s \<le> MAX_RESUMES
     \<and> (case os_stream s of
          None \<Rightarrow> os_delivered s = length obj
        | Some items \<Rightarrow> (\<exists>t. drop (os_delivered s) obj = stream_of items @ t))"

lemma source_inv_pending: "source_inv sok obj (s\<lparr>os_pending := p\<rparr>) = source_inv sok obj s"
  by (simp add: source_inv_def split: option.split)

definition source_rest :: "bytes \<Rightarrow> 'w object_source \<Rightarrow> bytes" where
  "source_rest obj s = os_pending s @ drop (os_delivered s) obj"

definition item_post :: "('w \<Rightarrow> bool) \<Rightarrow> bytes \<Rightarrow> 'w object_source \<Rightarrow> bytes option io_res \<Rightarrow> 'w object_source \<Rightarrow> bool" where
  "item_post sok obj s r s' =
     (case r of
        Inl m \<Rightarrow> True
      | Inr None \<Rightarrow> source_inv sok obj s' \<and> os_pending s' = os_pending s \<and> os_delivered s = length obj
          \<and> os_delivered s' = length obj
      | Inr (Some bs) \<Rightarrow> source_inv sok obj s' \<and> os_pending s' = os_pending s
          \<and> drop (os_delivered s) obj = bs @ drop (os_delivered s') obj)"

lemma item_post_cong:
  "os_pending s = os_pending t \<Longrightarrow> os_delivered s = os_delivered t \<Longrightarrow> item_post sok obj s r s' = item_post sok obj t r s'"
  by (simp add: item_post_def split: sum.split option.split)

lemma source_rest_take:
  "source_rest obj t = take n (os_pending t) @ source_rest obj (t\<lparr>os_pending := drop n (os_pending t)\<rparr>)"
  by (simp add: source_rest_def flip: append_assoc)

lemma source_read_InrE:
  assumes "source_read get s n = (Inr bs, s')"
  obtains "n = 0" "bs = []" "s' = s"
    | t where "0 < n" "fill_pending get s = (Inr True, t)" "bs = take n (os_pending t)"
        "s' = t\<lparr>os_pending := drop n (os_pending t)\<rparr>"
    | "0 < n" "fill_pending get s = (Inr False, s')" "bs = []"
  using assms by (auto simp: source_read_def split: if_splits prod.splits sum.splits)

text \<open>
  A request for the bytes from an offset is answered by the bytes of the object from that offset, in any
  pieces, cut short anywhere by an error or by nothing at all.
\<close>

locale object_store =
  fixes get :: "'w get_fn" and obj :: bytes and sok :: "'w \<Rightarrow> bool"
  assumes get_keeps: "sok w \<Longrightarrow> get w r = (Inr stream, w') \<Longrightarrow> sok w'"
    and get_bytes: "sok w \<Longrightarrow> get w r = (Inr stream, w') \<Longrightarrow> \<exists>t. from_offset r obj = stream_of stream @ t"
begin

lemma open_stream_inv:
  assumes "open_stream get s = (Inr u, s')" "sok (os_store s)" "os_total s = length obj"
    "os_delivered s \<le> length obj" "os_resumes s \<le> MAX_RESUMES"
  shows "source_inv sok obj s' \<and> os_pending s' = os_pending s \<and> os_delivered s' = os_delivered s
    \<and> os_resumes s' = os_resumes s"
proof -
  let ?r = "if 0 < os_delivered s then Some (os_delivered s) else None"
  obtain stream w where g: "get (os_store s) ?r = (Inr stream, w)" "s' = s\<lparr>os_store := w, os_stream := Some stream\<rparr>"
    using assms(1) unfolding open_stream_def by (auto split: prod.splits sum.splits)
  have "from_offset ?r obj = drop (os_delivered s) obj" by (simp add: from_offset_def)
  then show ?thesis
    using get_keeps[OF assms(2) g(1)] get_bytes[OF assms(2) g(1)] assms(3-5) g(2) by (simp add: source_inv_def)
qed

lemma next_item_post: "source_inv sok obj s \<Longrightarrow> next_item get s = (r, s') \<Longrightarrow> item_post sok obj s r s'"
proof (induction "MAX_RESUMES - os_resumes s" arbitrary: s r s' rule: less_induct)
  case less
  note step = next_item.simps[of get s]
  show ?case
  proof (cases "os_stream s")
    case None
    then show ?thesis using less.prems step by (auto simp: item_post_def source_inv_def)
  next
    case (Some items)
    show ?thesis
    proof (cases items)
      case Nil
      then show ?thesis using less.prems step Some by (auto simp: item_post_def source_inv_def split: if_splits)
    next
      case (Cons x rs)
      show ?thesis
      proof (cases x)
        case (Inr bs)
        let ?d = "os_delivered s"
        obtain t where t: "drop ?d obj = bs @ stream_of rs @ t"
          using less.prems(1) Some Cons Inr by (auto simp: source_inv_def)
        have "length bs \<le> length (bs @ stream_of rs @ t)" by simp
        then have "length bs \<le> length obj - ?d" unfolding t[symmetric] by simp
        moreover have "drop (?d + length bs) obj = drop (length bs) (drop ?d obj)" by (simp add: add.commute)
        moreover have "?d \<le> length obj" using less.prems(1) by (simp add: source_inv_def)
        ultimately have "?d + length bs \<le> length obj" "drop (?d + length bs) obj = stream_of rs @ t"
          using t by (linarith, simp)
        then show ?thesis
          using less.prems step Some Cons Inr t by (auto simp: item_post_def source_inv_def)
      next
        case (Inl err)
        let ?s = "s\<lparr>os_resumes := os_resumes s + 1, os_stream := None\<rparr>"
        consider "os_total s \<le> os_delivered s" | "\<not> os_total s \<le> os_delivered s" "MAX_RESUMES \<le> os_resumes s"
          | "\<not> os_total s \<le> os_delivered s" "\<not> MAX_RESUMES \<le> os_resumes s" by blast
        then show ?thesis
        proof cases
          case 3
          obtain q t where q: "open_stream get ?s = (q, t)" by fastforce
          show ?thesis
          proof (cases q)
            case (Inl e)
            then show ?thesis using less.prems(2) step Some Cons \<open>x = Inl err\<close> 3 q by (auto simp: item_post_def)
          next
            case (Inr u)
            have t: "source_inv sok obj t \<and> os_pending t = os_pending s \<and> os_delivered t = os_delivered s
                \<and> os_resumes t = os_resumes s + 1"
              using open_stream_inv[OF q[unfolded Inr]] less.prems(1) 3 by (simp add: source_inv_def)
            have "next_item get t = (r, s')" using less.prems(2) step Some Cons Inl 3 q Inr by simp
            then have "item_post sok obj t r s'" using less.hyps[of t r s'] t 3 by simp
            then show ?thesis using item_post_cong[of s t] t by simp
          qed
        qed (use less.prems step Some Cons Inl in \<open>auto simp: item_post_def source_inv_def\<close>)
      qed
    qed
  qed
qed

lemma fill_pending_post:
  "source_inv sok obj s \<Longrightarrow> fill_pending get s = (Inr b, s') \<Longrightarrow>
     source_inv sok obj s' \<and> source_rest obj s' = source_rest obj s \<and> (b \<longleftrightarrow> os_pending s' \<noteq> [])
     \<and> (\<not> b \<longrightarrow> source_rest obj s = [])"
proof (induction g \<equiv> get s rule: fill_pending.induct)
  case (1 s)
  note step = fill_pending.simps[of get s]
  show ?case
  proof (cases "os_pending s = []")
    case False
    then show ?thesis using "1.prems" step by auto
  next
    case True
    obtain q t where q: "next_item get s = (q, t)" by fastforce
    note post = next_item_post[OF "1.prems"(1) q]
    show ?thesis
    proof (cases q)
      case (Inl m)
      then show ?thesis using "1.prems"(2) step True q by simp
    next
      case (Inr oc)
      show ?thesis
      proof (cases oc)
        case None
        then show ?thesis using "1.prems"(2) step True q Inr post by (auto simp: item_post_def source_rest_def)
      next
        case (Some bs)
        let ?t = "t\<lparr>os_pending := bs\<rparr>"
        have "source_inv sok obj ?t" using post Inr Some by (simp add: item_post_def source_inv_pending)
        moreover have "source_rest obj ?t = source_rest obj s"
          using post Inr Some True by (simp add: item_post_def source_rest_def)
        moreover have "fill_pending get ?t = (Inr b, s')" using "1.prems"(2) step True q Inr Some by simp
        ultimately show ?thesis using "1.hyps"[of _ _ oc bs] True q Inr Some by simp
      qed
    qed
  qed
qed

lemma source_byte_source: "byte_source (source_read get) (source_rest obj) (source_inv sok obj)"
proof (unfold_locales, goal_cases)
  case (1 s n bs s')
  then show ?case by (elim source_read_InrE) (auto dest: fill_pending_post simp: source_inv_pending)
next
  case (2 s n bs s')
  then show ?case
    by (elim source_read_InrE) (metis append_Nil source_rest_take fill_pending_post)+
next
  case (3 s n bs s')
  then show ?case by (elim source_read_InrE) auto
next
  case (4 s n s')
  then show ?case by (elim source_read_InrE) (auto dest: fill_pending_post)
qed

end

subsection \<open>A store that breaks a bounded number of times\<close>

definition errs :: "item list \<Rightarrow> bool" where
  "errs stream \<longleftrightarrow> list_ex isl stream"

text \<open>Every request is answered, a stream that does not break is complete, and only so many break.\<close>

locale flaky_store = object_store get obj sok
  for get :: "'w get_fn" and obj :: bytes and sok :: "'w \<Rightarrow> bool" +
  fixes breaks :: "'w \<Rightarrow> nat"
  assumes get_answers: "sok w \<Longrightarrow> \<exists>stream w'. get w r = (Inr stream, w')"
    and get_breaks: "sok w \<Longrightarrow> get w r = (Inr stream, w') \<Longrightarrow> breaks w' + of_bool (errs stream) \<le> breaks w"
    and get_whole: "sok w \<Longrightarrow> get w r = (Inr stream, w') \<Longrightarrow> \<not> errs stream \<Longrightarrow> stream_of stream = from_offset r obj"

definition survives :: "('w \<Rightarrow> bool) \<Rightarrow> bytes \<Rightarrow> ('w \<Rightarrow> nat) \<Rightarrow> 'w object_source \<Rightarrow> bool" where
  "survives sok obj breaks s \<longleftrightarrow> source_inv sok obj s \<and>
     (case os_stream s of
        None \<Rightarrow> True
      | Some items \<Rightarrow> breaks (os_store s) + of_bool (errs items) + os_resumes s \<le> MAX_RESUMES
          \<and> (\<not> errs items \<longrightarrow> stream_of items = drop (os_delivered s) obj))"

lemma survives_pending: "survives sok obj breaks (s\<lparr>os_pending := p\<rparr>) = survives sok obj breaks s"
  by (simp add: survives_def source_inv_pending split: option.split)

context flaky_store
begin

lemma open_stream_survives:
  assumes "sok (os_store s)" "os_total s = length obj" "os_delivered s \<le> length obj"
    "breaks (os_store s) + os_resumes s \<le> MAX_RESUMES"
  shows "\<exists>s'. open_stream get s = (Inr (), s') \<and> survives sok obj breaks s' \<and> os_resumes s' = os_resumes s"
proof -
  let ?r = "if 0 < os_delivered s then Some (os_delivered s) else None"
  obtain stream w where g: "get (os_store s) ?r = (Inr stream, w)" using get_answers[OF assms(1)] by blast
  then have o: "open_stream get s = (Inr (), s\<lparr>os_store := w, os_stream := Some stream\<rparr>)" (is "_ = (_, ?s)")
    by (simp add: open_stream_def)
  have "os_resumes s \<le> MAX_RESUMES" using assms(4) by simp
  from open_stream_inv[OF o assms(1-3) this] have "source_inv sok obj ?s" by simp
  moreover have "from_offset ?r obj = drop (os_delivered s) obj" by (simp add: from_offset_def)
  ultimately have "survives sok obj breaks ?s"
    using get_breaks[OF assms(1) g] get_whole[OF assms(1) g] assms(4) by (simp add: survives_def)
  then show ?thesis using o by simp
qed

lemma next_item_survives:
  "survives sok obj breaks s \<Longrightarrow> next_item get s = (r, s') \<Longrightarrow> (\<exists>oc. r = Inr oc) \<and> survives sok obj breaks s'"
proof (induction "MAX_RESUMES - os_resumes s" arbitrary: s r s' rule: less_induct)
  case less
  note step = next_item.simps[of get s]
  have inv: "source_inv sok obj s" using less.prems(1) by (simp add: survives_def)
  have post: "item_post sok obj s r s'" by (rule next_item_post[OF inv less.prems(2)])
  show ?case
  proof (cases "os_stream s")
    case None
    then show ?thesis using less.prems step by auto
  next
    case (Some items)
    note sv = less.prems(1)[unfolded survives_def Some option.case]
    show ?thesis
    proof (cases items)
      case Nil
      then have "drop (os_delivered s) obj = []" using sv by (simp add: errs_def)
      then have "r = Inr None" "s' = s\<lparr>os_stream := None\<rparr>"
        using less.prems(2) step Some Nil inv by (simp_all add: source_inv_def)
      then show ?thesis using post by (simp add: survives_def item_post_def)
    next
      case (Cons x rs)
      show ?thesis
      proof (cases x)
        case (Inr bs)
        then have "r = Inr (Some bs)" "s' = s\<lparr>os_stream := Some rs, os_delivered := os_delivered s + length bs\<rparr>"
          using less.prems(2) step Some Cons by simp_all
        then show ?thesis
          using post sv Cons Inr by (auto simp: survives_def item_post_def errs_def)
      next
        case (Inl err)
        then have e: "errs items" using Cons by (simp add: errs_def)
        let ?s = "s\<lparr>os_resumes := os_resumes s + 1, os_stream := None\<rparr>"
        show ?thesis
        proof (cases "os_total s \<le> os_delivered s")
          case True
          then have "r = Inr None" "s' = s\<lparr>os_stream := None\<rparr>" using less.prems(2) step Some Cons Inl by simp_all
          then show ?thesis using post by (simp add: survives_def item_post_def)
        next
          case False
          have m: "os_resumes s < MAX_RESUMES" using sv e by simp
          obtain t where t: "open_stream get ?s = (Inr (), t)" "survives sok obj breaks t" "os_resumes t = os_resumes s + 1"
            using open_stream_survives[of ?s] sv e inv by (auto simp: source_inv_def)
          have "next_item get t = (r, s')" using less.prems(2) step Some Cons Inl False m t(1) by simp
          then show ?thesis using less.hyps[of t r s'] t m by simp
        qed
      qed
    qed
  qed
qed

lemma fill_pending_survives:
  "survives sok obj breaks s \<Longrightarrow> fill_pending get s = (r, s') \<Longrightarrow> (\<exists>b. r = Inr b) \<and> survives sok obj breaks s'"
proof (induction g \<equiv> get s rule: fill_pending.induct)
  case (1 s)
  note step = fill_pending.simps[of get s]
  show ?case
  proof (cases "os_pending s = []")
    case True
    obtain q t where q: "next_item get s = (q, t)" by fastforce
    obtain oc where oc: "q = Inr oc" "survives sok obj breaks t" using next_item_survives[OF "1.prems"(1) q] by blast
    show ?thesis
    proof (cases oc)
      case (Some bs)
      have "fill_pending get (t\<lparr>os_pending := bs\<rparr>) = (r, s')" using "1.prems"(2) step True q oc Some by simp
      then show ?thesis using "1.hyps"[of q t oc bs] True q oc Some by (simp add: survives_pending)
    qed (use "1.prems"(2) step True q oc in auto)
  qed (use "1.prems" step in auto)
qed

lemma read_survives:
  assumes "survives sok obj breaks s"
  shows "\<exists>bs s'. source_read get s n = (Inr bs, s') \<and> survives sok obj breaks s'"
proof (cases "n = 0")
  case False
  obtain r t where r: "fill_pending get s = (r, t)" by fastforce
  then obtain b where "r = Inr b" "survives sok obj breaks t" using fill_pending_survives[OF assms] by blast
  then show ?thesis using r False by (auto simp: source_read_def survives_pending)
qed (use assms in \<open>auto simp: source_read_def\<close>)

end

text \<open>
  A concrete store: the state is the list of places at which the next answers break off, \<open>k\<close> bytes into
  the range asked for; when it is used up, every answer is complete.
\<close>

definition scripted_get :: "bytes \<Rightarrow> nat list get_fn" where
  "scripted_get obj script r =
     (case script of
        [] \<Rightarrow> (Inr [Inr (from_offset r obj)], [])
      | k # ks \<Rightarrow> (Inr [Inr (take k (from_offset r obj)), Inl ''connection reset''], ks))"

interpretation scripted: flaky_store "scripted_get obj" obj "\<lambda>_. True" length for obj
proof (unfold_locales, goal_cases)
  case (2 w r stream w')
  then show ?case
    by (cases w) (auto simp: scripted_get_def intro: exI[of _ "drop (hd w) (from_offset r obj)"])
next
  case (3 w r)
  then show ?case by (cases w) (auto simp: scripted_get_def)
next
  case (4 w r stream w')
  then show ?case by (cases w) (auto simp: scripted_get_def errs_def)
next
  case (5 w r stream w')
  then show ?case by (cases w) (auto simp: scripted_get_def errs_def)
qed simp

subsection \<open>Properties\<close>

lemma start_inv:
  assumes "object_store get obj sok" "sok w" "start get w (length obj) uri = Inr s"
  shows "source_inv sok obj s \<and> source_rest obj s = obj"
proof -
  obtain u where o: "open_stream get \<lparr>os_store = w, os_uri = uri, os_total = length obj, os_delivered = 0,
      os_resumes = 0, os_stream = None, os_pending = []\<rparr> = (Inr u, s)"
    using assms(3) by (auto simp: start_def split: prod.splits sum.splits)
  show ?thesis using object_store.open_stream_inv[OF assms(1) o] assms(2) by (simp add: source_rest_def)
qed

text \<open>
  C26. A dump read from an object store, however the transfer is cut into pieces and wherever it breaks, is
  delivered exactly or not at all: reading it to its end in chunks returns, and the chunks are the bytes
  of the object, none missing at the end, none repeated where a stream was resumed; otherwise it is an
  error, never a short dump.
\<close>

theorem remote_dump_is_exact:
  assumes "object_store get obj sok" "sok w" "start get w (length obj) uri = Inr s"
  shows "\<exists>r. all_chunks (source_read get) (with_limits s target limit) = Some r \<and>
    (case r of
       Inr cs \<Rightarrow> chunks_of (max limit (max target 1)) obj cs
     | Inl e \<Rightarrow> (\<exists>m. e = IoError m)
         \<or> (e = RowTooLarge (max limit (max target 1)) (max limit (max target 1))
            \<and> unsplittable (max limit (max target 1)) obj))"
  using all_chunks_partition[OF object_store.source_byte_source[OF assms(1)], of s target limit] start_inv[OF assms]
  by (simp cong: sum.case_cong)

theorem remote_dump_is_exact_witness:
  "start (scripted_get ''abcde'') [2, 1] (length ''abcde'') ''gs://b/o'' =
      Inr \<lparr>os_store = [1], os_uri = ''gs://b/o'', os_total = 5, os_delivered = 0, os_resumes = 0,
        os_stream = Some [Inr ''ab'', Inl ''connection reset''], os_pending = []\<rparr>
   \<and> (\<exists>r. all_chunks (source_read (scripted_get ''abcde'')) (with_limits \<lparr>os_store = [1], os_uri = ''gs://b/o'',
          os_total = 5, os_delivered = 0, os_resumes = 0,
          os_stream = Some [Inr ''ab'', Inl ''connection reset''], os_pending = []\<rparr> 4 16) = Some r)"
proof -
  have s: "start (scripted_get ''abcde'') [2, 1] (length ''abcde'') ''gs://b/o'' =
      Inr \<lparr>os_store = [1], os_uri = ''gs://b/o'', os_total = 5, os_delivered = 0, os_resumes = 0,
        os_stream = Some [Inr ''ab'', Inl ''connection reset''], os_pending = []\<rparr>"
    by (simp add: start_def open_stream_def scripted_get_def from_offset_def)
  show ?thesis using remote_dump_is_exact[OF scripted.object_store_axioms TrueI s, of 4 16] s by blast
qed

text \<open>
  C27. Up to \<open>MAX_RESUMES\<close> broken streams cost nothing: if the store answers every request and breaks off at
  most 8 of its answers, then every read succeeds and delivers the next bytes of the object, nothing
  only at its end.
\<close>

theorem broken_streams_survived:
  assumes "flaky_store get obj sok breaks"
  shows "(survives sok obj breaks s \<longrightarrow> (\<exists>bs s'. source_read get s n = (Inr bs, s') \<and> survives sok obj breaks s'
      \<and> source_rest obj s = bs @ source_rest obj s' \<and> (0 < n \<and> bs = [] \<longrightarrow> source_rest obj s = [])))
    \<and> (sok w \<and> breaks w \<le> MAX_RESUMES \<longrightarrow>
      (\<exists>s0. start get w (length obj) uri = Inr s0 \<and> survives sok obj breaks s0 \<and> source_rest obj s0 = obj))"
proof (rule conjI; rule impI)
  have st: "object_store get obj sok" using assms(1) by (simp add: flaky_store_def)
  assume sv: "survives sok obj breaks s"
  obtain bs s' where r: "source_read get s n = (Inr bs, s')" "survives sok obj breaks s'"
    using flaky_store.read_survives[OF assms sv, of n] by blast
  have inv: "source_inv sok obj s" using sv by (simp add: survives_def)
  note bsrc = object_store.source_byte_source[OF st]
  show "\<exists>bs s'. source_read get s n = (Inr bs, s') \<and> survives sok obj breaks s'
    \<and> source_rest obj s = bs @ source_rest obj s' \<and> (0 < n \<and> bs = [] \<longrightarrow> source_rest obj s = [])"
    using r byte_source.read_rest[OF bsrc inv r(1)] byte_source.read_eof[OF bsrc inv, of n s'] by blast
next
  have st: "object_store get obj sok" using assms(1) by (simp add: flaky_store_def)
  assume "sok w \<and> breaks w \<le> MAX_RESUMES"
  then have w: "sok w" "breaks w \<le> MAX_RESUMES" by auto
  let ?s = "\<lparr>os_store = w, os_uri = uri, os_total = length obj, os_delivered = 0, os_resumes = 0,
      os_stream = None, os_pending = []\<rparr>"
  obtain s0 where s0: "open_stream get ?s = (Inr (), s0)" "survives sok obj breaks s0"
    using flaky_store.open_stream_survives[OF assms(1), of ?s] w by auto
  then have "start get w (length obj) uri = Inr s0" by (simp add: start_def)
  then show "\<exists>s0. start get w (length obj) uri = Inr s0 \<and> survives sok obj breaks s0 \<and> source_rest obj s0 = obj"
    using s0(2) start_inv[OF st w(1)] by blast
qed

theorem broken_streams_survived_witness:
  "\<exists>s0. start (scripted_get ''abcde'') [2, 0, 1] (length ''abcde'') ''gs://b/o'' = Inr s0
    \<and> source_rest ''abcde'' s0 = ''abcde''"
  using broken_streams_survived[OF scripted.flaky_store_axioms, where obj = "''abcde''" and w = "[2, 0, 1]" and uri = "''gs://b/o''"]
  by (auto simp: MAX_RESUMES_def)

text \<open>
  After a resume whose request itself fails, the source has no stream, and a caller that reads once more
  is told the stream has ended, though bytes are missing.
\<close>

lemma failed_resume_then_eof:
  assumes "os_pending s = []" "os_stream s = Some (Inl err # r)" "os_delivered s < os_total s" "os_resumes s < MAX_RESUMES"
    "\<And>w q. get w q = (Inl e, w)" "0 < n"
  shows "\<exists>m s'. source_read get s n = (Inl m, s') \<and> source_read get s' n = (Inr [], s') \<and> os_delivered s' < os_total s'"
proof -
  let ?t = "s\<lparr>os_resumes := Suc (os_resumes s), os_stream := None\<rparr>"
  obtain m where o: "open_stream get ?t = (Inl m, ?t)" using assms(5) by (simp add: open_stream_def)
  have "next_item get s = (Inl (display m), ?t)" using assms(2-4) o by (simp add: next_item.simps[of get s])
  then have "source_read get s n = (Inl (display m), ?t)"
    using assms(1,6) by (simp add: source_read_def fill_pending.simps[of get s])
  moreover have "source_read get ?t n = (Inr [], ?t)"
    using assms(1,6) by (simp add: source_read_def fill_pending.simps[of get ?t] next_item.simps[of get ?t])
  ultimately show ?thesis using assms(3) by auto
qed

end
