(* ===== verification/Pg_Types.thy ===== *)
theory Pg_Types
  imports Rust_Std
begin

section \<open>PostgreSQL type names\<close>

text \<open>
  \<open>src/types.rs\<close>: the type model \<open>PgType\<close>, and \<open>resolve\<close>, which reads the type text of a column as
  \<open>pg_dump\<close> writes it. Lower-casing a character outside ASCII needs the tables of the Unicode standard;
  it is the parameter \<open>low\<close>, a function on the UTF-8 bytes of one character. Lemmas: a declared
  \<open>numeric\<close> with any number of array suffixes is read exactly, what does not fit an Arrow decimal is
  textual, and what is not recognised is text.
\<close>

datatype pg_type =
    SmallInt | Integer | BigInt | Real | DoublePrecision
  | Numeric "nat option" "int option"
  | Boolean | Date | Timestamp bool | Time bool | Bytea | PgText

record resolved_type =
  rt_pg :: pg_type
  rt_is_array :: bool
  rt_array_dimensions :: nat
  rt_recognised :: bool
  rt_source :: bytes

definition MAX_DECIMAL_PRECISION :: nat where "MAX_DECIMAL_PRECISION = 38"

definition WIDE_NUMERIC_PRECISION :: nat where "WIDE_NUMERIC_PRECISION = MAX_DECIMAL_PRECISION"

definition WIDE_NUMERIC_SCALE :: int where "WIDE_NUMERIC_SCALE = 18"

definition numeric_too_wide :: "nat option \<Rightarrow> bool" where
  "numeric_too_wide precision = (case precision of None \<Rightarrow> True | Some p \<Rightarrow> MAX_DECIMAL_PRECISION < p)"

definition decimal_fits :: "nat option \<Rightarrow> int option \<Rightarrow> bool" where
  "decimal_fits precision scale =
     (case precision of
        None \<Rightarrow> False
      | Some p \<Rightarrow>
          if \<not> (1 \<le> p \<and> p \<le> MAX_DECIMAL_PRECISION) then False
          else (case scale of None \<Rightarrow> True | Some s \<Rightarrow> 0 \<le> s \<and> s \<le> int p))"

definition is_textual :: "resolved_type \<Rightarrow> bool" where
  "is_textual t =
     (if rt_is_array t \<or> rt_pg t = PgText then True
      else (case rt_pg t of Numeric precision scale \<Rightarrow> \<not> decimal_fits precision scale | _ \<Rightarrow> False))"

definition TEXTUAL :: "bytes list" where
  "TEXTUAL = [''text'', ''character varying'', ''varchar'', ''character'', ''char'', ''bpchar'', ''name'',
     ''uuid'', ''json'', ''jsonb'', ''xml'', ''inet'', ''cidr'', ''macaddr'', ''macaddr8'', ''interval'',
     ''money'', ''bit'', ''bit varying'', ''varbit'', ''tsvector'', ''tsquery'', ''point'', ''line'', ''lseg'',
     ''box'', ''path'', ''polygon'', ''circle'', ''int4range'', ''int8range'', ''numrange'', ''tsrange'',
     ''tstzrange'', ''daterange'']"

subsection \<open>Reading a declaration\<close>

text \<open>The loop of \<open>strip_array_suffix\<close>; \<open>count\<close> is a saturating \<open>u8\<close>.\<close>

function suffix_loop :: "bytes \<Rightarrow> nat \<Rightarrow> bytes \<times> nat" where
  "suffix_loop e count =
     (if e \<noteq> [] \<and> last e = CHR '']'' then
        (case rfind_byte (CHR ''['') e of
           None \<Rightarrow> (e, count)
         | Some open_at \<Rightarrow>
             if \<not> list_all is_ascii_digit (drop (open_at + 1) (butlast e)) then (e, count)
             else suffix_loop (trim_end (take open_at e)) (min 255 (count + 1)))
      else (e, count))"
  by pat_completeness auto

lemma length_trim_back: "length (trim_back r) \<le> length r"
proof (induction r rule: trim_back.induct)
  case (1 r)
  then show ?case using trim_back.simps[of r] by (cases "ws_back r = 0") auto
qed

lemma length_trim_end: "length (trim_end s) \<le> length s"
  using length_trim_back[of "rev s"] by (simp add: trim_end_def)

lemma rfind_byte_less: "rfind_byte b xs = Some i \<Longrightarrow> i < length xs"
  by (erule rfind_byte_SomeE) auto

termination suffix_loop
proof (relation "measure (\<lambda>(e, count). length e)", goal_cases)
  case (2 e count open_at)
  have "length (trim_end (take open_at e)) \<le> open_at"
    using length_trim_end[of "take open_at e"] by simp
  then show ?case using rfind_byte_less[OF 2(2)] by simp
qed simp

declare suffix_loop.simps [simp del]

definition strip_array_suffix :: "bytes \<Rightarrow> bytes \<times> nat" where
  "strip_array_suffix s = suffix_loop (trim_end s) 0"

definition split_params :: "bytes \<Rightarrow> bytes \<times> bytes" where
  "split_params s =
     (case find_byte (CHR ''('') s of
        None \<Rightarrow> (s, [])
      | Some open_at \<Rightarrow>
          (case find_byte (CHR '')'') (drop open_at s) of
             None \<Rightarrow> (s, [])
           | Some i \<Rightarrow>
               (let close = open_at + i
                in (take open_at s @ CHR '' '' # drop (close + 1) s, drop (open_at + 1) (take close s)))))"

text \<open>\<open>str::chars\<close>: the characters of a UTF-8 string, each as its bytes.\<close>

function (sequential) chars :: "bytes \<Rightarrow> bytes list" where
  "chars [] = []"
| "chars (c # s) =
     (let n = (case utf8_head (c # s) of Inr n \<Rightarrow> n | Inl n \<Rightarrow> n)
      in take n (c # s) # chars (drop n (c # s)))"
  by pat_completeness auto
termination
  by (relation "measure length")
     (auto split: sum.split dest: utf8_head_Inr utf8_head_Inl simp: diff_less)

definition lower_char :: "(bytes \<Rightarrow> bytes) \<Rightarrow> bytes \<Rightarrow> bytes" where
  "lower_char low c = (case c of [b] \<Rightarrow> [to_ascii_lower b] | _ \<Rightarrow> low c)"

fun normalise_loop :: "(bytes \<Rightarrow> bytes) \<Rightarrow> bytes list \<Rightarrow> bool \<Rightarrow> bytes \<Rightarrow> bytes" where
  "normalise_loop low [] space out = out"
| "normalise_loop low (c # cs) space out =
     (if ws_front c \<noteq> 0 then normalise_loop low cs True out
      else normalise_loop low cs False
             ((if space \<and> out \<noteq> [] then out @ [CHR '' ''] else out) @ lower_char low c))"

definition normalise :: "(bytes \<Rightarrow> bytes) \<Rightarrow> bytes \<Rightarrow> bytes" where
  "normalise low s = normalise_loop low (chars (trim s)) False []"

definition numeric_params :: "bytes \<Rightarrow> nat option \<times> int option" where
  "numeric_params params =
     (let parts = split_on (CHR '','') params;
          precision = parse_unsigned 255 (trim (hd parts));
          scale = (case tl parts of s # _ \<Rightarrow> parse_signed (-128) 127 (trim s) | [] \<Rightarrow> None)
      in (case precision of
            Some _ \<Rightarrow> (precision, Some (case scale of Some s \<Rightarrow> s | None \<Rightarrow> 0))
          | None \<Rightarrow> (None, None)))"

text \<open>The \<open>match\<close> on the normalised name; \<open>None\<close> is its last arm.\<close>

definition named_type :: "bytes \<Rightarrow> bytes \<Rightarrow> pg_type option" where
  "named_type name params =
     (if name \<in> set [''smallint'', ''int2'', ''smallserial'', ''serial2''] then Some SmallInt
      else if name \<in> set [''integer'', ''int'', ''int4'', ''serial'', ''serial4''] then Some Integer
      else if name \<in> set [''bigint'', ''int8'', ''bigserial'', ''serial8''] then Some BigInt
      else if name \<in> set [''real'', ''float4''] then Some Real
      else if name \<in> set [''double precision'', ''float8''] then Some DoublePrecision
      else if name \<in> set [''numeric'', ''decimal''] then
        (case numeric_params params of (precision, scale) \<Rightarrow> Some (Numeric precision scale))
      else if name \<in> set [''boolean'', ''bool''] then Some Boolean
      else if name = ''date'' then Some Date
      else if name \<in> set [''timestamp'', ''timestamp without time zone''] then Some (Timestamp False)
      else if name \<in> set [''timestamptz'', ''timestamp with time zone''] then Some (Timestamp True)
      else if name \<in> set [''time'', ''time without time zone''] then Some (Time False)
      else if name \<in> set [''timetz'', ''time with time zone''] then Some (Time True)
      else if name = ''bytea'' then Some Bytea
      else None)"

definition resolve :: "(bytes \<Rightarrow> bytes) \<Rightarrow> bytes \<Rightarrow> resolved_type" where
  "resolve low sql_type =
     (let source = trim sql_type;
          (base, array_dimensions) = strip_array_suffix source;
          is_array = 0 < array_dimensions;
          (name0, params) = split_params base;
          name = normalise low name0
      in (case named_type name params of
            Some pg \<Rightarrow> \<lparr>rt_pg = pg, rt_is_array = is_array, rt_array_dimensions = array_dimensions,
                       rt_recognised = True, rt_source = source\<rparr>
          | None \<Rightarrow> \<lparr>rt_pg = PgText, rt_is_array = is_array, rt_array_dimensions = array_dimensions,
                     rt_recognised = name \<in> set TEXTUAL, rt_source = source\<rparr>))"


subsection \<open>Array suffixes\<close>

definition dims :: "nat \<Rightarrow> bytes" where
  "dims k = concat (replicate k ''[]'')"

lemma dims_Suc: "dims (Suc k) = dims k @ ''[]''"
  by (simp add: dims_def flip: replicate_append_same)

lemma dims_0 [simp]: "dims 0 = []"
  by (simp add: dims_def)

lemma rfind_byte_last: "b \<notin> set vs \<Longrightarrow> rfind_byte b (us @ b # vs) = Some (length us)"
  by (simp add: rfind_byte_def find_byte_here)

lemma solid_brackets: "solid (CHR '']'')" "solid (CHR ''['')" "solid (CHR '')'')" "solid (CHR '','')"
  by (simp_all add: byte_defs)

lemma last_dims_solid: "s \<noteq> [] \<Longrightarrow> solid (last s) \<Longrightarrow> solid (last (s @ dims k))"
  by (cases k) (simp_all add: dims_Suc solid_brackets)

lemma suffix_loop_dims:
  assumes "s \<noteq> []" "solid (last s)" "last s \<noteq> CHR '']''" "c \<le> 255"
  shows "suffix_loop (s @ dims k) c = (s, min 255 (c + k))"
  using assms(4)
proof (induction k arbitrary: c)
  case 0
  then show ?case using assms by (simp add: suffix_loop.simps[of s])
next
  case (Suc k)
  let ?e = "s @ dims k"
  have e: "s @ dims (Suc k) = ?e @ CHR ''['' # '']''" by (simp add: dims_Suc)
  have "rfind_byte (CHR ''['') (?e @ CHR ''['' # '']'') = Some (length ?e)"
    by (rule rfind_byte_last) simp
  then have "suffix_loop (?e @ CHR ''['' # '']'') c = suffix_loop (trim_end ?e) (min 255 (c + 1))"
    by (subst suffix_loop.simps) (simp add: butlast_append)
  also have "trim_end ?e = ?e"
    using last_dims_solid[OF assms(1,2)] by (simp add: trim_end_solid)
  finally show ?case using Suc e by (simp add: min_def)
qed

text \<open>A declaration that begins and ends with graphic ASCII and has no suffix of its own.\<close>

definition bare_decl :: "bytes \<Rightarrow> bool" where
  "bare_decl s \<longleftrightarrow> s \<noteq> [] \<and> solid (hd s) \<and> solid (last s) \<and> last s \<noteq> CHR '']''"

lemma strip_dims: "bare_decl s \<Longrightarrow> strip_array_suffix (trim (s @ dims k)) = (s, min 255 k)"
proof -
  assume s: "bare_decl s"
  then have "trim (s @ dims k) = s @ dims k" "trim_end (s @ dims k) = s @ dims k"
    using last_dims_solid[of s k] by (auto simp: bare_decl_def trim_solid trim_end_solid)
  then show ?thesis using s suffix_loop_dims[of s 0 k] by (simp add: strip_array_suffix_def bare_decl_def)
qed

lemma resolve_dims:
  assumes "bare_decl s"
  shows "resolve low (s @ dims k) = (resolve low s)\<lparr>rt_is_array := 0 < k, rt_array_dimensions := min 255 k,
    rt_source := s @ dims k\<rparr>"
proof -
  have "trim (s @ dims k) = s @ dims k"
    using assms last_dims_solid[of s k] by (auto simp: bare_decl_def trim_solid)
  then show ?thesis
    using strip_dims[OF assms, of k] strip_dims[OF assms, of 0]
    by (simp add: resolve_def Let_def split: prod.split option.split)
qed

subsection \<open>Declared precision and scale\<close>

definition numeric_decl :: "nat \<Rightarrow> int \<Rightarrow> bytes" where
  "numeric_decl p s = ''numeric('' @ nat_str p @ CHR '','' # int_str s @ '')''"

lemma nat_str_int_str: "nat_str n = int_str (int n)"
  by (simp add: int_str_def)

lemma int_str_notin: "\<not> is_ascii_digit c \<Longrightarrow> c \<noteq> CHR ''-'' \<Longrightarrow> c \<notin> set (int_str i)"
  by (auto simp: int_str_def dest: nat_str_digits split: if_splits)

lemma numeric_params_decl:
  assumes "p \<le> 255" "-128 \<le> s" "s \<le> 127"
  shows "numeric_params (nat_str p @ CHR '','' # int_str s) = (Some p, Some s)"
proof -
  have n: "CHR '','' \<notin> set (int_str i)" for i by (rule int_str_notin) (simp_all add: byte_defs)
  have "split_on (CHR '','') (nat_str p @ CHR '','' # int_str s) = [nat_str p, int_str s]"
    using n by (simp add: nat_str_int_str split_on_sep)
  moreover have "trim (int_str i) = int_str i" for i by (rule trim_all_solid) (rule int_str_solid)
  ultimately show ?thesis
    using assms parse_signed_int_str[OF assms(2,3)] parse_unsigned_nat_str[OF assms(1)]
    by (simp add: numeric_params_def nat_str_int_str)
qed

lemma split_params_decl:
  "split_params (numeric_decl p s) = (''numeric '', nat_str p @ CHR '','' # int_str s)"
proof -
  let ?m = "nat_str p @ CHR '','' # int_str s"
  have n: "c \<notin> set ?m" if "c = CHR ''('' \<or> c = CHR '')''" for c
    using that int_str_notin[of c] by (auto simp: nat_str_int_str byte_defs)
  have "find_byte (CHR ''('') (numeric_decl p s) = Some 7" by (simp add: numeric_decl_def)
  moreover have d: "drop 7 (numeric_decl p s) = (CHR ''('' # ?m) @ CHR '')'' # []"
    by (simp add: numeric_decl_def)
  moreover have "find_byte (CHR '')'') ((CHR ''('' # ?m) @ CHR '')'' # []) = Some (length (CHR ''('' # ?m))"
    by (rule find_byte_here) (use n in simp)
  ultimately show ?thesis
    by (simp add: split_params_def numeric_decl_def)
qed

lemma normalise_numeric: "normalise low ''numeric '' = ''numeric''"
  by code_simp


lemma bare_numeric_decl: "bare_decl (numeric_decl p s)"
  by (simp add: bare_decl_def numeric_decl_def byte_defs)

lemma resolve_numeric_decl:
  assumes "p \<le> 255" "-128 \<le> s" "s \<le> 127"
  shows "resolve low (numeric_decl p s) = \<lparr>rt_pg = Numeric (Some p) (Some s), rt_is_array = False,
    rt_array_dimensions = 0, rt_recognised = True, rt_source = numeric_decl p s\<rparr>"
proof -
  have "strip_array_suffix (trim (numeric_decl p s)) = (numeric_decl p s, 0)" "trim (numeric_decl p s) = numeric_decl p s"
    using strip_dims[OF bare_numeric_decl, of p s 0] bare_numeric_decl[of p s]
    by (auto simp: bare_decl_def trim_solid)
  moreover have "named_type ''numeric'' (nat_str p @ CHR '','' # int_str s) = Some (Numeric (Some p) (Some s))"
    using numeric_params_decl[OF assms] by (simp add: named_type_def)
  ultimately show ?thesis
    by (simp add: resolve_def split_params_decl normalise_numeric Let_def)
qed

subsection \<open>Properties\<close>

text \<open>
  C39. A declared \<open>numeric(p,s)\<close> with any number of array suffixes is read exactly, for a precision up
  to the 255 of a \<open>u8\<close> and a scale in the -128 to 127 of an \<open>i8\<close> (negative or larger than the precision
  included; beyond these the parameters are discarded): precision, scale, the number of dimensions up to the 255 a \<open>u8\<close> holds,
  and it is recognised, with its source text kept.
\<close>

theorem resolve_numeric_exact:
  assumes "p \<le> 255" "-128 \<le> s" "s \<le> 127"
  shows "resolve low (numeric_decl p s @ dims k) = \<lparr>rt_pg = Numeric (Some p) (Some s),
    rt_is_array = 0 < k, rt_array_dimensions = min 255 k, rt_recognised = True,
    rt_source = numeric_decl p s @ dims k\<rparr>"
  using resolve_dims[OF bare_numeric_decl, of low p s k] resolve_numeric_decl[OF assms, of low] by simp

theorem resolve_numeric_exact_witness:
  "resolve (\<lambda>c. c) (numeric_decl 10 (-2) @ dims 2) = \<lparr>rt_pg = Numeric (Some 10) (Some (-2)),
    rt_is_array = True, rt_array_dimensions = 2, rt_recognised = True,
    rt_source = numeric_decl 10 (-2) @ dims 2\<rparr>"
  using resolve_numeric_exact[of 10 "-2" "\<lambda>c. c" 2] by simp

text \<open>
  C40. The floor of the fidelity policy: a column that is not textual is a recognised scalar, and when it
  is a \<open>numeric\<close> its precision and scale are ones an Arrow decimal holds; a declaration that is not
  recognised, an array, and a \<open>numeric\<close> without a precision are textual; and array suffixes of a
  declaration change nothing but the array fields.
\<close>

theorem resolve_fidelity:
  "(\<not> is_textual (resolve low t) \<longrightarrow> rt_recognised (resolve low t) \<and> rt_array_dimensions (resolve low t) = 0
      \<and> (\<forall>p s. rt_pg (resolve low t) = Numeric p s \<longrightarrow>
           (\<exists>n. p = Some n \<and> 1 \<le> n \<and> n \<le> 38 \<and> (\<forall>i. s = Some i \<longrightarrow> 0 \<le> i \<and> i \<le> int n)) \<and> \<not> numeric_too_wide p))
   \<and> (bare_decl t \<longrightarrow> rt_pg (resolve low (t @ dims k)) = rt_pg (resolve low t)
      \<and> rt_recognised (resolve low (t @ dims k)) = rt_recognised (resolve low t)
      \<and> (0 < k \<longrightarrow> is_textual (resolve low (t @ dims k))))"
proof (intro conjI impI)
  assume n: "\<not> is_textual (resolve low t)"
  then have a: "\<not> rt_is_array (resolve low t)" "rt_pg (resolve low t) \<noteq> PgText"
    by (auto simp: is_textual_def split: if_splits)
  show "rt_recognised (resolve low t)" "rt_array_dimensions (resolve low t) = 0"
    using a by (auto simp: resolve_def Let_def split: prod.splits option.splits)
  show "\<forall>p s. rt_pg (resolve low t) = Numeric p s \<longrightarrow>
      (\<exists>n. p = Some n \<and> 1 \<le> n \<and> n \<le> 38 \<and> (\<forall>i. s = Some i \<longrightarrow> 0 \<le> i \<and> i \<le> int n)) \<and> \<not> numeric_too_wide p"
    using n by (auto simp: is_textual_def decimal_fits_def numeric_too_wide_def MAX_DECIMAL_PRECISION_def
        split: if_splits option.splits)
next
  assume b: "bare_decl t"
  show "rt_pg (resolve low (t @ dims k)) = rt_pg (resolve low t)"
    "rt_recognised (resolve low (t @ dims k)) = rt_recognised (resolve low t)"
    by (simp_all add: resolve_dims[OF b])
  assume "0 < k"
  then show "is_textual (resolve low (t @ dims k))" by (simp add: resolve_dims[OF b] is_textual_def)
qed

theorem resolve_fidelity_witness:
  "\<not> is_textual (resolve (\<lambda>c. c) ''numeric(10,2)'') \<and> bare_decl ''numeric(10,2)''
   \<and> rt_recognised (resolve (\<lambda>c. c) ''numeric(10,2)'') \<and> is_textual (resolve (\<lambda>c. c) (''numeric(10,2)'' @ dims 1))"
proof -
  have "\<not> is_textual (resolve (\<lambda>c. c) ''numeric(10,2)'')" by code_simp
  moreover have "bare_decl ''numeric(10,2)''" by code_simp
  ultimately show ?thesis using resolve_fidelity[of "\<lambda>c. c" "''numeric(10,2)''" 1] by simp
qed

end
