(* ===== verification/Arrow_Build.thy ===== *)
theory Arrow_Build
  imports Pg_Types Pg_Values Copy_Text
begin

section \<open>Building Arrow batches\<close>

text \<open>
  \<open>src/builders.rs\<close>: the Arrow type of a resolved column, the typed builders, and \<open>BatchBuilder\<close>. Arrow
  itself is third-party: a record \<open>arrow_ops\<close> of its operations is a parameter. \<open>'b\<close> is an Arrow builder,
  \<open>'a\<close> an array, \<open>'r\<close> a record batch, \<open>'f\<close> a rounded float. The locale \<open>arrow_api\<close> states what the code
  relies on: a builder holds the values appended since it was created or finished, in order.
\<close>

text \<open>\<open>DTimestamp\<close> says whether the type carries the time zone \<open>UTC\<close>; a list holds nullable items.\<close>

datatype data_type =
    DInt16 | DInt32 | DInt64 | DFloat32 | DFloat64 | DDecimal nat int | DBoolean | DDate32
  | DTimestamp bool | DTime64 | DBinary | DUtf8 | DList data_type

subsection \<open>The type of a column\<close>

definition as_element :: "resolved_type \<Rightarrow> resolved_type" where
  "as_element rt = rt\<lparr>rt_is_array := False, rt_array_dimensions := 0\<rparr>"

definition wide_decimal :: "resolved_type \<Rightarrow> bool \<Rightarrow> bool" where
  "wide_decimal rt wide = (case rt_pg rt of Numeric precision _ \<Rightarrow> wide \<and> numeric_too_wide precision | _ \<Rightarrow> False)"

fun scalar_type :: "pg_type \<Rightarrow> data_type" where
  "scalar_type SmallInt = DInt16"
| "scalar_type Integer = DInt32"
| "scalar_type BigInt = DInt64"
| "scalar_type Real = DFloat32"
| "scalar_type DoublePrecision = DFloat64"
| "scalar_type (Numeric precision scale) =
     DDecimal (case precision of Some p \<Rightarrow> p | None \<Rightarrow> 38) (case scale of Some s \<Rightarrow> s | None \<Rightarrow> 0)"
| "scalar_type Boolean = DBoolean"
| "scalar_type Date = DDate32"
| "scalar_type (Timestamp tz) = DTimestamp True"
| "scalar_type (Time tz) = DTime64"
| "scalar_type Bytea = DBinary"
| "scalar_type PgText = DUtf8"

definition unsupported_element :: "resolved_type \<Rightarrow> bool \<Rightarrow> bool" where
  "unsupported_element rt wide =
     (case rt_pg rt of
        PgText \<Rightarrow> \<not> rt_recognised rt
      | Numeric precision _ \<Rightarrow> is_textual rt \<and> \<not> (wide \<and> numeric_too_wide precision)
      | _ \<Rightarrow> False)"

function arrow_type :: "resolved_type \<Rightarrow> bool \<Rightarrow> bool \<Rightarrow> data_type"
  and array_element_type :: "resolved_type \<Rightarrow> bool \<Rightarrow> data_type option" where
  "arrow_type rt wide native =
     (if rt_is_array rt then
        (if native \<and> rt_array_dimensions rt = 1 then
           (case array_element_type (as_element rt) wide of
              Some element_type \<Rightarrow> DList element_type
            | None \<Rightarrow> DUtf8)
         else DUtf8)
      else if wide_decimal rt wide then DDecimal WIDE_NUMERIC_PRECISION WIDE_NUMERIC_SCALE
      else if is_textual rt then DUtf8
      else scalar_type (rt_pg rt))"
| "array_element_type rt wide =
     (if unsupported_element rt wide then None else Some (arrow_type rt wide False))"
  by pat_completeness auto
termination
  by (relation "measure (\<lambda>x. case x of Inl (rt, _, _) \<Rightarrow> if rt_is_array rt then 3 else 1
        | Inr (rt, _) \<Rightarrow> if rt_is_array rt then 4 else 2)") (auto simp: as_element_def)

declare arrow_type.simps [simp del] array_element_type.simps [simp del]

definition arrow_schema :: "(bytes \<times> resolved_type) list \<Rightarrow> bool \<Rightarrow> bool \<Rightarrow> (bytes \<times> data_type) list" where
  "arrow_schema columns wide native = map (\<lambda>(name, rt). (name, arrow_type rt wide native)) columns"

subsection \<open>Arrow\<close>

datatype 'f arrow_value = VInt int | VFloat 'f | VBool bool | VBytes bytes

text \<open>
  A new builder of a type (\<open>with_precision_and_scale\<close> may refuse), appending a value or NULL, finishing,
  the list array of its parts (\<open>None\<close> where \<open>OffsetBuffer::new\<close> or \<open>try_new\<close> would not have it), and
  assembling a record batch, which checks the arrays against the schema.
\<close>

record ('f, 'b, 'a, 'r) arrow_ops =
  ar_new :: "data_type \<Rightarrow> 'b"
  ar_decimal :: "nat \<Rightarrow> int \<Rightarrow> 'b option"
  ar_push :: "'b \<Rightarrow> 'f arrow_value option \<Rightarrow> 'b"
  ar_finish :: "'b \<Rightarrow> 'a \<times> 'b"
  ar_with_timezone :: "'a \<Rightarrow> 'a"
  ar_list :: "int list \<Rightarrow> 'a \<Rightarrow> bool list \<Rightarrow> 'a option"
  ar_batch :: "(bytes \<times> data_type) list \<Rightarrow> 'a list \<Rightarrow> bytes + 'r"
  ar_round32 :: "float_val \<Rightarrow> 'f"
  ar_round64 :: "float_val \<Rightarrow> 'f"

subsection \<open>Column builders\<close>

datatype 'b column_builder =
    CbInt16 'b | CbInt32 'b | CbInt64 'b | CbFloat32 'b | CbFloat64 'b
  | CbDecimal 'b nat int
  | CbBoolean 'b | CbDate 'b | CbTimestamp 'b bool | CbTime 'b | CbBinary 'b
  | CbList "'b column_builder" "int list" "bool list"
  | CbUtf8 'b

definition utf8_builder :: "('f, 'b, 'a, 'r) arrow_ops \<Rightarrow> 'b column_builder" where
  "utf8_builder A = CbUtf8 (ar_new A DUtf8)"

definition decimal_builder :: "('f, 'b, 'a, 'r) arrow_ops \<Rightarrow> nat \<Rightarrow> int \<Rightarrow> 'b column_builder" where
  "decimal_builder A p s = (case ar_decimal A p s of Some b \<Rightarrow> CbDecimal b p s | None \<Rightarrow> utf8_builder A)"

fun scalar_builder :: "('f, 'b, 'a, 'r) arrow_ops \<Rightarrow> pg_type \<Rightarrow> 'b column_builder" where
  "scalar_builder A SmallInt = CbInt16 (ar_new A DInt16)"
| "scalar_builder A Integer = CbInt32 (ar_new A DInt32)"
| "scalar_builder A BigInt = CbInt64 (ar_new A DInt64)"
| "scalar_builder A Real = CbFloat32 (ar_new A DFloat32)"
| "scalar_builder A DoublePrecision = CbFloat64 (ar_new A DFloat64)"
| "scalar_builder A (Numeric precision scale) =
     decimal_builder A (case precision of Some p \<Rightarrow> p | None \<Rightarrow> 38) (case scale of Some s \<Rightarrow> s | None \<Rightarrow> 0)"
| "scalar_builder A Boolean = CbBoolean (ar_new A DBoolean)"
| "scalar_builder A Date = CbDate (ar_new A DDate32)"
| "scalar_builder A (Timestamp tz) = CbTimestamp (ar_new A (DTimestamp False)) tz"
| "scalar_builder A (Time tz) = CbTime (ar_new A DTime64)"
| "scalar_builder A Bytea = CbBinary (ar_new A DBinary)"
| "scalar_builder A PgText = utf8_builder A"

function new_builder :: "('f, 'b, 'a, 'r) arrow_ops \<Rightarrow> resolved_type \<Rightarrow> bool \<Rightarrow> bool \<Rightarrow> 'b column_builder" where
  "new_builder A rt wide native =
     (if rt_is_array rt then
        (if native \<and> rt_array_dimensions rt = 1 \<and> array_element_type (as_element rt) wide \<noteq> None
         then CbList (new_builder A (as_element rt) wide native) [0] []
         else utf8_builder A)
      else if wide_decimal rt wide then decimal_builder A WIDE_NUMERIC_PRECISION WIDE_NUMERIC_SCALE
      else if is_textual rt then utf8_builder A
      else scalar_builder A (rt_pg rt))"
  by pat_completeness auto
termination
  by (relation "measure (\<lambda>(A, rt, wide, native). of_bool (rt_is_array rt))") (auto simp: as_element_def)

declare new_builder.simps [simp del]

fun append_null :: "('f, 'b, 'a, 'r) arrow_ops \<Rightarrow> 'b column_builder \<Rightarrow> 'b column_builder" where
  "append_null A (CbInt16 b) = CbInt16 (ar_push A b None)"
| "append_null A (CbInt32 b) = CbInt32 (ar_push A b None)"
| "append_null A (CbInt64 b) = CbInt64 (ar_push A b None)"
| "append_null A (CbFloat32 b) = CbFloat32 (ar_push A b None)"
| "append_null A (CbFloat64 b) = CbFloat64 (ar_push A b None)"
| "append_null A (CbDecimal b p s) = CbDecimal (ar_push A b None) p s"
| "append_null A (CbBoolean b) = CbBoolean (ar_push A b None)"
| "append_null A (CbDate b) = CbDate (ar_push A b None)"
| "append_null A (CbTimestamp b tz) = CbTimestamp (ar_push A b None) tz"
| "append_null A (CbTime b) = CbTime (ar_push A b None)"
| "append_null A (CbBinary b) = CbBinary (ar_push A b None)"
| "append_null A (CbList element offsets validity) = CbList element (offsets @ [last offsets]) (validity @ [False])"
| "append_null A (CbUtf8 b) = CbUtf8 (ar_push A b None)"

definition checked32 :: "int \<Rightarrow> int option" where
  "checked32 x = (if -2147483648 \<le> x \<and> x \<le> 2147483647 then Some x else None)"

text \<open>A parsed value appended as it is, and with NULL for \<open>None\<close> reported as a substitution.\<close>

definition pushed :: "('f, 'b, 'a, 'r) arrow_ops \<Rightarrow> 'b \<Rightarrow> ('x \<Rightarrow> 'f arrow_value) \<Rightarrow> 'x option res \<Rightarrow> (bool \<times> 'b) res" where
  "pushed A b f r = and_then r (\<lambda>x. Inr (False, ar_push A b (map_option f x)))"

definition pushed_sub :: "('f, 'b, 'a, 'r) arrow_ops \<Rightarrow> 'b \<Rightarrow> ('x \<Rightarrow> 'f arrow_value) \<Rightarrow> 'x option res \<Rightarrow> (bool \<times> 'b) res" where
  "pushed_sub A b f r = and_then r (\<lambda>x. Inr (x = None, ar_push A b (map_option f x)))"

definition wrap_builder :: "('b \<Rightarrow> 'b column_builder) \<Rightarrow> (bool \<times> 'b) res \<Rightarrow> (bool \<times> 'b column_builder) res" where
  "wrap_builder C r = and_then r (\<lambda>(sub, b). Inr (sub, C b))"

fun list_depth :: "'b column_builder \<Rightarrow> nat" where
  "list_depth (CbList e _ _) = Suc (list_depth e)"
| "list_depth _ = 0"

function (sequential) col_append ::
    "('f, 'b, 'a, 'r) arrow_ops \<Rightarrow> bytes \<Rightarrow> 'b column_builder \<Rightarrow> bytes option \<Rightarrow> (bool \<times> 'b column_builder) res"
  and append_elements ::
    "('f, 'b, 'a, 'r) arrow_ops \<Rightarrow> bytes \<Rightarrow> 'b column_builder \<Rightarrow> bytes option list \<Rightarrow> bool \<Rightarrow> (bool \<times> 'b column_builder) res" where
  "col_append A column cb None = Inr (False, append_null A cb)"
| "col_append A column (CbInt16 b) (Some v) = wrap_builder CbInt16 (pushed A b VInt (parse_i16 v column))"
| "col_append A column (CbInt32 b) (Some v) = wrap_builder CbInt32 (pushed A b VInt (parse_i32 v column))"
| "col_append A column (CbInt64 b) (Some v) = wrap_builder CbInt64 (pushed A b VInt (parse_i64 v column))"
| "col_append A column (CbFloat32 b) (Some v) =
     wrap_builder CbFloat32 (pushed A b VFloat (parse_f32 (ar_round32 A) v column))"
| "col_append A column (CbFloat64 b) (Some v) =
     wrap_builder CbFloat64 (pushed A b VFloat (parse_f64 (ar_round64 A) v column))"
| "col_append A column (CbDecimal b precision scale) (Some v) =
     wrap_builder (\<lambda>b. CbDecimal b precision scale) (pushed_sub A b VInt (parse_decimal v precision scale column))"
| "col_append A column (CbBoolean b) (Some v) = wrap_builder CbBoolean (pushed A b VBool (parse_bool v column))"
| "col_append A column (CbDate b) (Some v) = wrap_builder CbDate (pushed_sub A b VInt (parse_date v column))"
| "col_append A column (CbTimestamp b tz) (Some v) =
     wrap_builder (\<lambda>b. CbTimestamp b tz) (pushed_sub A b VInt (parse_timestamp v tz column))"
| "col_append A column (CbTime b) (Some v) = wrap_builder CbTime (pushed A b VInt (parse_time v column))"
| "col_append A column (CbBinary b) (Some v) =
     and_then (parse_bytea v column []) (\<lambda>buf. Inr (False, CbBinary (ar_push A b (Some (VBytes buf)))))"
| "col_append A column (CbList element offsets validity) (Some v) =
     and_then (parse_array_elements v column) (\<lambda>elements.
     and_then (append_elements A column element elements False) (\<lambda>(substituted, element').
     and_then (ok_or (UnparsableValue column ''array'') (checked32 (int (length elements)))) (\<lambda>count.
     and_then (ok_or (UnparsableValue column ''array'') (checked32 (last offsets + count))) (\<lambda>end.
       Inr (substituted, CbList element' (offsets @ [end]) (validity @ [True]))))))"
| "col_append A column (CbUtf8 b) (Some v) =
     (if utf8_valid v then Inr (False, CbUtf8 (ar_push A b (Some (VBytes v)))) else Inl (NonUtf8Text column))"
| "append_elements A column element [] substituted = Inr (substituted, element)"
| "append_elements A column element (elem # elems) substituted =
     and_then (col_append A column element elem) (\<lambda>(sub, element').
       append_elements A column element' elems (substituted \<or> sub))"
  by pat_completeness auto

text \<open>Appending keeps the nesting of a builder; the termination of the element loop rests on it.\<close>

lemma append_null_depth: "list_depth (append_null A cb) = list_depth cb"
  by (cases cb) simp_all

lemma wrap_builder_Inr: "wrap_builder C r = Inr (s, cb) \<longleftrightarrow> (\<exists>b. r = Inr (s, b) \<and> cb = C b)"
  by (auto simp: wrap_builder_def and_then_eq_Inr)

lemma append_depth_aux:
  "col_append_append_elements_dom (Inl (A, column, cb, v)) \<Longrightarrow> col_append A column cb v = Inr (s, cb') \<Longrightarrow>
     list_depth cb' = list_depth cb"
  "col_append_append_elements_dom (Inr (A, column, cb, es, s0)) \<Longrightarrow> append_elements A column cb es s0 = Inr (s, cb') \<Longrightarrow>
     list_depth cb' = list_depth cb"
proof (induction A column cb v and A column cb es s0 arbitrary: s cb' and s cb' rule: col_append_append_elements.pinduct)
  case (13 A column element offsets validity v)
  then show ?case by (auto simp: col_append.psimps and_then_eq_Inr)
next
  case (16 A column element elem elems substituted)
  then show ?case by (fastforce simp: append_elements.psimps and_then_eq_Inr)
qed (auto simp: col_append.psimps append_elements.psimps append_null_depth wrap_builder_Inr and_then_eq_Inr split: if_splits)

termination col_append
  apply (relation "measures [\<lambda>x. case x of Inl (A, c, cb, v) \<Rightarrow> list_depth cb | Inr (A, c, cb, es, s) \<Rightarrow> list_depth cb,
      \<lambda>x. case x of Inl _ \<Rightarrow> 0 | Inr (A, c, cb, es, s) \<Rightarrow> Suc (length es)]")
  apply simp
  apply simp
  apply simp
  apply (auto dest: append_depth_aux(1)[OF _ sym])
  done

text \<open>Finishing resets a builder; \<open>None\<close> is the panic of \<open>expect\<close>.\<close>

definition fin :: "('f, 'b, 'a, 'r) arrow_ops \<Rightarrow> ('b \<Rightarrow> 'b column_builder) \<Rightarrow> 'b \<Rightarrow> ('a \<times> 'b column_builder) option" where
  "fin A C b = (case ar_finish A b of (a, b') \<Rightarrow> Some (a, C b'))"

fun col_finish :: "('f, 'b, 'a, 'r) arrow_ops \<Rightarrow> 'b column_builder \<Rightarrow> ('a \<times> 'b column_builder) option" where
  "col_finish A (CbInt16 b) = fin A CbInt16 b"
| "col_finish A (CbInt32 b) = fin A CbInt32 b"
| "col_finish A (CbInt64 b) = fin A CbInt64 b"
| "col_finish A (CbFloat32 b) = fin A CbFloat32 b"
| "col_finish A (CbFloat64 b) = fin A CbFloat64 b"
| "col_finish A (CbDecimal b p s) = fin A (\<lambda>b. CbDecimal b p s) b"
| "col_finish A (CbBoolean b) = fin A CbBoolean b"
| "col_finish A (CbDate b) = fin A CbDate b"
| "col_finish A (CbTimestamp b tz) =
     map_option (\<lambda>(a, cb). (ar_with_timezone A a, cb)) (fin A (\<lambda>b. CbTimestamp b tz) b)"
| "col_finish A (CbTime b) = fin A CbTime b"
| "col_finish A (CbBinary b) = fin A CbBinary b"
| "col_finish A (CbList element offsets validity) =
     Option.bind (col_finish A element) (\<lambda>(items, element').
       map_option (\<lambda>a. (a, CbList element' [0] [])) (ar_list A offsets items validity))"
| "col_finish A (CbUtf8 b) = fin A CbUtf8 b"

subsection \<open>Batches\<close>

record 'b batch_builder =
  bb_schema :: "(bytes \<times> data_type) list"
  bb_names :: "bytes list"
  bb_columns :: "'b column_builder list"
  bb_rows :: nat
  bb_bytes :: nat
  bb_max_rows :: nat
  bb_max_bytes :: nat
  bb_substitutions :: "nat list"

definition new_batch_builder ::
  "('f, 'b, 'a, 'r) arrow_ops \<Rightarrow> (bytes \<times> resolved_type) list \<Rightarrow> nat \<Rightarrow> nat \<Rightarrow> bool \<Rightarrow> bool \<Rightarrow> 'b batch_builder" where
  "new_batch_builder A columns max_rows max_bytes wide native =
     \<lparr>bb_schema = arrow_schema columns wide native, bb_names = map fst columns,
      bb_columns = map (\<lambda>(_, rt). new_builder A rt wide native) columns,
      bb_rows = 0, bb_bytes = 0, bb_max_rows = max_rows, bb_max_bytes = max_bytes,
      bb_substitutions = replicate (length columns) 0\<rparr>"

definition is_full :: "'b batch_builder \<Rightarrow> bool" where
  "is_full bb \<longleftrightarrow> bb_max_rows bb \<le> bb_rows bb \<or> bb_max_bytes bb \<le> bb_bytes bb"

text \<open>The loop over the columns of a row.\<close>

fun append_cells :: "('f, 'b, 'a, 'r) arrow_ops \<Rightarrow> bytes list \<Rightarrow> 'b column_builder list \<Rightarrow> nat list \<Rightarrow> bytes option list
    \<Rightarrow> ('b column_builder list \<times> nat list) res" where
  "append_cells A (n # ns) (cb # cbs) (k # ks) (v # vs) =
     and_then (col_append A n cb v) (\<lambda>(sub, cb').
     and_then (append_cells A ns cbs ks vs) (\<lambda>(cbs', ks').
       Inr (cb' # cbs', (if sub then k + 1 else k) # ks')))"
| "append_cells A ns cbs ks vs = Inr ([], [])"

definition cell_len :: "bytes option \<Rightarrow> nat" where
  "cell_len v = (case v of None \<Rightarrow> 0 | Some b \<Rightarrow> length b)"

definition append_row :: "('f, 'b, 'a, 'r) arrow_ops \<Rightarrow> bytes option list \<Rightarrow> 'b batch_builder \<Rightarrow> 'b batch_builder res" where
  "append_row A row bb =
     (if length row \<noteq> length (bb_columns bb) then Inl (FieldCountMismatch (length row) (length (bb_columns bb)))
      else and_then (append_cells A (bb_names bb) (bb_columns bb) (bb_substitutions bb) row) (\<lambda>(cbs, ks).
        Inr (bb\<lparr>bb_columns := cbs, bb_substitutions := ks,
                bb_bytes := bb_bytes bb + sum_list (map cell_len row), bb_rows := bb_rows bb + 1\<rparr>)))"

text \<open>The form of the hot loop: ranges into a scratch buffer; \<open>None\<close> is the panic of a range outside it.\<close>

definition range_ok :: "bytes \<Rightarrow> (nat \<times> nat) option \<Rightarrow> bool" where
  "range_ok scratch rg = (case rg of None \<Rightarrow> True | Some (a, b) \<Rightarrow> a \<le> b \<and> b \<le> length scratch)"

definition range_len :: "(nat \<times> nat) option \<Rightarrow> nat" where
  "range_len rg = (case rg of None \<Rightarrow> 0 | Some (a, b) \<Rightarrow> b - a)"

fun append_ranges :: "('f, 'b, 'a, 'r) arrow_ops \<Rightarrow> bytes \<Rightarrow> bytes list \<Rightarrow> 'b column_builder list \<Rightarrow> nat list
    \<Rightarrow> (nat \<times> nat) option list \<Rightarrow> ('b column_builder list \<times> nat list) res option" where
  "append_ranges A scratch (n # ns) (cb # cbs) (k # ks) (rg # rgs) =
     (if \<not> range_ok scratch rg then None
      else (case col_append A n cb (cell scratch rg) of
              Inl e \<Rightarrow> Some (Inl e)
            | Inr (sub, cb') \<Rightarrow>
                map_option (\<lambda>r. and_then r (\<lambda>(cbs', ks'). Inr (cb' # cbs', (if sub then k + 1 else k) # ks')))
                  (append_ranges A scratch ns cbs ks rgs)))"
| "append_ranges A scratch ns cbs ks rgs = Some (Inr ([], []))"

definition append_row_ranges ::
  "('f, 'b, 'a, 'r) arrow_ops \<Rightarrow> bytes \<Rightarrow> (nat \<times> nat) option list \<Rightarrow> 'b batch_builder \<Rightarrow> 'b batch_builder res option" where
  "append_row_ranges A scratch rgs bb =
     (if length rgs \<noteq> length (bb_columns bb)
      then Some (Inl (FieldCountMismatch (length rgs) (length (bb_columns bb))))
      else map_option (\<lambda>r. and_then r (\<lambda>(cbs, ks).
        Inr (bb\<lparr>bb_columns := cbs, bb_substitutions := ks,
                bb_bytes := bb_bytes bb + sum_list (map range_len rgs), bb_rows := bb_rows bb + 1\<rparr>)))
        (append_ranges A scratch (bb_names bb) (bb_columns bb) (bb_substitutions bb) rgs))"

fun finish_columns :: "('f, 'b, 'a, 'r) arrow_ops \<Rightarrow> 'b column_builder list \<Rightarrow> ('a list \<times> 'b column_builder list) option" where
  "finish_columns A [] = Some ([], [])"
| "finish_columns A (cb # cbs) =
     Option.bind (col_finish A cb) (\<lambda>(a, cb').
     map_option (\<lambda>(as, cbs'). (a # as, cb' # cbs')) (finish_columns A cbs))"

definition finish_batch :: "('f, 'b, 'a, 'r) arrow_ops \<Rightarrow> 'b batch_builder \<Rightarrow> ('r option res \<times> 'b batch_builder) option" where
  "finish_batch A bb =
     (if bb_rows bb = 0 then Some (Inr None, bb)
      else map_option (\<lambda>(arrays, cbs).
        ((case ar_batch A (bb_schema bb) arrays of
            Inl m \<Rightarrow> Inl (ArrowError m)
          | Inr r \<Rightarrow> Inr (Some r)),
         bb\<lparr>bb_columns := cbs, bb_rows := 0, bb_bytes := 0\<rparr>)) (finish_columns A (bb_columns bb)))"

end
