(* ===== verification/Arrow_Laws.thy ===== *)
theory Arrow_Laws
  imports Arrow_Build
begin

section \<open>What the builders promise\<close>

text \<open>
  The contract of Arrow's builders, the locale \<open>arrow_api\<close>, and what the code makes of it: a column's
  builder has the type the schema declares, appending a value adds exactly the value the column's parser
  reads, a finished batch holds the rows appended since the last one, and no \<open>expect\<close> is ever reached.
  The contract holds of builders that are lists, on which the locale is interpreted.
\<close>

datatype 'f entry = Null | Val "'f arrow_value" | Elems "'f entry list"

definition entry_of :: "'f arrow_value option \<Rightarrow> 'f entry" where
  "entry_of v = (case v of None \<Rightarrow> Null | Some x \<Rightarrow> Val x)"

subsection \<open>Lists\<close>

text \<open>The lists that offsets into the items and a validity per row describe.\<close>

fun list_entries :: "int list \<Rightarrow> 'f entry list \<Rightarrow> bool list \<Rightarrow> 'f entry list" where
  "list_entries (i # j # offs) items (v # vs) =
     (if v then Elems (take (nat (j - i)) (drop (nat i) items)) else Null) # list_entries (j # offs) items vs"
| "list_entries offs items vs = []"

definition list_parts_ok :: "int list \<Rightarrow> nat \<Rightarrow> bool list \<Rightarrow> bool" where
  "list_parts_ok offs n vs \<longleftrightarrow> offs \<noteq> [] \<and> hd offs = 0 \<and> sorted offs \<and> last offs = int n \<and> length offs = Suc (length vs)"

lemma length_list_entries: "length offs = Suc (length vs) \<Longrightarrow> length (list_entries offs items vs) = length vs"
proof (induction vs arbitrary: offs)
  case Nil
  then show ?case by (cases offs) auto
next
  case (Cons v vs)
  then obtain i j os where "offs = i # j # os" by (metis length_Suc_conv)
  then show ?case using Cons by simp
qed

lemma sorted_le_last: "sorted xs \<Longrightarrow> x \<in> set xs \<Longrightarrow> x \<le> last (xs :: int list)"
  by (induction xs) auto

lemma list_entries_snoc:
  assumes "offs \<noteq> []" "0 \<le> hd offs" "sorted offs" "last offs = int (length items)" "length offs = Suc (length vs)"
  shows "list_entries (offs @ [last offs + int (length xs)]) (items @ xs) (vs @ [v])
    = list_entries offs items vs @ [if v then Elems xs else Null]"
  using assms
proof (induction vs arbitrary: offs)
  case Nil
  then obtain i where "offs = [i]" by (auto simp: length_Suc_conv)
  then show ?case using Nil by simp
next
  case (Cons w vs)
  then obtain i j os where o: "offs = i # j # os" by (metis length_Suc_conv)
  have le: "0 \<le> i" "i \<le> j" "j \<le> int (length items)"
    using Cons.prems o sorted_le_last[of "j # os" j] by (auto split: if_splits)
  then have "nat i \<le> length items" "nat (j - i) \<le> length items - nat i" by simp_all
  then show ?case using Cons.IH[of "j # os"] Cons.prems o le by simp
qed

lemma list_parts_snoc:
  assumes "list_parts_ok offs n vs"
  shows "list_parts_ok (offs @ [last offs + int m]) (n + m) (vs @ [v])"
proof -
  have "x \<le> last offs + int m" if "x \<in> set offs" for x
    using sorted_le_last[OF _ that] assms by (fastforce simp: list_parts_ok_def)
  then show ?thesis using assms by (auto simp: list_parts_ok_def sorted_append)
qed

subsection \<open>What a builder holds\<close>

fun builder_type :: "'b column_builder \<Rightarrow> data_type" where
  "builder_type (CbInt16 b) = DInt16"
| "builder_type (CbInt32 b) = DInt32"
| "builder_type (CbInt64 b) = DInt64"
| "builder_type (CbFloat32 b) = DFloat32"
| "builder_type (CbFloat64 b) = DFloat64"
| "builder_type (CbDecimal b p s) = DDecimal p s"
| "builder_type (CbBoolean b) = DBoolean"
| "builder_type (CbDate b) = DDate32"
| "builder_type (CbTimestamp b tz) = DTimestamp True"
| "builder_type (CbTime b) = DTime64"
| "builder_type (CbBinary b) = DBinary"
| "builder_type (CbList e offs vs) = DList (builder_type e)"
| "builder_type (CbUtf8 b) = DUtf8"

definition untagged :: "data_type \<Rightarrow> data_type" where
  "untagged dt = (case dt of DTimestamp _ \<Rightarrow> DTimestamp False | _ \<Rightarrow> dt)"

text \<open>The Arrow builder inside a scalar column builder.\<close>

fun inner :: "'b column_builder \<Rightarrow> 'b option" where
  "inner (CbList e offs vs) = None"
| "inner (CbInt16 b) = Some b"
| "inner (CbInt32 b) = Some b"
| "inner (CbInt64 b) = Some b"
| "inner (CbFloat32 b) = Some b"
| "inner (CbFloat64 b) = Some b"
| "inner (CbDecimal b p s) = Some b"
| "inner (CbBoolean b) = Some b"
| "inner (CbDate b) = Some b"
| "inner (CbTimestamp b tz) = Some b"
| "inner (CbTime b) = Some b"
| "inner (CbBinary b) = Some b"
| "inner (CbUtf8 b) = Some b"

fun cb_contents :: "('b \<Rightarrow> 'f arrow_value option list) \<Rightarrow> 'b column_builder \<Rightarrow> 'f entry list" where
  "cb_contents held (CbList e offs vs) = list_entries offs (cb_contents held e) vs"
| "cb_contents held cb = (case inner cb of Some b \<Rightarrow> map entry_of (held b) | None \<Rightarrow> [])"

fun cb_inv :: "('b \<Rightarrow> data_type) \<Rightarrow> ('b \<Rightarrow> 'f arrow_value option list) \<Rightarrow> 'b column_builder \<Rightarrow> bool" where
  "cb_inv btype held (CbList e offs vs) \<longleftrightarrow> cb_inv btype held e \<and> list_parts_ok offs (length (cb_contents held e)) vs"
| "cb_inv btype held cb \<longleftrightarrow> (case inner cb of Some b \<Rightarrow> btype b = untagged (builder_type cb) | None \<Rightarrow> True)"

text \<open>A builder without what it holds.\<close>

definition shape :: "'b column_builder \<Rightarrow> unit column_builder" where
  "shape cb = map_column_builder (\<lambda>_. ()) cb"

fun list_shape :: "unit column_builder \<Rightarrow> unit column_builder" where
  "list_shape (CbList e offs vs) = CbList (list_shape e) [] []"
| "list_shape cb = cb"

definition kind_of :: "'b column_builder \<Rightarrow> unit column_builder" where
  "kind_of cb = list_shape (shape cb)"

lemma kind_of_simps [simp]:
  "kind_of (CbList e offs vs) = CbList (kind_of e) [] []"
  "kind_of (CbInt16 b) = CbInt16 ()" "kind_of (CbInt32 b) = CbInt32 ()" "kind_of (CbInt64 b) = CbInt64 ()"
  "kind_of (CbFloat32 b) = CbFloat32 ()" "kind_of (CbFloat64 b) = CbFloat64 ()"
  "kind_of (CbDecimal b p s) = CbDecimal () p s" "kind_of (CbBoolean b) = CbBoolean ()"
  "kind_of (CbDate b) = CbDate ()" "kind_of (CbTimestamp b tz) = CbTimestamp () tz"
  "kind_of (CbTime b) = CbTime ()" "kind_of (CbBinary b) = CbBinary ()" "kind_of (CbUtf8 b) = CbUtf8 ()"
  by (simp_all add: kind_of_def shape_def)

lemma builder_type_kind: "builder_type (kind_of cb) = builder_type cb"
  by (induction cb) simp_all

text \<open>
  The specification of \<open>append\<close>: the entry a field stands for in a column, and whether a value was
  substituted by NULL.
\<close>

definition plain :: "('x \<Rightarrow> 'f arrow_value) \<Rightarrow> 'x option res \<Rightarrow> (bool \<times> 'f entry) res" where
  "plain f r = and_then r (\<lambda>x. Inr (False, entry_of (map_option f x)))"

definition counted :: "('x \<Rightarrow> 'f arrow_value) \<Rightarrow> 'x option res \<Rightarrow> (bool \<times> 'f entry) res" where
  "counted f r = and_then r (\<lambda>x. Inr (x = None, entry_of (map_option f x)))"

fun col_value :: "('f, 'b, 'a, 'r) arrow_ops \<Rightarrow> bytes \<Rightarrow> unit column_builder \<Rightarrow> bytes option \<Rightarrow> (bool \<times> 'f entry) res" where
  "col_value A column cb None = Inr (False, Null)"
| "col_value A column (CbInt16 _) (Some v) = plain VInt (parse_i16 v column)"
| "col_value A column (CbInt32 _) (Some v) = plain VInt (parse_i32 v column)"
| "col_value A column (CbInt64 _) (Some v) = plain VInt (parse_i64 v column)"
| "col_value A column (CbFloat32 _) (Some v) = plain VFloat (parse_f32 (ar_round32 A) v column)"
| "col_value A column (CbFloat64 _) (Some v) = plain VFloat (parse_f64 (ar_round64 A) v column)"
| "col_value A column (CbDecimal _ p s) (Some v) = counted VInt (parse_decimal v p s column)"
| "col_value A column (CbBoolean _) (Some v) = plain VBool (parse_bool v column)"
| "col_value A column (CbDate _) (Some v) = counted VInt (parse_date v column)"
| "col_value A column (CbTimestamp _ tz) (Some v) = counted VInt (parse_timestamp v tz column)"
| "col_value A column (CbTime _) (Some v) = plain VInt (parse_time v column)"
| "col_value A column (CbBinary _) (Some v) = plain VBytes (and_then (parse_bytea v column []) (\<lambda>b. Inr (Some b)))"
| "col_value A column (CbUtf8 _) (Some v) = (if utf8_valid v then Inr (False, Val (VBytes v)) else Inl (NonUtf8Text column))"
| "col_value A column (CbList e _ _) (Some v) =
     and_then (parse_array_elements v column) (\<lambda>es.
     and_then (map_res (\<lambda>x. col_value A column e x) es) (\<lambda>xs. Inr (list_ex fst xs, Elems (map snd xs))))"

text \<open>A builder after \<open>xs\<close> were added to it.\<close>

definition appended :: "('b \<Rightarrow> data_type) \<Rightarrow> ('b \<Rightarrow> 'f arrow_value option list) \<Rightarrow> 'b column_builder \<Rightarrow> 'b column_builder
    \<Rightarrow> 'f entry list \<Rightarrow> bool" where
  "appended btype held cb cb' xs \<longleftrightarrow>
     cb_contents held cb' = cb_contents held cb @ xs \<and> cb_inv btype held cb' \<and> kind_of cb' = kind_of cb"

text \<open>A row of fields as the columns' parsers read it, one entry per column.\<close>

definition row_values :: "('f, 'b, 'a, 'r) arrow_ops \<Rightarrow> bytes list \<Rightarrow> unit column_builder list \<Rightarrow> bytes option list
    \<Rightarrow> (bool \<times> 'f entry) list res" where
  "row_values A names kinds row =
     (if length row \<noteq> length kinds then Inl (FieldCountMismatch (length row) (length kinds))
      else map_res (\<lambda>(n, k, v). col_value A n k v) (zip names (zip kinds row)))"

text \<open>The batch builder after the rows \<open>got\<close> were appended since it was created or last finished.\<close>

definition bb_inv :: "('b \<Rightarrow> data_type) \<Rightarrow> ('b \<Rightarrow> 'f arrow_value option list) \<Rightarrow> 'b batch_builder \<Rightarrow> 'f entry list list \<Rightarrow> bool" where
  "bb_inv btype held bb got \<longleftrightarrow>
     length (bb_names bb) = length (bb_columns bb) \<and> length (bb_substitutions bb) = length (bb_columns bb)
     \<and> map snd (bb_schema bb) = map builder_type (bb_columns bb) \<and> bb_rows bb = length got
     \<and> (\<forall>i < length (bb_columns bb). cb_inv btype held (bb_columns bb ! i)
          \<and> cb_contents held (bb_columns bb ! i) = map (\<lambda>row. row ! i) got)"

definition bb_kinds :: "'b batch_builder \<Rightarrow> unit column_builder list" where
  "bb_kinds bb = map kind_of (bb_columns bb)"

definition transposed :: "nat \<Rightarrow> 'f entry list list \<Rightarrow> 'f entry list list" where
  "transposed n got = map (\<lambda>i. map (\<lambda>row. row ! i) got) [0..<n]"

subsection \<open>The contract of Arrow\<close>

locale arrow_api =
  fixes A :: "('f, 'b, 'a, 'r) arrow_ops"
    and held :: "'b \<Rightarrow> 'f arrow_value option list" and btype :: "'b \<Rightarrow> data_type"
    and contents :: "'a \<Rightarrow> 'f entry list" and atype :: "'a \<Rightarrow> data_type"
    and batch_columns :: "'r \<Rightarrow> 'f entry list list"
  assumes new_laws: "held (ar_new A dt) = []" "btype (ar_new A dt) = dt"
    and decimal_fit: "1 \<le> p \<Longrightarrow> p \<le> 38 \<Longrightarrow> 0 \<le> s \<Longrightarrow> s \<le> int p \<Longrightarrow> \<exists>b. ar_decimal A p s = Some b"
    and decimal_laws: "ar_decimal A p s = Some b \<Longrightarrow> held b = [] \<and> btype b = DDecimal p s"
    and push_laws: "held (ar_push A b v) = held b @ [v]" "btype (ar_push A b v) = btype b"
    and finish_laws: "ar_finish A b = (a, b') \<Longrightarrow>
          contents a = map entry_of (held b) \<and> atype a = btype b \<and> held b' = [] \<and> btype b' = btype b"
    and timezone_laws: "contents (ar_with_timezone A a) = contents a"
          "atype a = DTimestamp z \<Longrightarrow> atype (ar_with_timezone A a) = DTimestamp True"
    and list_laws: "list_parts_ok offs (length (contents a)) vs \<Longrightarrow>
          \<exists>l. ar_list A offs a vs = Some l \<and> contents l = list_entries offs (contents a) vs \<and> atype l = DList (atype a)"
    and batch_laws: "as \<noteq> [] \<Longrightarrow> map snd schema = map atype as \<Longrightarrow> (\<And>a. a \<in> set as \<Longrightarrow> length (contents a) = n) \<Longrightarrow>
          \<exists>r. ar_batch A schema as = Inr r \<and> batch_columns r = map contents as"
begin

subsection \<open>New builders\<close>

lemma utf8_builder_ok: "cb_inv btype held (utf8_builder A)" "cb_contents held (utf8_builder A) = []"
  "builder_type (utf8_builder A) = DUtf8"
  by (simp_all add: utf8_builder_def new_laws untagged_def)

lemma decimal_builder_ok:
  assumes "1 \<le> p" "p \<le> 38" "0 \<le> s" "s \<le> int p"
  shows "cb_inv btype held (decimal_builder A p s)" "cb_contents held (decimal_builder A p s) = []"
    "builder_type (decimal_builder A p s) = DDecimal p s"
  using decimal_fit[OF assms] by (auto simp: decimal_builder_def untagged_def dest: decimal_laws)

lemma scalar_builder_ok:
  assumes "\<not> is_textual rt" "\<not> rt_is_array rt"
  shows "cb_inv btype held (scalar_builder A (rt_pg rt)) \<and> cb_contents held (scalar_builder A (rt_pg rt)) = []
    \<and> builder_type (scalar_builder A (rt_pg rt)) = scalar_type (rt_pg rt)"
proof (cases "rt_pg rt")
  case (Numeric p s)
  then have "decimal_fits p s" using assms by (simp add: is_textual_def split: if_splits)
  then obtain n where n: "p = Some n" "1 \<le> n" "n \<le> 38" "case s of None \<Rightarrow> True | Some i \<Rightarrow> 0 \<le> i \<and> i \<le> int n"
    by (auto simp: decimal_fits_def MAX_DECIMAL_PRECISION_def split: option.splits if_splits)
  then show ?thesis
    using Numeric decimal_builder_ok[of n "case s of Some i \<Rightarrow> i | None \<Rightarrow> 0"] by (simp split: option.splits)
qed (simp_all add: new_laws untagged_def utf8_builder_ok)

lemma new_builder_ok:
  "cb_inv btype held (new_builder A rt wide native) \<and> cb_contents held (new_builder A rt wide native) = []
   \<and> builder_type (new_builder A rt wide native) = arrow_type rt wide native"
proof -
  have scalar: "cb_inv btype held (new_builder A r wide native') \<and> cb_contents held (new_builder A r wide native') = []
      \<and> builder_type (new_builder A r wide native') = arrow_type r wide n'"
    if "\<not> rt_is_array r" for r native' n'
    using that scalar_builder_ok[of r] utf8_builder_ok decimal_builder_ok[of WIDE_NUMERIC_PRECISION WIDE_NUMERIC_SCALE]
    by (simp add: new_builder.simps[of A r] arrow_type.simps[of r] WIDE_NUMERIC_PRECISION_def
        MAX_DECIMAL_PRECISION_def WIDE_NUMERIC_SCALE_def)
  show ?thesis
  proof (cases "rt_is_array rt")
    case True
    have "\<not> rt_is_array (as_element rt)" by (simp add: as_element_def)
    from scalar[OF this, of native False] show ?thesis
      using True utf8_builder_ok
      by (auto simp: new_builder.simps[of A rt] arrow_type.simps[of rt] array_element_type.simps[of "as_element rt"]
          list_parts_ok_def split: if_splits)
  qed (rule scalar)
qed

subsection \<open>Appending\<close>

lemma entry_of_simps [simp]: "entry_of None = Null" "entry_of (Some x) = Val x"
  by (simp_all add: entry_of_def)

lemma append_null_ok:
  assumes "cb_inv btype held cb"
  shows "cb_contents held (append_null A cb) = cb_contents held cb @ [Null]" "cb_inv btype held (append_null A cb)"
    "kind_of (append_null A cb) = kind_of cb"
proof -
  show "cb_contents held (append_null A cb) = cb_contents held cb @ [Null]"
  proof (cases cb)
    case (CbList e offs vs)
    then have "list_entries (offs @ [last offs + int (length [])]) (cb_contents held e @ []) (vs @ [False])
        = list_entries offs (cb_contents held e) vs @ [if False then Elems [] else Null]"
      using assms list_entries_snoc[of offs "cb_contents held e" vs "[]" False] by (simp add: list_parts_ok_def)
    then show ?thesis using CbList by simp
  qed (simp_all add: push_laws)
  show "cb_inv btype held (append_null A cb)"
  proof (cases cb)
    case (CbList e offs vs)
    then show ?thesis using assms list_parts_snoc[of offs _ vs 0 False] by simp
  qed (use assms in \<open>simp_all add: push_laws untagged_def\<close>)
  show "kind_of (append_null A cb) = kind_of cb" by (cases cb) simp_all
qed

lemma append_ok:
  "B = A \<Longrightarrow> cb_inv btype held cb \<Longrightarrow> col_append B column cb v = Inr (s, cb') \<Longrightarrow>
     \<exists>x. col_value A column (kind_of cb) v = Inr (s, x) \<and> appended btype held cb cb' [x]"
  "B = A \<Longrightarrow> cb_inv btype held cb \<Longrightarrow> append_elements B column cb es s0 = Inr (s, cb') \<Longrightarrow>
     \<exists>xs. map_res (\<lambda>x. col_value A column (kind_of cb) x) es = Inr xs \<and> s = (s0 \<or> list_ex fst xs)
       \<and> appended btype held cb cb' (map snd xs)"
proof (induction B column cb v and B column cb es s0 arbitrary: s cb' and s cb'
    rule: col_append_append_elements.induct)
  case (1 B column cb)
  then show ?case using append_null_ok[of cb] by (auto simp: appended_def)
next
  case (13 B column element offsets validity v)
  obtain es s1 e1 k m where e: "parse_array_elements v column = Inr es"
    "append_elements A column element es False = Inr (s1, e1)" "checked32 (int (length es)) = Some k"
    "checked32 (last offsets + k) = Some m" "s = s1" "cb' = CbList e1 (offsets @ [m]) (validity @ [True])"
    using "13.prems" by (auto simp: and_then_eq_Inr)
  have inv: "cb_inv btype held element" "list_parts_ok offsets (length (cb_contents held element)) validity"
    using "13.prems" by simp_all
  obtain xs where xs: "map_res (\<lambda>x. col_value A column (kind_of element) x) es = Inr xs" "s1 = list_ex fst xs"
    "appended btype held element e1 (map snd xs)"
    using "13.IH"[OF e(1)] "13.prems"(1) inv(1) e(2) by auto
  have m: "m = last offsets + int (length (map snd xs))"
    using e(3,4) length_map_res[OF xs(1)] by (auto simp: checked32_def split: if_splits)
  have "list_entries (offsets @ [m]) (cb_contents held element @ map snd xs) (validity @ [True])
      = list_entries offsets (cb_contents held element) validity @ [if True then Elems (map snd xs) else Null]"
    unfolding m by (rule list_entries_snoc) (use inv(2) in \<open>auto simp: list_parts_ok_def\<close>)
  moreover have "list_parts_ok (offsets @ [m]) (length (cb_contents held element) + length (map snd xs)) (validity @ [True])"
    unfolding m by (rule list_parts_snoc[OF inv(2)])
  ultimately have "appended btype held (CbList element offsets validity) cb' [Elems (map snd xs)]"
    using xs(3) e(6) by (simp add: appended_def)
  then show ?case using e(1,5) xs(1,2) by simp
next
  case (16 B column element elem elems substituted)
  obtain sub e1 where e: "col_append A column element elem = Inr (sub, e1)"
    "append_elements A column e1 elems (substituted \<or> sub) = Inr (s, cb')"
    using "16.prems" by (auto simp: and_then_eq_Inr)
  obtain x where x: "col_value A column (kind_of element) elem = Inr (sub, x)" "appended btype held element e1 [x]"
    using "16.IH"(1)[OF "16.prems"(1,2)] e(1) "16.prems"(1) by blast
  have "cb_inv btype held e1" "kind_of e1 = kind_of element" using x(2) by (simp_all add: appended_def)
  then obtain xs where xs: "map_res (\<lambda>x. col_value A column (kind_of element) x) elems = Inr xs"
    "s = ((substituted \<or> sub) \<or> list_ex fst xs)" "appended btype held e1 cb' (map snd xs)"
    using "16.IH"(2)[of "(sub, e1)" sub e1 s cb'] e "16.prems"(1) by auto
  have "appended btype held element cb' (map snd ((sub, x) # xs))" using x(2) xs(3) by (simp add: appended_def)
  then show ?case using x(1) xs(1,2) by (auto simp: and_then_eq_Inr)
qed (auto simp: appended_def wrap_builder_Inr pushed_def pushed_sub_def plain_def counted_def and_then_eq_Inr
    push_laws untagged_def split: if_splits)

lemma append_error:
  "B = A \<Longrightarrow> cb_inv btype held cb \<Longrightarrow> col_append B column cb v = Inl e \<Longrightarrow>
     col_value A column (kind_of cb) v = Inl e \<or> e = UnparsableValue column ''array''"
  "B = A \<Longrightarrow> cb_inv btype held cb \<Longrightarrow> append_elements B column cb es s0 = Inl e \<Longrightarrow>
     map_res (\<lambda>x. col_value A column (kind_of cb) x) es = Inl e \<or> e = UnparsableValue column ''array''"
proof (induction B column cb v and B column cb es s0 arbitrary: e and e rule: col_append_append_elements.induct)
  case (13 B column element offsets validity v)
  then show ?case by (fastforce simp: and_then_eq_Inl)
next
  case (16 B column element elem elems substituted)
  consider "col_append A column element elem = Inl e"
    | sub e1 where "col_append A column element elem = Inr (sub, e1)" "append_elements A column e1 elems (substituted \<or> sub) = Inl e"
    using "16.prems" by (auto simp: and_then_eq_Inl)
  then show ?case
  proof cases
    case 1
    then show ?thesis using "16.IH"(1)[of e] "16.prems"(1,2) by (auto simp: and_then_eq_Inl)
  next
    case 2
    obtain x where x: "col_value A column (kind_of element) elem = Inr (sub, x)" "appended btype held element e1 [x]"
      using append_ok(1)[OF refl "16.prems"(2) 2(1)] by blast
    then have "cb_inv btype held e1" "kind_of e1 = kind_of element" by (simp_all add: appended_def)
    then show ?thesis
      using "16.IH"(2)[of "(sub, e1)" sub e1 e] 2 "16.prems"(1) x(1) by (auto simp: and_then_eq_Inl)
  qed
qed (auto simp: wrap_builder_def pushed_def pushed_sub_def plain_def counted_def and_then_eq_Inl split: if_splits)

subsection \<open>Finishing\<close>

lemma fin_ok:
  "\<exists>a b'. fin A C b = Some (a, C b') \<and> contents a = map entry_of (held b) \<and> atype a = btype b
     \<and> held b' = [] \<and> btype b' = btype b"
  using finish_laws[of b "fst (ar_finish A b)" "snd (ar_finish A b)"] by (auto simp: fin_def split: prod.splits)

lemma finish_ok:
  "cb_inv btype held cb \<Longrightarrow> \<exists>a cb'. col_finish A cb = Some (a, cb') \<and> contents a = cb_contents held cb
     \<and> atype a = builder_type cb \<and> cb_inv btype held cb' \<and> cb_contents held cb' = [] \<and> kind_of cb' = kind_of cb"
proof (induction cb)
  case (CbList e offs vs)
  obtain a e' where f: "col_finish A e = Some (a, e')" "contents a = cb_contents held e" "atype a = builder_type e"
    "cb_inv btype held e'" "cb_contents held e' = []" "kind_of e' = kind_of e"
    using CbList by auto
  then show ?case using list_laws[of offs a vs] CbList.prems by (auto simp: list_parts_ok_def)
next
  case (CbTimestamp b tz)
  obtain a b' where f: "fin A (\<lambda>b. CbTimestamp b tz) b = Some (a, CbTimestamp b' tz)" "contents a = map entry_of (held b)"
    "atype a = btype b" "held b' = []" "btype b' = btype b" using fin_ok[of "\<lambda>b. CbTimestamp b tz" b] by blast
  have "atype a = DTimestamp False" using f(3) CbTimestamp by (simp add: untagged_def)
  then show ?case using f timezone_laws CbTimestamp by (simp add: untagged_def)
next
  case (CbInt16 b)
  then show ?case using fin_ok[of CbInt16 b] by (auto simp: untagged_def)
next
  case (CbInt32 b)
  then show ?case using fin_ok[of CbInt32 b] by (auto simp: untagged_def)
next
  case (CbInt64 b)
  then show ?case using fin_ok[of CbInt64 b] by (auto simp: untagged_def)
next
  case (CbFloat32 b)
  then show ?case using fin_ok[of CbFloat32 b] by (auto simp: untagged_def)
next
  case (CbFloat64 b)
  then show ?case using fin_ok[of CbFloat64 b] by (auto simp: untagged_def)
next
  case (CbDecimal b p s)
  then show ?case using fin_ok[of "\<lambda>b. CbDecimal b p s" b] by (auto simp: untagged_def)
next
  case (CbBoolean b)
  then show ?case using fin_ok[of CbBoolean b] by (auto simp: untagged_def)
next
  case (CbDate b)
  then show ?case using fin_ok[of CbDate b] by (auto simp: untagged_def)
next
  case (CbTime b)
  then show ?case using fin_ok[of CbTime b] by (auto simp: untagged_def)
next
  case (CbBinary b)
  then show ?case using fin_ok[of CbBinary b] by (auto simp: untagged_def)
next
  case (CbUtf8 b)
  then show ?case using fin_ok[of CbUtf8 b] by (auto simp: untagged_def)
qed

lemma finish_columns_ok:
  "(\<forall>cb \<in> set cbs. cb_inv btype held cb) \<Longrightarrow> \<exists>as cbs'. finish_columns A cbs = Some (as, cbs')
     \<and> map contents as = map (cb_contents held) cbs \<and> map atype as = map builder_type cbs
     \<and> list_all2 (\<lambda>cb cb'. cb_inv btype held cb' \<and> cb_contents held cb' = [] \<and> kind_of cb' = kind_of cb) cbs cbs'"
proof (induction cbs)
  case (Cons cb cbs)
  obtain a cb' where a: "col_finish A cb = Some (a, cb')" "contents a = cb_contents held cb"
     "atype a = builder_type cb" "cb_inv btype held cb'" "cb_contents held cb' = []" "kind_of cb' = kind_of cb"
    using finish_ok[of cb] Cons.prems by auto
  obtain as cbs' where as: "finish_columns A cbs = Some (as, cbs')"
     "map contents as = map (cb_contents held) cbs" "map atype as = map builder_type cbs"
     "list_all2 (\<lambda>cb cb'. cb_inv btype held cb' \<and> cb_contents held cb' = [] \<and> kind_of cb' = kind_of cb) cbs cbs'"
    using Cons by auto
  show ?case using a as by simp
qed simp

subsection \<open>Rows\<close>

lemma append_cells_ok:
  assumes "append_cells B ns cbs ks vs = Inr (cbs', ks')" "B = A" "length ns = length cbs" "length ks = length cbs"
    "length vs = length cbs" "\<forall>cb \<in> set cbs. cb_inv btype held cb"
  shows "\<exists>xs. map_res (\<lambda>(n, k, v). col_value A n k v) (zip ns (zip (map kind_of cbs) vs)) = Inr xs
    \<and> length xs = length cbs \<and> ks' = map2 (\<lambda>k x. k + of_bool (fst x)) ks xs
    \<and> length cbs' = length cbs
    \<and> (\<forall>i < length cbs. appended btype held (cbs ! i) (cbs' ! i) [snd (xs ! i)])"
  using assms
proof (induction B ns cbs ks vs arbitrary: cbs' ks' rule: append_cells.induct)
  case (1 B n ns cb cbs k ks v vs)
  obtain sub cb' cs qs where e: "col_append A n cb v = Inr (sub, cb')" "append_cells A ns cbs ks vs = Inr (cs, qs)"
    "cbs' = cb' # cs" "ks' = (if sub then k + 1 else k) # qs"
    using "1.prems" by (auto simp: and_then_eq_Inr)
  obtain x where x: "col_value A n (kind_of cb) v = Inr (sub, x)" "appended btype held cb cb' [x]"
    using append_ok(1)[OF refl _ e(1)] "1.prems" by auto
  obtain xs where xs: "map_res (\<lambda>(n, k, v). col_value A n k v) (zip ns (zip (map kind_of cbs) vs)) = Inr xs"
    "length xs = length cbs" "qs = map2 (\<lambda>k x. k + of_bool (fst x)) ks xs" "length cs = length cbs"
    "\<forall>i < length cbs. appended btype held (cbs ! i) (cs ! i) [snd (xs ! i)]"
    using "1.IH"[of "(sub, cb')" sub cb' cs qs] e "1.prems" by auto
  have "appended btype held ((cb # cbs) ! i) (cbs' ! i) [snd (((sub, x) # xs) ! i)]" if "i < length (cb # cbs)" for i
    using that x(2) xs(5) e(3) by (cases i) auto
  then show ?case
    using x(1) xs(1-4) e(3,4) by (intro exI[of _ "(sub, x) # xs"]) (auto simp: and_then_eq_Inr)
qed auto

lemma append_cells_error:
  assumes "append_cells B ns cbs ks vs = Inl e" "B = A" "length ns = length cbs" "length ks = length cbs"
    "length vs = length cbs" "\<forall>cb \<in> set cbs. cb_inv btype held cb"
  shows "map_res (\<lambda>(n, k, v). col_value A n k v) (zip ns (zip (map kind_of cbs) vs)) = Inl e
    \<or> (\<exists>n \<in> set ns. e = UnparsableValue n ''array'')"
  using assms
proof (induction B ns cbs ks vs arbitrary: e rule: append_cells.induct)
  case (1 B n ns cb cbs k ks v vs)
  consider "col_append A n cb v = Inl e"
    | sub cb' where "col_append A n cb v = Inr (sub, cb')" "append_cells A ns cbs ks vs = Inl e"
    using "1.prems"(1,2) by (auto simp: and_then_eq_Inl)
  then show ?case
  proof cases
    case 1
    then show ?thesis using append_error(1)[OF refl _ 1] "1.prems"(6) by (auto simp: and_then_eq_Inl)
  next
    case 2
    obtain x where "col_value A n (kind_of cb) v = Inr (sub, x)"
      using append_ok(1)[OF refl _ 2(1)] "1.prems"(6) by auto
    then show ?thesis using "1.IH"[of "(sub, cb')" sub cb' e] 2 "1.prems" by (auto simp: and_then_eq_Inl)
  qed
qed auto

lemma append_row_ok:
  assumes "bb_inv btype held bb got" "append_row A row bb = Inr bb'"
  shows "\<exists>xs. row_values A (bb_names bb) (bb_kinds bb) row = Inr xs \<and> bb_inv btype held bb' (got @ [map snd xs])
    \<and> length xs = length (bb_columns bb)
    \<and> bb_substitutions bb' = map2 (\<lambda>k x. k + of_bool (fst x)) (bb_substitutions bb) xs
    \<and> bb_kinds bb' = bb_kinds bb \<and> bb_names bb' = bb_names bb \<and> length (bb_columns bb') = length (bb_columns bb)
    \<and> bb_bytes bb' = bb_bytes bb + sum_list (map cell_len row)
    \<and> bb_max_rows bb' = bb_max_rows bb \<and> bb_max_bytes bb' = bb_max_bytes bb"
proof -
  obtain cs ks where a: "length row = length (bb_columns bb)"
    "append_cells A (bb_names bb) (bb_columns bb) (bb_substitutions bb) row = Inr (cs, ks)"
    "bb' = bb\<lparr>bb_columns := cs, bb_substitutions := ks,
       bb_bytes := bb_bytes bb + sum_list (map cell_len row), bb_rows := bb_rows bb + 1\<rparr>"
    using assms(2) by (auto simp: append_row_def and_then_eq_Inr split: if_splits)
  have inv: "\<forall>cb \<in> set (bb_columns bb). cb_inv btype held cb"
    using assms(1) by (auto simp: bb_inv_def in_set_conv_nth)
  obtain xs where xs: "map_res (\<lambda>(n, k, v). col_value A n k v) (zip (bb_names bb) (zip (bb_kinds bb) row)) = Inr xs"
    "length xs = length (bb_columns bb)" "ks = map2 (\<lambda>k x. k + of_bool (fst x)) (bb_substitutions bb) xs"
    "length cs = length (bb_columns bb)"
    "\<forall>i < length (bb_columns bb). appended btype held (bb_columns bb ! i) (cs ! i) [snd (xs ! i)]"
    using append_cells_ok[OF a(2) refl _ _ _ inv] assms(1) a(1) by (auto simp: bb_inv_def bb_kinds_def)
  have k: "map kind_of cs = map kind_of (bb_columns bb)"
    using xs(4,5) by (intro nth_equalityI) (auto simp: appended_def)
  then have "map builder_type cs = map builder_type (bb_columns bb)"
    by (metis (mono_tags, lifting) builder_type_kind list.map_comp comp_apply map_eq_conv)
  then have "bb_inv btype held bb' (got @ [map snd xs])"
    using assms(1) a(3) xs(2-5) by (auto simp: bb_inv_def appended_def)
  then show ?thesis using xs a k by (auto simp: row_values_def bb_kinds_def)
qed

lemma append_row_error:
  assumes "bb_inv btype held bb got" "append_row A row bb = Inl e"
  shows "row_values A (bb_names bb) (bb_kinds bb) row = Inl e \<or> (\<exists>n \<in> set (bb_names bb). e = UnparsableValue n ''array'')"
proof -
  have inv: "\<forall>cb \<in> set (bb_columns bb). cb_inv btype held cb"
    using assms(1) by (auto simp: bb_inv_def in_set_conv_nth)
  show ?thesis
    using assms append_cells_error[OF _ refl _ _ _ inv]
    by (auto simp: append_row_def row_values_def bb_kinds_def bb_inv_def and_then_eq_Inl split: if_splits)
qed

lemma finish_batch_ok:
  assumes "bb_inv btype held bb got" "bb_columns bb \<noteq> []" "got \<noteq> []"
  shows "\<exists>r bb'. finish_batch A bb = Some (Inr (Some r), bb') \<and> batch_columns r = transposed (length (bb_columns bb)) got
    \<and> bb_inv btype held bb' [] \<and> bb_bytes bb' = 0 \<and> bb_substitutions bb' = bb_substitutions bb
    \<and> bb_kinds bb' = bb_kinds bb \<and> bb_names bb' = bb_names bb \<and> length (bb_columns bb') = length (bb_columns bb)
    \<and> bb_max_rows bb' = bb_max_rows bb \<and> bb_max_bytes bb' = bb_max_bytes bb"
proof -
  have inv: "\<forall>cb \<in> set (bb_columns bb). cb_inv btype held cb"
    using assms(1) by (auto simp: bb_inv_def in_set_conv_nth)
  obtain as cs where f: "finish_columns A (bb_columns bb) = Some (as, cs)"
     "map contents as = map (cb_contents held) (bb_columns bb)" "map atype as = map builder_type (bb_columns bb)"
     "list_all2 (\<lambda>cb cb'. cb_inv btype held cb' \<and> cb_contents held cb' = [] \<and> kind_of cb' = kind_of cb) (bb_columns bb) cs"
    using finish_columns_ok[OF inv] by blast
  have len: "length as = length (bb_columns bb)" using f(2) by (metis length_map)
  have n: "length (contents a) = length got" if "a \<in> set as" for a
  proof -
    obtain i where i: "i < length as" "a = as ! i" using \<open>a \<in> set as\<close> by (auto simp: in_set_conv_nth)
    have "contents a = cb_contents held (bb_columns bb ! i)"
      using f(2) i len by (metis nth_map)
    then show ?thesis using assms(1) i len by (simp add: bb_inv_def)
  qed
  have "as \<noteq> []" using len assms(2) by auto
  then obtain r where r: "ar_batch A (bb_schema bb) as = Inr r" "batch_columns r = map contents as"
    using batch_laws[of as "bb_schema bb" "length got"] f(3) assms(1) n by (auto simp: bb_inv_def)
  have "batch_columns r = transposed (length (bb_columns bb)) got"
    unfolding r(2) f(2) transposed_def
    by (rule nth_equalityI) (use assms(1) in \<open>simp_all add: bb_inv_def\<close>)
  moreover have l: "length cs = length (bb_columns bb)" using f(4) by (simp add: list_all2_lengthD)
  moreover have k: "map kind_of cs = map kind_of (bb_columns bb)"
    using f(4) l by (intro nth_equalityI) (auto simp: list_all2_conv_all_nth)
  then have "map builder_type cs = map builder_type (bb_columns bb)"
    by (metis (mono_tags, lifting) builder_type_kind list.map_comp comp_apply map_eq_conv)
  then have "bb_inv btype held (bb\<lparr>bb_columns := cs, bb_rows := 0, bb_bytes := 0\<rparr>) []"
    using assms(1) f(4) l by (auto simp: bb_inv_def list_all2_conv_all_nth)
  moreover have "bb_rows bb \<noteq> 0" using assms(1,3) by (simp add: bb_inv_def)
  ultimately show ?thesis using f(1) r(1) k l by (auto simp: finish_batch_def bb_kinds_def)
qed

lemma new_batch_inv:
  "bb_inv btype held (new_batch_builder A columns mr mb wide native) []"
  "bb_kinds (new_batch_builder A columns mr mb wide native) = map (\<lambda>(_, rt). kind_of (new_builder A rt wide native)) columns"
  by (auto simp: bb_inv_def new_batch_builder_def bb_kinds_def arrow_schema_def new_builder_ok split: prod.splits)

lemma append_rows_ok:
  assumes "bb_inv btype held bb got" "fold_res (append_row A) ins bb = Inr bb'"
  shows "\<exists>xss. map_res (row_values A (bb_names bb) (bb_kinds bb)) ins = Inr xss
    \<and> bb_inv btype held bb' (got @ map (map snd) xss)
    \<and> (\<forall>i < length (bb_columns bb). bb_substitutions bb' ! i
          = bb_substitutions bb ! i + length (filter (\<lambda>xs. fst (xs ! i)) xss))
    \<and> length (bb_columns bb') = length (bb_columns bb) \<and> bb_kinds bb' = bb_kinds bb \<and> bb_names bb' = bb_names bb"
  using assms
proof (induction ins arbitrary: bb got)
  case (Cons row ins)
  obtain b1 where b1: "append_row A row bb = Inr b1" "fold_res (append_row A) ins b1 = Inr bb'"
    using Cons.prems(2) by (auto simp: and_then_eq_Inr)
  obtain xs where xs: "row_values A (bb_names bb) (bb_kinds bb) row = Inr xs"
    "bb_inv btype held b1 (got @ [map snd xs])" "length xs = length (bb_columns bb)"
    "bb_substitutions b1 = map2 (\<lambda>k x. k + of_bool (fst x)) (bb_substitutions bb) xs"
    "bb_kinds b1 = bb_kinds bb" "bb_names b1 = bb_names bb" "length (bb_columns b1) = length (bb_columns bb)"
    using append_row_ok[OF Cons.prems(1) b1(1)] by blast
  obtain xss where xss: "map_res (row_values A (bb_names bb) (bb_kinds bb)) ins = Inr xss"
    "bb_inv btype held bb' ((got @ [map snd xs]) @ map (map snd) xss)"
    "\<forall>i < length (bb_columns b1). bb_substitutions bb' ! i
          = bb_substitutions b1 ! i + length (filter (\<lambda>xs. fst (xs ! i)) xss)"
    "length (bb_columns bb') = length (bb_columns b1)" "bb_kinds bb' = bb_kinds b1" "bb_names bb' = bb_names b1"
    using Cons.IH[OF xs(2) b1(2)] xs(5,6) by auto
  have "length (bb_substitutions bb) = length (bb_columns bb)" using Cons.prems(1) by (simp add: bb_inv_def)
  then have "bb_substitutions bb' ! i = bb_substitutions bb ! i + length (filter (\<lambda>ys. fst (ys ! i)) (xs # xss))"
    if "i < length (bb_columns bb)" for i
    using that xss(3) xs(3,4,7) by simp
  then show ?case using xs(1,5-7) xss by (intro exI[of _ "xs # xss"]) (auto simp: and_then_eq_Inr)
qed auto

lemma append_values_ok:
  assumes "fold_res (\<lambda>v cb. and_then (col_append A column cb v) (\<lambda>(s, cb'). Inr cb')) vs cb = Inr cb'"
    "cb_inv btype held cb"
  shows "\<exists>xs. map_res (col_value A column (kind_of cb)) vs = Inr xs \<and> appended btype held cb cb' (map snd xs)"
  using assms
proof (induction vs arbitrary: cb)
  case (Cons v vs)
  obtain s c where c: "col_append A column cb v = Inr (s, c)"
    "fold_res (\<lambda>v cb. and_then (col_append A column cb v) (\<lambda>(s, cb'). Inr cb')) vs c = Inr cb'"
    using Cons.prems(1) by (auto simp: and_then_eq_Inr)
  obtain x where x: "col_value A column (kind_of cb) v = Inr (s, x)" "appended btype held cb c [x]"
    using append_ok(1)[OF refl Cons.prems(2) c(1)] by blast
  then have "cb_inv btype held c" "kind_of c = kind_of cb" by (simp_all add: appended_def)
  from Cons.IH[OF c(2) this(1)] this(2) obtain xs where
    "map_res (col_value A column (kind_of cb)) vs = Inr xs" "appended btype held c cb' (map snd xs)" by auto
  then show ?case using x by (intro exI[of _ "(s, x) # xs"]) (auto simp: and_then_eq_Inr appended_def)
qed (auto simp: appended_def)

end

subsection \<open>Builders that are lists\<close>

type_synonym 'f list_array = "data_type \<times> 'f entry list"

definition list_arrow :: "(float_val \<Rightarrow> 'f) \<Rightarrow> (float_val \<Rightarrow> 'f) \<Rightarrow>
    ('f, data_type \<times> 'f arrow_value option list, 'f list_array, 'f entry list list) arrow_ops" where
  "list_arrow r32 r64 =
     \<lparr>ar_new = (\<lambda>dt. (dt, [])),
      ar_decimal = (\<lambda>p s. if 1 \<le> p \<and> p \<le> 38 \<and> s \<le> int p then Some (DDecimal p s, []) else None),
      ar_push = (\<lambda>(dt, vs) v. (dt, vs @ [v])),
      ar_finish = (\<lambda>(dt, vs). ((dt, map entry_of vs), (dt, []))),
      ar_with_timezone = (\<lambda>(dt, es). (DTimestamp True, es)),
      ar_list = (\<lambda>offs (dt, es) vs. if list_parts_ok offs (length es) vs
                   then Some (DList dt, list_entries offs es vs) else None),
      ar_batch = (\<lambda>schema as. if as \<noteq> [] \<and> map snd schema = map fst as
                   \<and> (\<forall>a \<in> set as. length (snd a) = length (snd (hd as)))
                   then Inr (map snd as) else Inl ''arrays do not fit the schema''),
      ar_round32 = r32, ar_round64 = r64\<rparr>"

interpretation list_arrow: arrow_api "list_arrow r32 r64" snd fst snd fst "\<lambda>r. r" for r32 r64
proof (unfold_locales, goal_cases)
  case (11 as schema n)
  then have "hd as \<in> set as" by simp
  with 11 show ?case by (simp add: list_arrow_def)
qed (auto simp: list_arrow_def split: if_splits)

subsection \<open>Properties\<close>

text \<open>A type that Arrow and the target accept: bounded decimals, timestamps in UTC, lists one deep.\<close>

fun type_ok :: "data_type \<Rightarrow> bool" where
  "type_ok (DDecimal p s) \<longleftrightarrow> 1 \<le> p \<and> p \<le> 38 \<and> 0 \<le> s \<and> s \<le> int p"
| "type_ok (DTimestamp utc) \<longleftrightarrow> utc"
| "type_ok (DList e) \<longleftrightarrow> type_ok e \<and> (\<forall>d. e \<noteq> DList d)"
| "type_ok _ \<longleftrightarrow> True"

lemma scalar_type_ok: "\<not> is_textual rt \<Longrightarrow> type_ok (scalar_type (rt_pg rt)) \<and> (\<forall>d. scalar_type (rt_pg rt) \<noteq> DList d)"
  by (cases "rt_pg rt")
    (auto simp: is_textual_def decimal_fits_def MAX_DECIMAL_PRECISION_def split: if_splits option.splits)

lemma flat_type_ok: "\<not> rt_is_array rt \<Longrightarrow> type_ok (arrow_type rt wide native) \<and> (\<forall>d. arrow_type rt wide native \<noteq> DList d)"
  using scalar_type_ok[of rt]
  by (auto simp: arrow_type.simps[of rt] WIDE_NUMERIC_PRECISION_def MAX_DECIMAL_PRECISION_def WIDE_NUMERIC_SCALE_def)

text \<open>
  C30. Every declared type maps to one Arrow and the target can hold: a decimal of at most 38 digits with a
  scale inside them, a timestamp always stamped UTC, a list never nested. With both options off, a column
  is text exactly when it is textual, whatever its declaration said; and one dimension of an array is a
  list only under \<open>native_arrays\<close> and only of a type that has a mapping.
\<close>

theorem arrow_type_sound:
  "type_ok (arrow_type rt wide native)
   \<and> arrow_type rt False False = (if is_textual rt then DUtf8 else scalar_type (rt_pg rt))
   \<and> (arrow_type rt wide native = DList e \<longleftrightarrow>
        native \<and> rt_is_array rt \<and> rt_array_dimensions rt = 1 \<and> array_element_type (as_element rt) wide = Some e)"
proof -
  have flat: "\<not> rt_is_array (as_element rt)" by (simp add: as_element_def)
  have nofit: "rt_pg rt = Numeric p s \<Longrightarrow> numeric_too_wide p \<Longrightarrow> is_textual rt" for p s
    by (auto simp: numeric_too_wide_def is_textual_def decimal_fits_def split: option.splits)
  show ?thesis
  proof (cases "rt_is_array rt")
    case True
    then show ?thesis
      using flat_type_ok[OF flat, of wide False]
      by (auto simp: arrow_type.simps[of rt] array_element_type.simps[of "as_element rt"] is_textual_def split: if_splits)
  next
    case False
    have "\<not> wide_decimal rt False" by (simp add: wide_decimal_def split: pg_type.split)
    then show ?thesis using False flat_type_ok[OF False] by (auto simp: arrow_type.simps[of rt False])
  qed
qed

text \<open>
  C29. A column's builder does what its schema entry declares: whatever values are appended to it, finishing
  never panics and gives an array of the type \<open>arrow_type\<close> declares, holding exactly the values the
  column's parser reads, in order.
\<close>

theorem column_holds_its_values:
  assumes "arrow_api A held btype contents atype batch_columns"
    and "fold_res (\<lambda>v cb. and_then (col_append A column cb v) (\<lambda>(s, cb'). Inr cb')) vs (new_builder A rt wide native) = Inr cb"
  shows "\<exists>a cb' xs. col_finish A cb = Some (a, cb') \<and> atype a = arrow_type rt wide native
    \<and> map_res (col_value A column (kind_of (new_builder A rt wide native))) vs = Inr xs \<and> contents a = map snd xs"
proof -
  note new = arrow_api.new_builder_ok[OF assms(1), of rt wide native]
  obtain xs where xs: "map_res (col_value A column (kind_of (new_builder A rt wide native))) vs = Inr xs"
    "appended btype held (new_builder A rt wide native) cb (map snd xs)"
    using arrow_api.append_values_ok[OF assms] new by blast
  have cb: "cb_inv btype held cb" "cb_contents held cb = map snd xs" "builder_type cb = arrow_type rt wide native"
    using xs(2) new builder_type_kind[of cb] builder_type_kind[of "new_builder A rt wide native"]
    by (simp_all add: appended_def)
  show ?thesis using arrow_api.finish_ok[OF assms(1) cb(1)] cb(2,3) xs(1) by metis
qed

text \<open>
  C28. A batch is the rows appended since the last one. The builder of a table's columns, fed any rows it
  accepts, finishes without a panic and without an Arrow error in a record batch whose columns hold
  exactly the values the fields denote; the count of NULLs substituted in a column is the number of its
  values that became NULL; with no rows there is no batch, and after a batch the builder is empty.
\<close>

theorem batch_is_the_rows:
  assumes "arrow_api A held btype contents atype batch_columns" "columns \<noteq> []"
    and "fold_res (append_row A) ins (new_batch_builder A columns max_rows max_bytes wide native) = Inr bb"
  shows "\<exists>xss. map_res (row_values A (map fst columns) (map (\<lambda>(_, rt). kind_of (new_builder A rt wide native)) columns)) ins = Inr xss
    \<and> (\<forall>i < length columns. bb_substitutions bb ! i = length (filter (\<lambda>xs. fst (xs ! i)) xss))
    \<and> (if ins = [] then finish_batch A bb = Some (Inr None, bb)
       else \<exists>r bb'. finish_batch A bb = Some (Inr (Some r), bb')
              \<and> batch_columns r = transposed (length columns) (map (map snd) xss)
              \<and> bb_inv btype held bb' [] \<and> bb_substitutions bb' = bb_substitutions bb)"
proof -
  let ?n = "new_batch_builder A columns max_rows max_bytes wide native"
  note new = arrow_api.new_batch_inv[OF assms(1), of columns max_rows max_bytes wide native]
  have names: "bb_names ?n = map fst columns" "length (bb_columns ?n) = length columns"
    "\<And>i. i < length columns \<Longrightarrow> bb_substitutions ?n ! i = 0"
    by (simp_all add: new_batch_builder_def)
  obtain xss where xss: "map_res (row_values A (bb_names ?n) (bb_kinds ?n)) ins = Inr xss"
    "bb_inv btype held bb ([] @ map (map snd) xss)"
    "\<forall>i < length (bb_columns ?n). bb_substitutions bb ! i = bb_substitutions ?n ! i + length (filter (\<lambda>xs. fst (xs ! i)) xss)"
    "length (bb_columns bb) = length (bb_columns ?n)"
    using arrow_api.append_rows_ok[OF assms(1) new(1) assms(3)] by blast
  have l: "length xss = length ins" by (rule length_map_res[OF xss(1)])
  have fin: "if ins = [] then finish_batch A bb = Some (Inr None, bb)
       else \<exists>r bb'. finish_batch A bb = Some (Inr (Some r), bb')
              \<and> batch_columns r = transposed (length columns) (map (map snd) xss)
              \<and> bb_inv btype held bb' [] \<and> bb_substitutions bb' = bb_substitutions bb"
  proof (cases "ins = []")
    case True
    then show ?thesis using xss(2) l by (simp add: finish_batch_def bb_inv_def)
  next
    case False
    then have "map (map snd) xss \<noteq> []" "bb_columns bb \<noteq> []" using l xss(4) names(2) assms(2) by auto
    then show ?thesis
      using arrow_api.finish_batch_ok[OF assms(1) _ _ , of bb "map (map snd) xss"] xss(2,4) names(2) False by auto
  qed
  show ?thesis using xss(1,3) fin names new(2) by auto
qed

text \<open>A table of an integer and a date, and the builders it gets.\<close>

definition sample_columns :: "(bytes \<times> resolved_type) list" where
  "sample_columns = [(''id'', \<lparr>rt_pg = Integer, rt_is_array = False, rt_array_dimensions = 0, rt_recognised = True, rt_source = ''integer''\<rparr>),
     (''born'', \<lparr>rt_pg = Date, rt_is_array = False, rt_array_dimensions = 0, rt_recognised = True, rt_source = ''date''\<rparr>)]"

abbreviation sample_arrow :: "(float_val, data_type \<times> float_val arrow_value option list, float_val list_array, float_val entry list list) arrow_ops" where
  "sample_arrow \<equiv> list_arrow (\<lambda>x. x) (\<lambda>x. x)"

lemma sample_column:
  "fold_res (\<lambda>v cb. and_then (col_append sample_arrow ''c'' cb v) (\<lambda>(s, cb'). Inr cb')) [Some ''{1,NULL}'', None]
     (new_builder sample_arrow (resolve (\<lambda>c. c) ''integer[]'') False True)
   = Inr (CbList (CbInt32 (DInt32, [Some (VInt 1), None])) [0, 2, 2] [True, False])"
  by code_simp

theorem column_holds_its_values_witness:
  "\<exists>a cb'. col_finish sample_arrow (CbList (CbInt32 (DInt32, [Some (VInt 1), None])) [0, 2, 2] [True, False]) = Some (a, cb')
    \<and> fst a = arrow_type (resolve (\<lambda>c. c) ''integer[]'') False True"
  using column_holds_its_values[OF list_arrow.arrow_api_axioms sample_column] by blast

lemma sample_rows:
  "fold_res (append_row sample_arrow) [[Some ''1'', Some ''infinity''], [None, Some ''1970-01-02'']]
     (new_batch_builder sample_arrow sample_columns 10 100 False False)
   = Inr \<lparr>bb_schema = [(''id'', DInt32), (''born'', DDate32)], bb_names = [''id'', ''born''],
       bb_columns = [CbInt32 (DInt32, [Some (VInt 1), None]), CbDate (DDate32, [None, Some (VInt 1)])],
       bb_rows = 2, bb_bytes = 19, bb_max_rows = 10, bb_max_bytes = 100, bb_substitutions = [0, 1]\<rparr>"
  by code_simp

theorem batch_is_the_rows_witness:
  "\<exists>r bb'. finish_batch sample_arrow \<lparr>bb_schema = [(''id'', DInt32), (''born'', DDate32)], bb_names = [''id'', ''born''],
       bb_columns = [CbInt32 (DInt32, [Some (VInt 1), None]), CbDate (DDate32, [None, Some (VInt 1)])],
       bb_rows = 2, bb_bytes = 19, bb_max_rows = 10, bb_max_bytes = 100, bb_substitutions = [0, 1]\<rparr> = Some (Inr (Some r), bb')"
proof -
  have "sample_columns \<noteq> []" by (simp add: sample_columns_def)
  from batch_is_the_rows[OF list_arrow.arrow_api_axioms this sample_rows] show ?thesis by auto
qed

lemma append_ranges_cells:
  "list_all (range_ok scratch) rgs \<Longrightarrow>
     append_ranges A scratch ns cbs ks rgs = Some (append_cells A ns cbs ks (map (cell scratch) rgs))"
proof (induction A scratch ns cbs ks rgs rule: append_ranges.induct)
  case (1 A scratch n ns cb cbs k ks rg rgs)
  then show ?case by (cases "col_append A n cb (cell scratch rg)") auto
qed auto

lemma cell_len_range: "range_ok scratch rg \<Longrightarrow> cell_len (cell scratch rg) = range_len rg"
  by (auto simp: range_ok_def cell_len_def cell_def range_len_def split: option.splits)

lemma decode_row_in_scratch: "decode_row r n lim = Inr (scratch, rgs) \<Longrightarrow> list_all (range_ok scratch) rgs"
proof -
  assume "decode_row r n lim = Inr (scratch, rgs)"
  then obtain vs where vs: "scratch = concat (map cell_bytes vs)" "rgs = ranges 0 vs"
    by (auto simp: decode_row_eq)
  have "range_ok scratch rg" if "rg \<in> set rgs" for rg
    using ranges_bounded[of rg 0 vs] that vs by (cases rg) (auto simp: range_ok_def)
  then show ?thesis by (simp add: list_all_iff)
qed

lemma append_row_ranges_eq:
  assumes "decode_row r n lim = Inr (scratch, rgs)"
  shows "append_row_ranges A scratch rgs bb = Some (append_row A (map (cell scratch) rgs) bb)"
proof -
  have "list_all (range_ok scratch) rgs"
    by (rule decode_row_in_scratch[OF assms])
  moreover from this have "sum_list (map range_len rgs) = sum_list (map cell_len (map (cell scratch) rgs))"
    by (intro arg_cong[where f = sum_list]) (simp add: list_all_iff cell_len_range)
  ultimately show ?thesis by (simp add: append_row_ranges_def append_row_def append_ranges_cells del: map_map)
qed

text \<open>
  The hot path and the plain one are the same: for the ranges \<open>decode_row\<close> produced over its buffer,
  \<open>append_row_ranges\<close> does not panic and does what \<open>append_row\<close> does on the decoded fields themselves.
\<close>

theorem append_row_ranges_is_append_row:
  assumes "decode_row r n lim = Inr (scratch, rgs)"
  shows "append_row_ranges A scratch rgs bb = Some (append_row A (map (cell scratch) rgs) bb)"
  by (rule append_row_ranges_eq[OF assms])

theorem append_row_ranges_is_append_row_witness:
  "append_row_ranges sample_arrow ''7'' [Some (0, 1), None] (new_batch_builder sample_arrow sample_columns 10 100 False False)
    = Some (append_row sample_arrow [Some ''7'', None] (new_batch_builder sample_arrow sample_columns 10 100 False False))"
proof -
  have "decode_row (CHR ''7'' # TAB # NULL_MARKER) 2 default_limits = Inr (''7'', [Some (0, 1), None])" by code_simp
  from append_row_ranges_is_append_row[OF this] show ?thesis by (simp add: cell_def)
qed

end
