(* ===== verification/Delta_Sink.thy ===== *)
theory Delta_Sink
  imports Pg_Types Arrow_Build Sql_Scan
begin

section \<open>Writing Delta tables\<close>

text \<open>
  \<open>src/sink.rs\<close>: the write modes, the refusal of managed storage, the mapping of a table name to a path,
  the comparison of two schemas, and the two phases, staging files and committing them. The crate
  deltalake is third-party: the record \<open>delta_ops\<close> of the calls the code makes on it is a parameter. \<open>'w\<close>
  is the storage world, \<open>'t\<close> a loaded table handle, \<open>'k\<close> a kernel data type, \<open>'x\<close> a file of a table, \<open>'m\<close>
  table metadata, \<open>'v\<close> a record-batch writer, \<open>'s\<close> a root object store and \<open>'r\<close> a record batch; a
  failing call answers with its message. Lemmas and the contract are in \<open>Sink_Laws\<close>.
\<close>

datatype write_mode = Overwrite | Append | ErrorIfExists

datatype save_mode = SaveOverwrite | SaveAppend | SaveErrorIfExists

fun save_mode_of :: "write_mode \<Rightarrow> save_mode" where
  "save_mode_of Overwrite = SaveOverwrite"
| "save_mode_of Append = SaveAppend"
| "save_mode_of ErrorIfExists = SaveErrorIfExists"

definition delta :: "bytes \<Rightarrow> error" where
  "delta message = DeltaError message"

text \<open>\<open>map_err(delta)\<close>.\<close>

definition delta_res :: "bytes + 'x \<Rightarrow> 'x res" where
  "delta_res r = (case r of Inl m \<Rightarrow> Inl (delta m) | Inr x \<Rightarrow> Inr x)"

subsection \<open>Locations\<close>

definition MANAGED_MARKERS :: "bytes list" where
  "MANAGED_MARKERS = [''__unitystorage'', ''/user/hive/warehouse'']"

fun contains_str :: "bytes \<Rightarrow> bytes \<Rightarrow> bool" where
  "contains_str [] needle \<longleftrightarrow> needle = []"
| "contains_str (c # s) needle \<longleftrightarrow> starts_with (c # s) needle \<or> contains_str s needle"

definition reject_managed_storage :: "bytes \<Rightarrow> unit res" where
  "reject_managed_storage uri =
     (case find (contains_str (map to_ascii_lower uri)) MANAGED_MARKERS of
        Some marker \<Rightarrow> Inl (ManagedTableTarget uri marker)
      | None \<Rightarrow> Inr ())"

text \<open>
  A character of a name, as its bytes. \<open>alnum\<close> is \<open>char::is_alphanumeric\<close> beyond ASCII, which reads the
  tables of the Unicode standard; the control characters are U+0000 to U+001F and U+007F to U+009F.
\<close>

definition is_alphanumeric :: "(bytes \<Rightarrow> bool) \<Rightarrow> bytes \<Rightarrow> bool" where
  "is_alphanumeric alnum c = (case c of [b] \<Rightarrow> is_ascii_alnum b | _ \<Rightarrow> alnum c)"

definition is_control :: "bytes \<Rightarrow> bool" where
  "is_control c =
     (case c of
        [b] \<Rightarrow> byte_val b < 32 \<or> byte_val b = 127
      | [a, b] \<Rightarrow> byte_val a = 194 \<and> 128 \<le> byte_val b \<and> byte_val b \<le> 159
      | _ \<Rightarrow> False)"

definition name_char :: "(bytes \<Rightarrow> bool) \<Rightarrow> bytes \<Rightarrow> bool" where
  "name_char alnum c \<longleftrightarrow> is_alphanumeric alnum c \<or> c = ''_'' \<or> c = ''-'' \<or> c = '' ''"

definition safe_component :: "(bytes \<Rightarrow> bool) \<Rightarrow> bytes \<Rightarrow> bool" where
  "safe_component alnum component \<longleftrightarrow>
     \<not> (component = [] \<or> 255 < length component)
     \<and> \<not> (starts_with component '' '' \<or> ends_with component '' '')
     \<and> list_all (name_char alnum) (chars component) \<and> \<not> list_ex is_control (chars component)"

definition name_parts :: "table_name \<Rightarrow> bytes list" where
  "name_parts name = (case tn_schema name of Some schema \<Rightarrow> [schema, tn_table name] | None \<Rightarrow> [tn_table name])"

definition relative_path :: "(bytes \<Rightarrow> bool) \<Rightarrow> table_name \<Rightarrow> bytes res" where
  "relative_path alnum name =
     (let parts = name_parts name
      in if \<not> list_all (safe_component alnum) parts then Inl (UnsafeTableName (qualified_name name))
         else if 512 < sum_list (map length parts) then Inl (UnsafeTableName (qualified_name name))
         else Inr (join_with (CHR ''/'') parts))"

definition table_uri :: "(bytes \<Rightarrow> bool) \<Rightarrow> bytes \<Rightarrow> table_name \<Rightarrow> bytes res" where
  "table_uri alnum prefix table =
     and_then (relative_path alnum table) (\<lambda>rel.
       Inr (drop_end (\<lambda>c. c = CHR ''/'') prefix @ CHR ''/'' # rel))"

subsection \<open>Schema drift\<close>

record schema_drift =
  dr_added :: "bytes list"
  dr_removed :: "bytes list"
  dr_retyped :: "(bytes \<times> bytes \<times> bytes) list"

definition no_drift :: schema_drift where
  "no_drift = \<lparr>dr_added = [], dr_removed = [], dr_retyped = []\<rparr>"

definition drift_is_empty :: "schema_drift \<Rightarrow> bool" where
  "drift_is_empty d \<longleftrightarrow> dr_added d = [] \<and> dr_removed d = [] \<and> dr_retyped d = []"

fun join_text :: "bytes \<Rightarrow> bytes list \<Rightarrow> bytes" where
  "join_text sep [] = []"
| "join_text sep [p] = p"
| "join_text sep (p # q # ps) = p @ sep @ join_text sep (q # ps)"

definition drift_summary :: "schema_drift \<Rightarrow> bytes" where
  "drift_summary d =
     (let parts = (if dr_added d \<noteq> [] then [''added '' @ join_text '', '' (dr_added d)] else [])
            @ (if dr_removed d \<noteq> [] then [''removed '' @ join_text '', '' (dr_removed d)] else [])
            @ map (\<lambda>(column, was, now). column @ '' changed from '' @ was @ '' to '' @ now) (dr_retyped d)
      in if parts = [] then ''no change'' else join_text ''; '' parts)"

text \<open>A kernel schema: the fields in order, with their types; \<open>shown\<close> prints a type.\<close>

type_synonym 'k struct_type = "(bytes \<times> 'k) list"

fun diff_incoming :: "('k \<Rightarrow> bytes) \<Rightarrow> 'k struct_type \<Rightarrow> 'k struct_type \<Rightarrow> schema_drift \<Rightarrow> schema_drift" where
  "diff_incoming shown current [] drift = drift"
| "diff_incoming shown current ((name, ty) # others) drift =
     diff_incoming shown current others
       (case find (\<lambda>f. fst f = name) current of
          None \<Rightarrow> drift\<lparr>dr_added := dr_added drift @ [name]\<rparr>
        | Some existing \<Rightarrow>
            if snd existing \<noteq> ty then drift\<lparr>dr_retyped := dr_retyped drift @ [(name, shown (snd existing), shown ty)]\<rparr>
            else drift)"

definition diff_schema :: "('k \<Rightarrow> bytes) \<Rightarrow> 'k struct_type \<Rightarrow> 'k struct_type \<Rightarrow> schema_drift" where
  "diff_schema shown current incoming =
     (let drift = diff_incoming shown current incoming no_drift
      in drift\<lparr>dr_removed := dr_removed drift
           @ map fst (filter (\<lambda>f. \<not> list_ex (\<lambda>g. fst g = fst f) incoming) current)\<rparr>)"

subsection \<open>The calls on deltalake\<close>

datatype ('x, 'm) action = Add 'x | Remove 'x | Metadata 'm

type_synonym options = "bytes \<rightharpoonup> bytes"
type_synonym arrow_schema = "(bytes \<times> data_type) list"

record ('w, 's, 't, 'k, 'x, 'm, 'v, 'r) delta_ops =
  dl_store :: "'w \<Rightarrow> bytes \<Rightarrow> options \<Rightarrow> (bytes + 's) \<times> 'w"
  dl_build :: "'w \<Rightarrow> bytes \<Rightarrow> options \<Rightarrow> 's \<Rightarrow> (bytes + 't) \<times> 'w"
  dl_load :: "'w \<Rightarrow> 't \<Rightarrow> bytes + 't"
  dl_schema :: "'t \<Rightarrow> bytes + 'k struct_type"
  dl_files :: "'w \<Rightarrow> 't \<Rightarrow> bytes + 'x list"
  dl_kernel :: "arrow_schema \<Rightarrow> bytes + 'k struct_type"
  dl_create :: "'w \<Rightarrow> 't \<Rightarrow> 'k struct_type \<Rightarrow> (bytes + 't) \<times> 'w"
  dl_metadata :: "'t \<Rightarrow> 'k struct_type \<Rightarrow> bytes + 'm"
  dl_commit :: "'w \<Rightarrow> 't \<Rightarrow> ('x, 'm) action list \<Rightarrow> save_mode \<Rightarrow> (bytes + nat) \<times> 'w"
  dl_writer :: "bytes \<Rightarrow> arrow_schema \<Rightarrow> options \<Rightarrow> bytes + 'v"
  dl_write :: "'w \<Rightarrow> 'v \<Rightarrow> 'r \<Rightarrow> (bytes + 'v) \<times> 'w"
  dl_flush :: "'w \<Rightarrow> 'v \<Rightarrow> (bytes + 'x list \<times> 'v) \<times> 'w"
  dl_num_rows :: "'r \<Rightarrow> nat"
  dl_shown :: "'k \<Rightarrow> bytes"

text \<open>A call that changes the world, with its error mapped, and what follows when it succeeds.\<close>

definition then_w :: "'x res \<times> 'w \<Rightarrow> ('x \<Rightarrow> 'w \<Rightarrow> 'y res \<times> 'w) \<Rightarrow> 'y res \<times> 'w" where
  "then_w r f = (case r of (Inl e, w) \<Rightarrow> (Inl e, w) | (Inr x, w) \<Rightarrow> f x w)"

definition delta_w :: "(bytes + 'x) \<times> 'w \<Rightarrow> 'x res \<times> 'w" where
  "delta_w r = (delta_res (fst r), snd r)"

text \<open>\<open>table.snapshot()\<close> fails for a table that is not loaded, which then has no files.\<close>

definition current_files ::
  "('w, 's, 't, 'k, 'x, 'm, 'v, 'r) delta_ops \<Rightarrow> 'w \<Rightarrow> 't \<Rightarrow> ('x, 'm) action list res" where
  "current_files D w table =
     (case dl_schema D table of
        Inl _ \<Rightarrow> Inr []
      | Inr _ \<Rightarrow> and_then (delta_res (dl_files D w table)) (\<lambda>files. Inr (map Remove files)))"

subsection \<open>Opening\<close>

record ('t, 'k) preloaded_table =
  pl_table :: 't
  pl_uri :: bytes
  pl_existing :: "'k struct_type option"

record 't opened_table =
  op_table :: 't
  op_uri :: bytes
  op_drift :: schema_drift

definition shared_store_resolve ::
  "('w, 's, 't, 'k, 'x, 'm, 'v, 'r) delta_ops \<Rightarrow> bytes \<Rightarrow> options \<Rightarrow> 'w \<Rightarrow> 's res \<times> 'w" where
  "shared_store_resolve D prefix storage_options w = delta_w (dl_store D w prefix storage_options)"

definition preload_table ::
  "('w, 's, 't, 'k, 'x, 'm, 'v, 'r) delta_ops \<Rightarrow> (bytes \<Rightarrow> bool) \<Rightarrow> bytes \<Rightarrow> table_name \<Rightarrow> 's \<Rightarrow> options \<Rightarrow> 'w
    \<Rightarrow> ('t, 'k) preloaded_table res \<times> 'w" where
  "preload_table D alnum prefix name shared_store storage_options w =
     (case table_uri alnum prefix name of
        Inl e \<Rightarrow> (Inl e, w)
      | Inr uri \<Rightarrow>
          then_w (delta_w (dl_build D w uri storage_options shared_store)) (\<lambda>table w.
            (case dl_load D w table of
               Inl _ \<Rightarrow> (Inr \<lparr>pl_table = table, pl_uri = uri, pl_existing = None\<rparr>, w)
             | Inr loaded \<Rightarrow>
                 (and_then (delta_res (dl_schema D loaded)) (\<lambda>schema.
                    Inr \<lparr>pl_table = loaded, pl_uri = uri, pl_existing = Some schema\<rparr>), w))))"

definition finish_open ::
  "('w, 's, 't, 'k, 'x, 'm, 'v, 'r) delta_ops \<Rightarrow> ('t, 'k) preloaded_table \<Rightarrow> table_name \<Rightarrow> arrow_schema \<Rightarrow> write_mode \<Rightarrow> 'w
    \<Rightarrow> 't opened_table res \<times> 'w" where
  "finish_open D preloaded name schema mode w =
     (case pl_existing preloaded of
        None \<Rightarrow>
          (case delta_res (dl_kernel D schema) of
             Inl e \<Rightarrow> (Inl e, w)
           | Inr columns \<Rightarrow>
               then_w (delta_w (dl_create D w (pl_table preloaded) columns)) (\<lambda>table w.
                 (Inr \<lparr>op_table = table, op_uri = pl_uri preloaded, op_drift = no_drift\<rparr>, w)))
      | Some current_schema \<Rightarrow>
          (and_then (if mode = ErrorIfExists then current_files D w (pl_table preloaded) else Inr []) (\<lambda>files.
             if files \<noteq> [] then Inl (TableExists (qualified_name name))
             else and_then (delta_res (dl_kernel D schema)) (\<lambda>incoming.
               let drift = diff_schema (dl_shown D) current_schema incoming
               in if \<not> drift_is_empty drift \<and> mode = Append
                  then Inl (SchemaChanged (qualified_name name) (drift_summary drift))
                  else Inr \<lparr>op_table = pl_table preloaded, op_uri = pl_uri preloaded, op_drift = drift\<rparr>)), w))"

definition open_table ::
  "('w, 's, 't, 'k, 'x, 'm, 'v, 'r) delta_ops \<Rightarrow> (bytes \<Rightarrow> bool) \<Rightarrow> bytes \<Rightarrow> table_name \<Rightarrow> arrow_schema \<Rightarrow> write_mode
    \<Rightarrow> options \<Rightarrow> 'w \<Rightarrow> 't opened_table res \<times> 'w" where
  "open_table D alnum prefix name schema mode storage_options w =
     then_w (shared_store_resolve D prefix storage_options w) (\<lambda>shared_store w.
     then_w (preload_table D alnum prefix name shared_store storage_options w) (\<lambda>preloaded w.
     finish_open D preloaded name schema mode w))"

subsection \<open>Committing\<close>

text \<open>The \<open>Metadata\<close> action, when a new schema is given and it is not the table's.\<close>

definition schema_action ::
  "('w, 's, 't, 'k, 'x, 'm, 'v, 'r) delta_ops \<Rightarrow> 't \<Rightarrow> arrow_schema option \<Rightarrow> ('x, 'm) action list res" where
  "schema_action D table new_schema =
     (case new_schema of
        None \<Rightarrow> Inr []
      | Some schema \<Rightarrow>
          and_then (delta_res (dl_kernel D schema)) (\<lambda>kernel.
          and_then (delta_res (dl_schema D table)) (\<lambda>current.
            if kernel \<noteq> current
            then and_then (delta_res (dl_metadata D table kernel)) (\<lambda>updated. Inr [Metadata updated])
            else Inr [])))"

definition commit_actions ::
  "('w, 's, 't, 'k, 'x, 'm, 'v, 'r) delta_ops \<Rightarrow> 'w \<Rightarrow> 't \<Rightarrow> ('x, 'm) action list \<Rightarrow> write_mode \<Rightarrow> arrow_schema option
    \<Rightarrow> ('x, 'm) action list res" where
  "commit_actions D w table staged mode new_schema =
     (if mode = Overwrite then
        and_then (current_files D w table) (\<lambda>files.
        and_then (schema_action D table new_schema) (\<lambda>metadata.
          Inr (staged @ files @ metadata)))
      else Inr staged)"

text \<open>The version, and the table reloaded to it.\<close>

definition commit_table ::
  "('w, 's, 't, 'k, 'x, 'm, 'v, 'r) delta_ops \<Rightarrow> 't \<Rightarrow> ('x, 'm) action list \<Rightarrow> write_mode \<Rightarrow> arrow_schema option \<Rightarrow> 'w
    \<Rightarrow> (nat \<times> 't) res \<times> 'w" where
  "commit_table D table staged mode new_schema w =
     (case commit_actions D w table staged mode new_schema of
        Inl e \<Rightarrow> (Inl e, w)
      | Inr actions \<Rightarrow>
          then_w (delta_w (dl_commit D w table actions (save_mode_of mode))) (\<lambda>version w.
            (and_then (delta_res (dl_load D w table)) (\<lambda>table. Inr (version, table)), w)))"

subsection \<open>Writers and sinks\<close>

record 'v table_writer =
  tw_writer :: 'v
  tw_rows :: nat

definition new_table_writer ::
  "('w, 's, 't, 'k, 'x, 'm, 'v, 'r) delta_ops \<Rightarrow> bytes \<Rightarrow> arrow_schema \<Rightarrow> options \<Rightarrow> 'v table_writer res" where
  "new_table_writer D uri schema storage_options =
     and_then (delta_res (dl_writer D uri schema storage_options)) (\<lambda>v. Inr \<lparr>tw_writer = v, tw_rows = 0\<rparr>)"

definition writer_write ::
  "('w, 's, 't, 'k, 'x, 'm, 'v, 'r) delta_ops \<Rightarrow> 'v table_writer \<Rightarrow> 'r \<Rightarrow> 'w \<Rightarrow> 'v table_writer res \<times> 'w" where
  "writer_write D tw batch w =
     then_w (delta_w (dl_write D w (tw_writer tw) batch)) (\<lambda>v w.
       (Inr \<lparr>tw_writer = v, tw_rows = tw_rows tw + dl_num_rows D batch\<rparr>, w))"

definition writer_stage ::
  "('w, 's, 't, 'k, 'x, 'm, 'v, 'r) delta_ops \<Rightarrow> 'v table_writer \<Rightarrow> 'w \<Rightarrow> (('x, 'm) action list \<times> 'v table_writer) res \<times> 'w" where
  "writer_stage D tw w =
     then_w (delta_w (dl_flush D w (tw_writer tw))) (\<lambda>(adds, v) w.
       (Inr (map Add adds, tw\<lparr>tw_writer := v\<rparr>), w))"

record ('t, 'x, 'm, 'v) table_sink =
  sk_name :: bytes
  sk_table :: 't
  sk_writer :: "'v table_writer"
  sk_mode :: write_mode
  sk_staged :: "('x, 'm) action list"
  sk_schema :: arrow_schema
  sk_drift :: schema_drift

definition sink_open ::
  "('w, 's, 't, 'k, 'x, 'm, 'v, 'r) delta_ops \<Rightarrow> (bytes \<Rightarrow> bool) \<Rightarrow> bytes \<Rightarrow> table_name \<Rightarrow> arrow_schema \<Rightarrow> write_mode
    \<Rightarrow> options \<Rightarrow> 'w \<Rightarrow> ('t, 'x, 'm, 'v) table_sink res \<times> 'w" where
  "sink_open D alnum prefix name schema mode storage_options w =
     then_w (open_table D alnum prefix name schema mode storage_options w) (\<lambda>opened w.
       (and_then (new_table_writer D (op_uri opened) schema storage_options) (\<lambda>writer.
          Inr \<lparr>sk_name = qualified_name name, sk_table = op_table opened, sk_writer = writer, sk_mode = mode,
                sk_staged = [], sk_schema = schema, sk_drift = op_drift opened\<rparr>), w))"

definition sink_write ::
  "('w, 's, 't, 'k, 'x, 'm, 'v, 'r) delta_ops \<Rightarrow> ('t, 'x, 'm, 'v) table_sink \<Rightarrow> 'r \<Rightarrow> 'w
    \<Rightarrow> ('t, 'x, 'm, 'v) table_sink res \<times> 'w" where
  "sink_write D sink batch w =
     then_w (writer_write D (sk_writer sink) batch w) (\<lambda>writer w. (Inr (sink\<lparr>sk_writer := writer\<rparr>), w))"

definition sink_stage ::
  "('w, 's, 't, 'k, 'x, 'm, 'v, 'r) delta_ops \<Rightarrow> ('t, 'x, 'm, 'v) table_sink \<Rightarrow> 'w
    \<Rightarrow> ('t, 'x, 'm, 'v) table_sink res \<times> 'w" where
  "sink_stage D sink w =
     then_w (writer_stage D (sk_writer sink) w) (\<lambda>(adds, writer) w.
       (Inr (sink\<lparr>sk_writer := writer, sk_staged := sk_staged sink @ adds\<rparr>), w))"

definition sink_commit ::
  "('w, 's, 't, 'k, 'x, 'm, 'v, 'r) delta_ops \<Rightarrow> ('t, 'x, 'm, 'v) table_sink \<Rightarrow> 'w
    \<Rightarrow> nat res \<times> ('t, 'x, 'm, 'v) table_sink \<times> 'w" where
  "sink_commit D sink0 w0 =
     (let actions = sk_staged sink0; sink = sink0\<lparr>sk_staged := []\<rparr>
      in case commit_table D (sk_table sink) actions (sk_mode sink)
             (if \<not> drift_is_empty (sk_drift sink) then Some (sk_schema sink) else None) w0 of
           (Inl e, w) \<Rightarrow> (Inl e, sink, w)
         | (Inr (version, table), w) \<Rightarrow> (Inr version, sink\<lparr>sk_table := table\<rparr>, w))"

end
