(* ===== verification/Load_Report.thy ===== *)
theory Load_Report
  imports Delta_Sink
begin

section \<open>What a load is asked for and what it reports\<close>

text \<open>
  The data of \<open>src/pipeline.rs\<close> the caller sees: the settings with their defaults, the progress updates,
  and the report. Counters (\<open>u64\<close>, \<open>usize\<close>) are naturals.
\<close>

definition QUEUE_DEPTH :: nat where "QUEUE_DEPTH = 3"

definition DEFAULT_COMMIT_CONCURRENCY :: nat where "DEFAULT_COMMIT_CONCURRENCY = 16"

record load_config =
  lc_output_uri :: bytes
  lc_tables :: "bytes list option"
  lc_excluded_schemas :: "bytes list option"
  lc_wide_numeric_as_decimal :: bool
  lc_native_arrays :: bool
  lc_mode :: write_mode
  lc_batch_rows :: nat
  lc_batch_bytes :: nat
  lc_threads :: nat
  lc_commit_concurrency :: nat
  lc_storage_options :: options
  lc_expect_pg_major :: "nat option"
  lc_expect_tables :: "bytes list option"
  lc_limits :: limits
  lc_write_manifest :: bool

definition default_config :: load_config where
  "default_config =
     \<lparr>lc_output_uri = [], lc_tables = None, lc_excluded_schemas = None, lc_wide_numeric_as_decimal = False,
      lc_native_arrays = False, lc_mode = Overwrite, lc_batch_rows = 100000, lc_batch_bytes = 128 * 2 ^ 20,
      lc_threads = 0, lc_commit_concurrency = 0, lc_storage_options = Map.empty, lc_expect_pg_major = None,
      lc_expect_tables = None, lc_limits = default_limits, lc_write_manifest = True\<rparr>"

record progress =
  pg_bytes_read :: nat
  pg_rows :: nat
  pg_tables_done :: nat
  pg_table :: "bytes option"

record table_stats =
  ts_table :: bytes
  ts_schema_drift :: schema_drift
  ts_rows :: nat
  ts_batches :: nat
  ts_delta_version :: nat
  ts_null_substitutions :: "(bytes \<times> nat) list"
  ts_text_fallback_columns :: "(bytes \<times> bytes) list"

record load_report =
  lr_dumped_by :: nat
  lr_from_database :: "nat option"
  lr_compression :: bytes
  lr_bytes_read :: nat
  lr_total_rows :: nat
  lr_tables :: "table_stats list"
  lr_missing_tables :: "bytes list"
  lr_unexpected_tables :: "bytes list"
  lr_load_id :: "bytes option"

end
