(* ===== verification/Sink_Laws.thy ===== *)
theory Sink_Laws
  imports Delta_Sink "HOL-Library.Multiset"
begin

section \<open>What the sink promises\<close>

text \<open>
  A table's path stays inside the output prefix and two tables never share one; the schema comparison
  finds every change but a change of order; staging makes nothing visible; a commit publishes exactly
  the staged files in one version. The last two rest on the contract of deltalake, the locale
  \<open>delta_lake\<close>, which holds of a lake kept in memory.
\<close>

subsection \<open>Characters of a name\<close>

lemma matching_run_high:
  "(\<And>P c. P \<in> set Ps \<Longrightarrow> P c \<Longrightarrow> 128 \<le> byte_val c) \<Longrightarrow> x \<in> set (take (matching_run Ps r) r) \<Longrightarrow> 128 \<le> byte_val x"
  by (induction Ps r rule: matching_run.induct) (auto split: if_splits)

lemma utf8_tail_high:
  assumes "utf8_tail b = Some Ps"
  shows "P \<in> set Ps \<Longrightarrow> P c \<Longrightarrow> 128 \<le> byte_val c" "Ps \<noteq> [] \<Longrightarrow> 128 \<le> b"
proof -
  assume "P \<in> set Ps" "P c"
  then show "128 \<le> byte_val c"
    using assms by (auto simp: utf8_tail_def utf8_cont_def byte_within_def split: if_splits)
next
  assume "Ps \<noteq> []"
  then show "128 \<le> b" using assms by (auto simp: utf8_tail_def split: if_splits)
qed

lemma utf8_head_high:
  assumes "utf8_head (b # r) = Inr n \<or> utf8_head (b # r) = Inl n" "2 \<le> n" "x \<in> set (take n (b # r))"
  shows "128 \<le> byte_val x"
proof -
  obtain Ps where Ps: "utf8_tail (byte_val b) = Some Ps" "n = Suc (matching_run Ps r)"
    using assms(1,2) by (auto simp: utf8_head.simps(2) split: option.splits if_splits)
  have "Ps \<noteq> []" using Ps(2) assms(2) by (cases Ps) auto
  then have "128 \<le> byte_val b" using utf8_tail_high(2)[OF Ps(1)] by simp
  moreover have "128 \<le> byte_val x" if "x \<in> set (take (matching_run Ps r) r)"
    using matching_run_high[OF utf8_tail_high(1)[OF Ps(1)] that] .
  ultimately show ?thesis using assms(3) Ps(2) by auto
qed

lemma ascii_is_char: "c \<in> set s \<Longrightarrow> is_ascii_byte c \<Longrightarrow> [c] \<in> set (chars s)"
proof (induction s rule: chars.induct)
  case (2 b s)
  define n where "n = (case utf8_head (b # s) of Inr n \<Rightarrow> n | Inl n \<Rightarrow> n)"
  have h: "utf8_head (b # s) = Inr n \<or> utf8_head (b # s) = Inl n" by (auto simp: n_def split: sum.splits)
  then have n: "0 < n" using utf8_head_Inr utf8_head_Inl by blast
  have e: "chars (b # s) = take n (b # s) # chars (drop n (b # s))" by (simp add: n_def Let_def)
  have "c \<in> set (take n (b # s)) \<or> c \<in> set (drop n (b # s))"
    using "2.prems"(1) append_take_drop_id[of n "b # s"] by (metis Un_iff set_append)
  then show ?case
  proof
    assume c: "c \<in> set (take n (b # s))"
    then have "\<not> 2 \<le> n" using utf8_head_high[OF h] "2.prems"(2) by (force simp: is_ascii_byte_def)
    then have "n = 1" using n by simp
    then show ?thesis using c e by simp
  next
    assume "c \<in> set (drop n (b # s))"
    then show ?thesis using "2.IH"[OF n_def] "2.prems"(2) e by simp
  qed
qed simp

lemma starts_with_one: "starts_with s [c] \<longleftrightarrow> s \<noteq> [] \<and> hd s = c"
  by (cases s) (simp_all add: starts_with_def)

lemma ends_with_one: "ends_with s [c] \<longleftrightarrow> s \<noteq> [] \<and> last s = c"
  by (cases s rule: rev_cases) (simp_all add: ends_with_def)

lemma safe_component_bytes:
  assumes "safe_component alnum s"
  shows "s \<noteq> []" "length s \<le> 255" "hd s \<noteq> CHR '' ''" "last s \<noteq> CHR '' ''"
    "c \<in> set s \<Longrightarrow> is_ascii_byte c \<Longrightarrow> is_ascii_alnum c \<or> c \<in> {CHR ''_'', CHR ''-'', CHR '' ''}"
proof -
  show s: "s \<noteq> []" "length s \<le> 255" using assms by (auto simp: safe_component_def)
  show "hd s \<noteq> CHR '' ''" "last s \<noteq> CHR '' ''"
    using assms s(1) by (auto simp: safe_component_def starts_with_one ends_with_one)
  assume "c \<in> set s" "is_ascii_byte c"
  then have "name_char alnum [c]" using ascii_is_char assms by (auto simp: safe_component_def list_all_iff)
  then show "is_ascii_alnum c \<or> c \<in> {CHR ''_'', CHR ''-'', CHR '' ''}"
    by (auto simp: name_char_def is_alphanumeric_def)
qed

lemma safe_component_no_slash: "safe_component alnum s \<Longrightarrow> CHR ''/'' \<notin> set s"
  using safe_component_bytes(5)[of alnum s "CHR ''/''"] by (auto simp: byte_defs)

lemma relative_path_cases:
  assumes "relative_path alnum name = r"
  shows "(\<exists>p. r = Inr p \<and> p = join_with (CHR ''/'') (name_parts name) \<and> (\<forall>s \<in> set (name_parts name). safe_component alnum s)
      \<and> sum_list (map length (name_parts name)) \<le> 512)
    \<or> r = Inl (UnsafeTableName (qualified_name name))"
  using assms by (auto simp: relative_path_def Let_def list_all_iff not_less split: if_splits)

lemma name_parts_ne: "name_parts name \<noteq> []" "length (name_parts name) \<le> 2"
  by (simp_all add: name_parts_def split: option.split)

lemma split_path:
  assumes "relative_path alnum name = Inr p"
  shows "split_on (CHR ''/'') p = name_parts name"
  using relative_path_cases[OF assms] name_parts_ne(1)
  by (auto intro!: split_join dest: safe_component_no_slash)

lemma name_parts_inj: "name_parts a = name_parts b \<Longrightarrow> a = b"
  by (cases a; cases b) (auto simp: name_parts_def split: option.splits)

subsection \<open>The comparison of schemas\<close>

lemma diff_incoming_eq:
  "diff_incoming shown current incoming d =
     d\<lparr>dr_added := dr_added d @ filter (\<lambda>n. find (\<lambda>f. fst f = n) current = None) (map fst incoming),
       dr_retyped := dr_retyped d @ concat (map (\<lambda>(n, ty). case find (\<lambda>f. fst f = n) current of
          Some f \<Rightarrow> (if snd f \<noteq> ty then [(n, shown (snd f), shown ty)] else []) | None \<Rightarrow> []) incoming)\<rparr>"
  by (induction shown current incoming d rule: diff_incoming.induct) (auto split: option.split)

lemma find_fst: "find (\<lambda>f. fst f = n) xs = map_option (\<lambda>v. (n, v)) (map_of xs n)"
  by (induction xs) auto

lemma diff_schema_eq:
  "dr_added (diff_schema shown current incoming) = filter (\<lambda>n. map_of current n = None) (map fst incoming)"
  "dr_removed (diff_schema shown current incoming) = filter (\<lambda>n. map_of incoming n = None) (map fst current)"
  "dr_retyped (diff_schema shown current incoming) =
     concat (map (\<lambda>(n, ty). case map_of current n of
        Some u \<Rightarrow> (if u \<noteq> ty then [(n, shown u, shown ty)] else []) | None \<Rightarrow> []) incoming)"
proof -
  have ex: "list_ex (\<lambda>g. fst g = n) incoming \<longleftrightarrow> map_of incoming n \<noteq> None" for n
    by (auto simp: list_ex_iff map_of_eq_None_iff image_iff)
  show "dr_removed (diff_schema shown current incoming) = filter (\<lambda>n. map_of incoming n = None) (map fst current)"
    by (simp add: diff_schema_def diff_incoming_eq no_drift_def ex filter_map comp_def Let_def)
  show "dr_added (diff_schema shown current incoming) = filter (\<lambda>n. map_of current n = None) (map fst incoming)"
    "dr_retyped (diff_schema shown current incoming) =
     concat (map (\<lambda>(n, ty). case map_of current n of
        Some u \<Rightarrow> (if u \<noteq> ty then [(n, shown u, shown ty)] else []) | None \<Rightarrow> []) incoming)"
    by (auto simp: diff_schema_def diff_incoming_eq no_drift_def Let_def find_fst option.case_eq_if
        intro!: arg_cong[of _ _ concat])
qed

lemma drift_empty_iff:
  assumes "distinct (map fst current)" "distinct (map fst incoming)"
  shows "drift_is_empty (diff_schema shown current incoming) \<longleftrightarrow> set current = set incoming"
proof
  assume e: "drift_is_empty (diff_schema shown current incoming)"
  have "map_of current = map_of incoming"
  proof
    fix n
    show "map_of current n = map_of incoming n"
    proof (cases "map_of incoming n")
      case None
      then have "n \<notin> fst ` set current"
        using e by (auto simp: drift_is_empty_def diff_schema_eq filter_empty_conv map_of_eq_None_iff)
      then show ?thesis using None by (metis map_of_eq_None_iff)
    next
      case (Some ty)
      then have i: "(n, ty) \<in> set incoming" by (rule map_of_SomeD)
      then have "map_of current n \<noteq> None"
        using e by (force simp: drift_is_empty_def diff_schema_eq filter_empty_conv)
      then obtain u where "map_of current n = Some u" by blast
      moreover have "(\<lambda>(n, ty). case map_of current n of Some u \<Rightarrow> (if u \<noteq> ty then [(n, shown u, shown ty)] else [])
          | None \<Rightarrow> []) (n, ty) = []"
        using e i unfolding drift_is_empty_def diff_schema_eq concat_eq_Nil_conv set_map by blast
      then have "u = ty" using calculation by (simp split: if_splits)
      ultimately show ?thesis using Some by simp
    qed
  qed
  then show "set current = set incoming" using map_of_inject_set[OF assms] by simp
next
  assume e: "set current = set incoming"
  then have "map_of current = map_of incoming" using map_of_inject_set[OF assms] by simp
  then show "drift_is_empty (diff_schema shown current incoming)"
    using assms(2) e by (auto simp: drift_is_empty_def diff_schema_eq filter_empty_conv)
qed

text \<open>Two columns that change places are no drift, though the schemas differ.\<close>

lemma reordering_is_no_drift:
  "drift_is_empty (diff_schema shown [(''a'', t), (''b'', u)] [(''b'', u), (''a'', t)])"
  by (simp add: diff_schema_def no_drift_def drift_is_empty_def)

lemma diff_self: "distinct (map fst k) \<Longrightarrow> diff_schema shown k k = no_drift"
  using drift_empty_iff[of k k shown] by (cases "diff_schema shown k k") (simp add: drift_is_empty_def no_drift_def)

subsection \<open>The contract of deltalake\<close>

record ('k, 'x) table_view =
  tv_version :: nat
  tv_schema :: "'k struct_type"
  tv_files :: "'x set"

definition empty_view :: "'k struct_type \<Rightarrow> ('k, 'x) table_view" where
  "empty_view k = \<lparr>tv_version = 0, tv_schema = k, tv_files = {}\<rparr>"

text \<open>What a commit of some actions makes of a table.\<close>

fun last_metadata :: "('x, 'm) action list \<Rightarrow> 'm option" where
  "last_metadata [] = None"
| "last_metadata (Metadata m # acts) = (case last_metadata acts of None \<Rightarrow> Some m | Some n \<Rightarrow> Some n)"
| "last_metadata (_ # acts) = last_metadata acts"

lemma last_metadata_files: "last_metadata (map Add xs @ map Remove ys @ md) = last_metadata md"
  by (induction xs) (simp, induction ys, simp_all)+

definition applied :: "('m \<Rightarrow> 'k struct_type) \<Rightarrow> ('x, 'm) action list \<Rightarrow> ('k, 'x) table_view \<Rightarrow> ('k, 'x) table_view" where
  "applied schema_of acts v =
     \<lparr>tv_version = Suc (tv_version v),
      tv_schema = (case last_metadata acts of None \<Rightarrow> tv_schema v | Some m \<Rightarrow> schema_of m),
      tv_files = (tv_files v - {x. Remove x \<in> set acts}) \<union> {x. Add x \<in> set acts}\<rparr>"

text \<open>The rows of some files, and a sink fed a list of batches.\<close>

definition rows_in :: "('x \<Rightarrow> 'row multiset) \<Rightarrow> 'x set \<Rightarrow> 'row multiset" where
  "rows_in contents xs = (\<Sum>x \<in> xs. contents x)"

fun sink_writes :: "('w, 's, 't, 'k, 'x, 'm, 'v, 'r) delta_ops \<Rightarrow> ('t, 'x, 'm, 'v) table_sink \<Rightarrow> 'r list \<Rightarrow> 'w
    \<Rightarrow> ('t, 'x, 'm, 'v) table_sink res \<times> 'w" where
  "sink_writes D sk [] w = (Inr sk, w)"
| "sink_writes D sk (b # bs) w = then_w (sink_write D sk b w) (\<lambda>sk w. sink_writes D sk bs w)"

text \<open>
  \<open>seen w\<close> is what a reader of the world \<open>w\<close> sees: the tables by their location. A handle has a location,
  and the view it was loaded with. Writing and flushing files shows no reader anything; creating a table
  shows an empty one where there was none; a commit is atomic.
\<close>

locale delta_lake =
  fixes D :: "('w, 's, 't, 'k, 'x, 'm, 'v, 'r) delta_ops"
    and seen :: "'w \<Rightarrow> bytes \<Rightarrow> ('k, 'x) table_view option"
    and location :: "'t \<Rightarrow> bytes" and loaded :: "'t \<Rightarrow> ('k, 'x) table_view option"
    and schema_of :: "'m \<Rightarrow> 'k struct_type"
    and contents :: "'x \<Rightarrow> 'row multiset" and batch_rows :: "'r \<Rightarrow> 'row multiset" and buffered :: "'v \<Rightarrow> 'row multiset"
  assumes store_law: "seen (snd (dl_store D w p opts)) = seen w"
    and build_law: "dl_build D w uri opts st = (r, w') \<Longrightarrow>
          seen w' = seen w \<and> (\<forall>t. r = Inr t \<longrightarrow> location t = uri \<and> loaded t = None)"
    and load_law: "dl_load D w t = Inr t' \<Longrightarrow>
          location t' = location t \<and> loaded t' = seen w (location t) \<and> loaded t' \<noteq> None"
    and schema_law: "loaded t = Some v \<Longrightarrow> dl_schema D t = Inr (tv_schema v)"
    and files_law: "dl_files D w t = Inr xs \<Longrightarrow> loaded t = Some v \<Longrightarrow> set xs = tv_files v"
    and create_law: "dl_create D w t k = (cr, w') \<Longrightarrow>
          (case cr of
             Inl m \<Rightarrow> seen w' = seen w
           | Inr t' \<Rightarrow> seen w (location t) = None \<and> location t' = location t
               \<and> loaded t' = Some (empty_view k) \<and> seen w' = (seen w)(location t \<mapsto> empty_view k))"
    and kernel_law: "dl_kernel D a = Inr k \<Longrightarrow> distinct (map fst k)"
    and metadata_law: "dl_metadata D t k = Inr m \<Longrightarrow> schema_of m = k"
    and commit_law: "dl_commit D w t acts mode = (cm, w') \<Longrightarrow>
          (case cm of
             Inl m \<Rightarrow> seen w' = seen w
           | Inr n \<Rightarrow> (\<exists>v. seen w (location t) = Some v \<and> n = Suc (tv_version v)
               \<and> seen w' = (seen w)(location t \<mapsto> applied schema_of acts v)))"
    and view_law: "seen w u = Some v \<Longrightarrow> finite (tv_files v) \<and> distinct (map fst (tv_schema v))"
    and rows_law: "dl_num_rows D b = size (batch_rows b)"
    and writer_law: "dl_writer D uri a opts = Inr wr \<Longrightarrow> buffered wr = {#}"
    and write_law: "dl_write D w wr b = (wo, w') \<Longrightarrow>
          seen w' = seen w \<and> (\<forall>wr'. wo = Inr wr' \<longrightarrow> buffered wr' = buffered wr + batch_rows b)"
    and flush_law: "dl_flush D w wr = (fo, w') \<Longrightarrow> seen w' = seen w \<and> (\<forall>xs wr'. fo = Inr (xs, wr') \<longrightarrow>
          distinct xs \<and> sum_list (map contents xs) = buffered wr \<and> (\<forall>u v. seen w u = Some v \<longrightarrow> set xs \<inter> tv_files v = {}))"
begin

lemma delta_w_eq: "delta_w r = (q, w) \<longleftrightarrow> q = delta_res (fst r) \<and> w = snd r"
  by (auto simp: delta_w_def)

lemma delta_res_Inr: "delta_res r = Inr x \<longleftrightarrow> r = Inr x"
  by (cases r) (auto simp: delta_res_def)

lemma then_w_eq:
  "then_w r f = (q, w') \<longleftrightarrow> (\<exists>e. fst r = Inl e \<and> q = Inl e \<and> w' = snd r) \<or> (\<exists>x. fst r = Inr x \<and> f x (snd r) = (q, w'))"
  by (cases r; cases "fst r") (auto simp: then_w_def)

lemma then_w_InrE:
  assumes "then_w r f = (Inr y, w')"
  obtains x w1 where "r = (Inr x, w1)" "f x w1 = (Inr y, w')"
  using assms by (cases r; cases "fst r") (auto simp: then_w_def)

lemma resolve_seen: "shared_store_resolve D prefix opts w = (r, w') \<Longrightarrow> seen w' = seen w"
  by (auto simp: shared_store_resolve_def delta_w_eq store_law)

lemma preload_ok:
  assumes "preload_table D alnum prefix name s opts w = (r, w')"
  shows "seen w' = seen w \<and> (\<forall>p. r = Inr p \<longrightarrow> table_uri alnum prefix name = Inr (pl_uri p)
     \<and> location (pl_table p) = pl_uri p
     \<and> (case pl_existing p of None \<Rightarrow> True
        | Some k \<Rightarrow> \<exists>v. loaded (pl_table p) = Some v \<and> seen w (pl_uri p) = Some v \<and> tv_schema v = k))"
proof (cases "table_uri alnum prefix name")
  case (Inl e)
  then show ?thesis using assms by (auto simp: preload_table_def)
next
  case (Inr uri)
  obtain q w1 where b: "dl_build D w uri opts s = (q, w1)" by fastforce
  note law = build_law[OF b]
  show ?thesis
  proof (cases q)
    case (Inl m)
    then show ?thesis using assms Inr b law by (auto simp: preload_table_def delta_w_def then_w_def delta_res_def)
  next
    case q: (Inr t)
    show ?thesis
    proof (cases "dl_load D w1 t")
      case (Inl m)
      then show ?thesis using assms Inr b law q
        by (auto simp: preload_table_def delta_w_def then_w_def delta_res_def)
    next
      case l: (Inr t')
      have "location t' = uri" using load_law[OF l] law q by auto
      moreover obtain v where "loaded t' = Some v" "seen w uri = Some v"
        using load_law[OF l] law q by (cases "seen w uri") auto
      ultimately show ?thesis using assms Inr b law q l schema_law[of t' v]
        by (auto simp: preload_table_def delta_w_def then_w_def delta_res_def)
    qed
  qed
qed

text \<open>What opening may show a reader: nothing, or an empty table where there was none.\<close>

lemma finish_open_seen:
  assumes "finish_open D p name schema mode w = (r, w')"
  shows "(case pl_existing p of
      Some k \<Rightarrow> seen w' = seen w
    | None \<Rightarrow> seen w' = seen w \<or> (\<exists>k. seen w (location (pl_table p)) = None \<and> dl_kernel D schema = Inr k
        \<and> seen w' = (seen w)(location (pl_table p) \<mapsto> empty_view k)))"
proof (cases "pl_existing p")
  case None
  show ?thesis
  proof (cases "dl_kernel D schema")
    case (Inr k)
    obtain q w1 where c: "dl_create D w (pl_table p) k = (q, w1)" by fastforce
    have "w' = w1"
      using assms None Inr c by (cases q) (auto simp: finish_open_def delta_w_def then_w_def delta_res_def)
    then show ?thesis using create_law[OF c] None Inr by (cases q) auto
  qed (use assms None in \<open>simp add: finish_open_def delta_res_def\<close>)
qed (use assms in \<open>simp add: finish_open_def\<close>)

lemma finish_open_ok:
  assumes "finish_open D p name schema mode w = (Inr o', w')"
    and "location (pl_table p) = pl_uri p"
    and "case pl_existing p of None \<Rightarrow> True
        | Some k \<Rightarrow> \<exists>v. loaded (pl_table p) = Some v \<and> seen w (pl_uri p) = Some v \<and> tv_schema v = k"
  shows "\<exists>v k. op_uri o' = pl_uri p \<and> location (op_table o') = pl_uri p \<and> loaded (op_table o') = Some v
    \<and> seen w' (pl_uri p) = Some v \<and> dl_kernel D schema = Inr k
    \<and> op_drift o' = diff_schema (dl_shown D) (tv_schema v) k
    \<and> (mode = Append \<longrightarrow> drift_is_empty (op_drift o')) \<and> (mode = ErrorIfExists \<longrightarrow> tv_files v = {})
    \<and> (seen w (pl_uri p) = Some v \<or> seen w (pl_uri p) = None \<and> v = empty_view k)
    \<and> (\<forall>u. u \<noteq> pl_uri p \<longrightarrow> seen w' u = seen w u)"
proof (cases "pl_existing p")
  case None
  obtain k where k: "dl_kernel D schema = Inr k"
    using assms(1) None by (cases "dl_kernel D schema") (auto simp: finish_open_def delta_res_def)
  obtain q w1 where c: "dl_create D w (pl_table p) k = (q, w1)" by fastforce
  obtain t where q: "q = Inr t" "w' = w1" "o' = \<lparr>op_table = t, op_uri = pl_uri p, op_drift = no_drift\<rparr>"
    using assms(1) None k c by (cases q) (auto simp: finish_open_def delta_w_def then_w_def delta_res_def)
  have "diff_schema (dl_shown D) k k = no_drift" using diff_self kernel_law[OF k] by blast
  then show ?thesis
    using create_law[OF c] q k assms(2) by (auto simp: empty_view_def no_drift_def drift_is_empty_def)
next
  case (Some cur)
  obtain v where v: "loaded (pl_table p) = Some v" "seen w (pl_uri p) = Some v" "tv_schema v = cur"
    using assms(3) Some by auto
  obtain fs k where r: "(if mode = ErrorIfExists then current_files D w (pl_table p) else Inr []) = Inr fs" "fs = []"
    "dl_kernel D schema = Inr k" "w' = w"
    "o' = \<lparr>op_table = pl_table p, op_uri = pl_uri p, op_drift = diff_schema (dl_shown D) cur k\<rparr>"
    "\<not> (\<not> drift_is_empty (diff_schema (dl_shown D) cur k) \<and> mode = Append)"
    using assms(1) Some by (auto simp: finish_open_def and_then_eq_Inr delta_res_Inr Let_def split: if_splits)
  have "tv_files v = {}" if m: "mode = ErrorIfExists"
  proof -
    obtain xs where "dl_files D w (pl_table p) = Inr xs" "map Remove xs = fs"
      using r(1) m schema_law[OF v(1)] by (auto simp: current_files_def and_then_eq_Inr delta_res_Inr)
    then show ?thesis using files_law[OF _ v(1)] r(2) by fastforce
  qed
  then show ?thesis using v r assms(2) by auto
qed

lemma commit_ok:
  assumes "commit_table D t (map Add xs) mode new_schema w = (Inr (n, t'), w')" "loaded t = Some v"
    "seen w (location t) = Some v"
  shows "\<exists>s. n = Suc (tv_version v)
    \<and> seen w' = (seen w)(location t \<mapsto> \<lparr>tv_version = n, tv_schema = s,
         tv_files = (if mode = Overwrite then {} else tv_files v) \<union> set xs\<rparr>)
    \<and> loaded t' = seen w' (location t)
    \<and> s = (case new_schema of Some a \<Rightarrow> if mode = Overwrite then (case dl_kernel D a of Inr k \<Rightarrow> k | Inl m \<Rightarrow> []) else tv_schema v
           | None \<Rightarrow> tv_schema v)"
proof -
  obtain acts where acts: "commit_actions D w t (map Add xs) mode new_schema = Inr acts"
    using assms(1) by (cases "commit_actions D w t (map Add xs) mode new_schema") (auto simp: commit_table_def)
  obtain q w1 where c: "dl_commit D w t acts (save_mode_of mode) = (q, w1)" by fastforce
  have step: "(case q of Inl m \<Rightarrow> (Inl (delta m), w1)
      | Inr version \<Rightarrow> (and_then (delta_res (dl_load D w1 t)) (\<lambda>table. Inr (version, table)), w1)) = (Inr (n, t'), w')"
    using assms(1) by (cases q) (auto simp: commit_table_def acts c delta_w_def then_w_def delta_res_def)
  have q: "q = Inr n" "dl_load D w' t = Inr t'" "w' = w1"
    using step by (cases q; cases "dl_load D w1 t"; auto simp: and_then_eq_Inr delta_res_def)+
  have law: "n = Suc (tv_version v)" "seen w' = (seen w)(location t \<mapsto> applied schema_of acts v)"
    using commit_law[OF c] q assms(3) by auto
  let ?s = "case new_schema of Some a \<Rightarrow> if mode = Overwrite then (case dl_kernel D a of Inr k \<Rightarrow> k | Inl m \<Rightarrow> []) else tv_schema v
           | None \<Rightarrow> tv_schema v"
  have "applied schema_of acts v = \<lparr>tv_version = n, tv_schema = ?s,
      tv_files = (if mode = Overwrite then {} else tv_files v) \<union> set xs\<rparr>"
  proof (cases "mode = Overwrite")
    case False
    then have "acts = map Add xs" using acts by (simp add: commit_actions_def)
    then have "last_metadata acts = None" "{x. Remove x \<in> set acts} = {}" "{x. Add x \<in> set acts} = set xs"
      using last_metadata_files[of xs "[]" "[]"] by auto
    then show ?thesis using False law(1) by (simp add: applied_def split: option.split)
  next
    case True
    obtain fs md where a: "current_files D w t = Inr fs" "schema_action D t new_schema = Inr md"
      "acts = map Add xs @ fs @ md"
      using acts True by (auto simp: commit_actions_def and_then_eq_Inr)
    obtain ys where ys: "dl_files D w t = Inr ys" "fs = map Remove ys"
      using a(1) schema_law[OF assms(2)] by (auto simp: current_files_def and_then_eq_Inr delta_res_Inr)
    have f: "set ys = tv_files v" using files_law[OF ys(1) assms(2)] .
    have md: "md = [] \<and> ?s = tv_schema v \<or> (\<exists>m. md = [Metadata m] \<and> schema_of m = ?s)"
      using a(2) True schema_law[OF assms(2)]
      by (auto simp: schema_action_def and_then_eq_Inr delta_res_Inr dest!: metadata_law split: option.splits if_splits)
    have "last_metadata acts = (case md of [Metadata m] \<Rightarrow> Some m | _ \<Rightarrow> None)"
      using md a(3) ys(2) last_metadata_files[of xs ys md] by auto
    then show ?thesis using True law(1) md a(3) ys(2) f by (auto simp: applied_def)
  qed
  moreover have "loaded t' = seen w' (location t)" using load_law[OF q(2)] by simp
  ultimately show ?thesis using law by auto
qed

subsection \<open>The life of a sink\<close>

lemma sink_open_ok:
  assumes "sink_open D alnum prefix name schema mode opts w = (Inr sk, w')"
  shows "\<exists>uri v k. table_uri alnum prefix name = Inr uri \<and> location (sk_table sk) = uri \<and> loaded (sk_table sk) = Some v
    \<and> seen w' uri = Some v \<and> dl_kernel D schema = Inr k \<and> sk_drift sk = diff_schema (dl_shown D) (tv_schema v) k
    \<and> (mode = Append \<longrightarrow> drift_is_empty (sk_drift sk)) \<and> (mode = ErrorIfExists \<longrightarrow> tv_files v = {})
    \<and> (seen w uri = Some v \<or> seen w uri = None \<and> v = empty_view k) \<and> (\<forall>u. u \<noteq> uri \<longrightarrow> seen w' u = seen w u)
    \<and> sk_mode sk = mode \<and> sk_schema sk = schema \<and> sk_staged sk = [] \<and> buffered (tw_writer (sk_writer sk)) = {#}
    \<and> tw_rows (sk_writer sk) = 0"
proof -
  obtain o' where o: "open_table D alnum prefix name schema mode opts w = (Inr o', w')"
    and n: "new_table_writer D (op_uri o') schema opts = Inr (sk_writer sk)"
    and sk: "sk_table sk = op_table o'" "sk_mode sk = mode" "sk_staged sk = []" "sk_schema sk = schema" "sk_drift sk = op_drift o'"
    using assms unfolding sink_open_def by (elim then_w_InrE) (auto simp: and_then_eq_Inr)
  have wr: "buffered (tw_writer (sk_writer sk)) = {#}" "tw_rows (sk_writer sk) = 0"
  proof -
    obtain x where x: "dl_writer D (op_uri o') schema opts = Inr x" "sk_writer sk = \<lparr>tw_writer = x, tw_rows = 0\<rparr>"
      using n by (fastforce simp: new_table_writer_def and_then_eq_Inr delta_res_Inr)
    then show "buffered (tw_writer (sk_writer sk)) = {#}" "tw_rows (sk_writer sk) = 0" by (simp_all add: writer_law[OF x(1)])
  qed
  obtain s w1 p w2 where st: "shared_store_resolve D prefix opts w = (Inr s, w1)"
    and p: "preload_table D alnum prefix name s opts w1 = (Inr p, w2)"
    and fo: "finish_open D p name schema mode w2 = (Inr o', w')"
    using o unfolding open_table_def by (elim then_w_InrE) blast
  have e: "seen w1 = seen w" using resolve_seen[OF st] .
  note pr = preload_ok[OF p]
  have c: "case pl_existing p of None \<Rightarrow> True
        | Some k \<Rightarrow> \<exists>v. loaded (pl_table p) = Some v \<and> seen w2 (pl_uri p) = Some v \<and> tv_schema v = k"
    using pr by (auto split: option.splits)
  show ?thesis using finish_open_ok[OF fo _ c] pr sk wr e by auto
qed

lemma sink_write_ok:
  assumes "sink_write D sk b w = (r, w')"
  shows "seen w' = seen w \<and> (\<forall>sk'. r = Inr sk' \<longrightarrow> (\<exists>tw. sk' = sk\<lparr>sk_writer := tw\<rparr>
     \<and> buffered (tw_writer tw) = buffered (tw_writer (sk_writer sk)) + batch_rows b
     \<and> tw_rows tw = tw_rows (sk_writer sk) + size (batch_rows b)))"
proof -
  obtain q w1 where q: "dl_write D w (tw_writer (sk_writer sk)) b = (q, w1)" by fastforce
  show ?thesis using assms write_law[OF q] q
    by (cases q) (auto simp: sink_write_def writer_write_def delta_w_def then_w_def delta_res_def rows_law)
qed

lemma sink_writes_ok:
  assumes "sink_writes D sk bs w = (r, w')"
  shows "seen w' = seen w \<and> (\<forall>sk'. r = Inr sk' \<longrightarrow> (\<exists>tw. sk' = sk\<lparr>sk_writer := tw\<rparr>
     \<and> buffered (tw_writer tw) = buffered (tw_writer (sk_writer sk)) + sum_list (map batch_rows bs)
     \<and> tw_rows tw = tw_rows (sk_writer sk) + size (sum_list (map batch_rows bs))))"
  using assms
proof (induction bs arbitrary: sk w)
  case Nil
  then have "r = Inr (sk\<lparr>sk_writer := sk_writer sk\<rparr>)" "w' = w" by auto
  then show ?case by (simp add: exI[of _ "sk_writer sk"])
next
  case (Cons b bs)
  obtain q w1 where q: "sink_write D sk b w = (q, w1)" by fastforce
  show ?case
  proof (cases q)
    case (Inl e)
    then show ?thesis using Cons.prems sink_write_ok[OF q] q by (auto simp: then_w_def)
  next
    case (Inr sk1)
    then have "sink_writes D sk1 bs w1 = (r, w')" using Cons.prems q by (simp add: then_w_def)
    from Cons.IH[OF this] show ?thesis using sink_write_ok[OF q] Inr by (auto simp: add.assoc)
  qed
qed

lemma sink_stage_ok:
  assumes "sink_stage D sk w = (r, w')"
  shows "seen w' = seen w \<and> (\<forall>sk'. r = Inr sk' \<longrightarrow> (\<exists>xs tw. sk' = sk\<lparr>sk_writer := tw, sk_staged := sk_staged sk @ map Add xs\<rparr>
     \<and> tw_rows tw = tw_rows (sk_writer sk) \<and> distinct xs
     \<and> sum_list (map contents xs) = buffered (tw_writer (sk_writer sk))
     \<and> (\<forall>u v. seen w u = Some v \<longrightarrow> set xs \<inter> tv_files v = {})))"
proof -
  obtain q w1 where q: "dl_flush D w (tw_writer (sk_writer sk)) = (q, w1)" by fastforce
  show ?thesis using assms flush_law[OF q] q
    by (cases q) (fastforce simp: sink_stage_def writer_stage_def delta_w_def then_w_def delta_res_def)+
qed

text \<open>A sink opened, fed, staged and committed, with what readers see after each step.\<close>

lemma sink_life:
  assumes o: "sink_open D alnum prefix name schema mode opts w = (Inr sk, w1)"
    and wr: "sink_writes D sk bs w1 = (Inr sk2, w2)" and st: "sink_stage D sk2 w2 = (Inr sk3, w3)"
    and cm: "sink_commit D sk3 w3 = (Inr n, sk4, w4)"
  shows "\<exists>uri old new k. table_uri alnum prefix name = Inr uri \<and> dl_kernel D schema = Inr k
    \<and> (seen w uri = Some old \<or> seen w uri = None \<and> old = empty_view k)
    \<and> (\<forall>u. u \<noteq> uri \<longrightarrow> seen w1 u = seen w u) \<and> seen w1 uri = Some old \<and> seen w3 = seen w1
    \<and> seen w4 = (seen w1)(uri \<mapsto> new) \<and> tv_version new = n \<and> n = Suc (tv_version old)
    \<and> rows_in contents (tv_files new) =
        (if mode = Overwrite then {#} else rows_in contents (tv_files old)) + sum_list (map batch_rows bs)
    \<and> (mode \<noteq> ErrorIfExists \<longrightarrow> set (tv_schema new) = set k) \<and> (mode = ErrorIfExists \<longrightarrow> tv_files old = {})
    \<and> tw_rows (sk_writer sk4) = size (sum_list (map batch_rows bs)) \<and> sk_staged sk4 = []"
proof -
  obtain uri v k where u: "table_uri alnum prefix name = Inr uri" "location (sk_table sk) = uri" "loaded (sk_table sk) = Some v"
    "seen w1 uri = Some v" "dl_kernel D schema = Inr k" "sk_drift sk = diff_schema (dl_shown D) (tv_schema v) k"
    "mode = Append \<longrightarrow> drift_is_empty (sk_drift sk)" "mode = ErrorIfExists \<longrightarrow> tv_files v = {}"
    "seen w uri = Some v \<or> seen w uri = None \<and> v = empty_view k" "\<forall>u. u \<noteq> uri \<longrightarrow> seen w1 u = seen w u"
    "sk_mode sk = mode" "sk_schema sk = schema" "sk_staged sk = []" "buffered (tw_writer (sk_writer sk)) = {#}"
    "tw_rows (sk_writer sk) = 0"
    using sink_open_ok[OF o] by blast
  obtain tw where tw: "sk2 = sk\<lparr>sk_writer := tw\<rparr>" "seen w2 = seen w1"
    "buffered (tw_writer tw) = sum_list (map batch_rows bs)" "tw_rows tw = size (sum_list (map batch_rows bs))"
    using sink_writes_ok[OF wr] u(14,15) by auto
  obtain xs tw' where xs: "sk3 = sk2\<lparr>sk_writer := tw', sk_staged := map Add xs\<rparr>" "seen w3 = seen w1" "tw_rows tw' = tw_rows tw"
    "distinct xs" "sum_list (map contents xs) = sum_list (map batch_rows bs)" "set xs \<inter> tv_files v = {}"
    using sink_stage_ok[OF st] tw u(4,13) by auto
  have fin: "finite (tv_files v)" "distinct (map fst (tv_schema v))" using view_law[OF u(4)] by auto
  let ?sch = "if \<not> drift_is_empty (sk_drift sk) then Some schema else None"
  obtain t' where ct: "commit_table D (sk_table sk) (map Add xs) mode ?sch w3 = (Inr (n, t'), w4)"
    and sk4: "sk4 = sk3\<lparr>sk_table := t', sk_staged := []\<rparr>"
  proof -
    have e: "sk_table sk3 = sk_table sk" "sk_staged sk3 = map Add xs" "sk_mode sk3 = mode" "sk_schema sk3 = schema"
      "sk_drift sk3 = sk_drift sk"
      using xs(1) tw(1) u(11,12) by simp_all
    have e': "sk3\<lparr>sk_table := t', sk_staged := []\<rparr> = sk3\<lparr>sk_staged := [], sk_table := t'\<rparr>" for t' by simp
    show ?thesis using cm e
      by (auto simp: sink_commit_def Let_def e' cong: if_cong split: prod.splits sum.splits intro: that)
  qed
  obtain s where s: "n = Suc (tv_version v)" "seen w4 = (seen w3)(uri \<mapsto> \<lparr>tv_version = n, tv_schema = s,
         tv_files = (if mode = Overwrite then {} else tv_files v) \<union> set xs\<rparr>)"
    "s = (case ?sch of Some a \<Rightarrow> if mode = Overwrite then (case dl_kernel D a of Inr k \<Rightarrow> k | Inl m \<Rightarrow> []) else tv_schema v
           | None \<Rightarrow> tv_schema v)"
    using commit_ok[OF ct u(3)] u(2,4) xs(2) by auto
  have "set s = set k" if "mode \<noteq> ErrorIfExists"
  proof (cases "drift_is_empty (sk_drift sk)")
    case True
    then show ?thesis using s(3) drift_empty_iff[OF fin(2) kernel_law[OF u(5)]] u(6) by simp
  next
    case False
    then show ?thesis using s(3) u(5,7) that by (cases mode) auto
  qed
  moreover have "rows_in contents ((if mode = Overwrite then {} else tv_files v) \<union> set xs) =
      (if mode = Overwrite then {#} else rows_in contents (tv_files v)) + sum_list (map batch_rows bs)"
    using fin(1) xs(4,5,6) by (auto simp: rows_in_def sum.union_disjoint sum_list_distinct_conv_sum_set Int_commute)
  ultimately show ?thesis
    using u(1,4,5,8,9,10) s(1,2) xs(1,2,3) tw(1,4) sk4
    by (intro exI[of _ uri] exI[of _ v] exI[of _ "\<lparr>tv_version = n, tv_schema = s,
         tv_files = (if mode = Overwrite then {} else tv_files v) \<union> set xs\<rparr>"] exI[of _ k]) simp
qed

lemma sink_open_seen:
  assumes "sink_open D alnum prefix name schema mode opts w = (r, w')"
  shows "seen w' u = seen w u \<or> table_uri alnum prefix name = Inr u \<and> seen w u = None
    \<and> (\<exists>k. dl_kernel D schema = Inr k \<and> seen w' u = Some (empty_view k))"
proof -
  obtain q w0 where q: "open_table D alnum prefix name schema mode opts w = (q, w0)" by fastforce
  have "w' = w0" using assms q by (cases q) (auto simp: sink_open_def then_w_def)
  obtain s w1 where s: "shared_store_resolve D prefix opts w = (s, w1)" by fastforce
  have e1: "seen w1 = seen w" using resolve_seen[OF s] .
  show ?thesis
  proof (cases s)
    case (Inl e)
    then show ?thesis using q s e1 \<open>w' = w0\<close> by (simp add: open_table_def then_w_def)
  next
    case (Inr st)
    obtain p w2 where p: "preload_table D alnum prefix name st opts w1 = (p, w2)" by fastforce
    note pr = preload_ok[OF p]
    show ?thesis
    proof (cases p)
      case (Inl e)
      then show ?thesis using q s Inr p pr e1 \<open>w' = w0\<close> by (simp add: open_table_def then_w_def)
    next
      case i: (Inr t)
      then have "finish_open D t name schema mode w2 = (q, w0)"
        using q s Inr p by (simp add: open_table_def then_w_def)
      from finish_open_seen[OF this] show ?thesis
        using pr i e1 \<open>w' = w0\<close> by (cases "u = pl_uri t") (auto split: option.splits)
    qed
  qed
qed

text \<open>A commit that answers with an error changed nothing, unless it is the reload after it that failed.\<close>

lemma sink_commit_error:
  assumes "sink_commit D sk w = (Inl e, sk', w')"
  shows "sk_staged sk' = [] \<and> (seen w' = seen w \<or> (\<exists>acts n m. dl_commit D w (sk_table sk) acts (save_mode_of (sk_mode sk)) = (Inr n, w')
    \<and> dl_load D w' (sk_table sk) = Inl m \<and> e = delta m))"
proof -
  define sch where "sch = (if \<not> drift_is_empty (sk_drift sk) then Some (sk_schema sk) else None)"
  have c: "commit_table D (sk_table sk) (sk_staged sk) (sk_mode sk) sch w = (Inl e, w')" and emptied: "sk_staged sk' = []"
    using assms by (auto simp: sink_commit_def sch_def Let_def cong: if_cong split: prod.splits sum.splits)
  show ?thesis
  proof (cases "commit_actions D w (sk_table sk) (sk_staged sk) (sk_mode sk) sch")
    case (Inl m)
    then show ?thesis using c emptied by (simp add: commit_table_def)
  next
    case (Inr acts)
    obtain q w1 where q: "dl_commit D w (sk_table sk) acts (save_mode_of (sk_mode sk)) = (q, w1)" by fastforce
    show ?thesis
    proof (cases q)
      case (Inl m)
      then show ?thesis using c Inr q emptied commit_law[OF q] by (simp add: commit_table_def delta_w_def then_w_def delta_res_def)
    next
      case n: (Inr n)
      then have w: "w1 = w'" "and_then (delta_res (dl_load D w1 (sk_table sk))) (\<lambda>table. Inr (n, table)) = Inl e"
        using c Inr q by (auto simp: commit_table_def delta_w_def then_w_def delta_res_def)
      obtain m where "dl_load D w1 (sk_table sk) = Inl m" "e = delta m"
        using w(2) by (cases "dl_load D w1 (sk_table sk)") (simp_all add: delta_res_def)
      then show ?thesis using q n w(1) emptied by blast
    qed
  qed
qed

end

end
