(* ===== verification/Sink_Props.thy ===== *)
theory Sink_Props
  imports Sink_Laws "HOL-Library.AList"
begin

section \<open>A lake in memory, and the properties of the sink\<close>

text \<open>
  A model of the contract \<open>delta_lake\<close>: tables kept in an association list, files carrying their rows, a
  commit refused when the handle is stale. The witnesses run the sink on it. The properties follow.
\<close>

record 'row mem_table =
  mt_version :: nat
  mt_schema :: "data_type struct_type"
  mt_files :: "(nat \<times> 'row list) list"

record 'row mem_lake =
  ml_tables :: "(bytes \<times> 'row mem_table) list"
  ml_next :: nat

type_synonym 'row mem_handle = "bytes \<times> 'row mem_table option"

definition mem_view :: "'row mem_table \<Rightarrow> (data_type, nat \<times> 'row list) table_view" where
  "mem_view t = \<lparr>tv_version = mt_version t, tv_schema = AList.clearjunk (mt_schema t), tv_files = set (mt_files t)\<rparr>"

definition mem_seen :: "'row mem_lake \<Rightarrow> bytes \<Rightarrow> (data_type, nat \<times> 'row list) table_view option" where
  "mem_seen w u = map_option mem_view (map_of (ml_tables w) u)"

definition mem_put :: "bytes \<Rightarrow> 'row mem_table \<Rightarrow> 'row mem_lake \<Rightarrow> 'row mem_lake" where
  "mem_put u t w = w\<lparr>ml_tables := (u, t) # ml_tables w\<rparr>"

definition mem_load :: "'row mem_lake \<Rightarrow> 'row mem_handle \<Rightarrow> bytes + 'row mem_handle" where
  "mem_load w h = (case map_of (ml_tables w) (fst h) of None \<Rightarrow> Inl ''no log'' | Some t \<Rightarrow> Inr (fst h, Some t))"

definition mem_create :: "'row mem_lake \<Rightarrow> 'row mem_handle \<Rightarrow> data_type struct_type \<Rightarrow> (bytes + 'row mem_handle) \<times> 'row mem_lake" where
  "mem_create w h k =
     (if map_of (ml_tables w) (fst h) = None \<and> distinct (map fst k) then
        (let t = \<lparr>mt_version = 0, mt_schema = k, mt_files = []\<rparr> in (Inr (fst h, Some t), mem_put (fst h) t w))
      else (Inl ''table exists'', w))"

definition mem_applied :: "(nat \<times> 'row list, data_type struct_type) action list \<Rightarrow> 'row mem_table \<Rightarrow> 'row mem_table" where
  "mem_applied acts t =
     \<lparr>mt_version = Suc (mt_version t),
      mt_schema = (case last_metadata acts of None \<Rightarrow> mt_schema t | Some m \<Rightarrow> m),
      mt_files = filter (\<lambda>x. Remove x \<notin> set acts) (mt_files t) @ concat (map (\<lambda>a. case a of Add x \<Rightarrow> [x] | _ \<Rightarrow> []) acts)\<rparr>"

definition mem_commit :: "'row mem_lake \<Rightarrow> 'row mem_handle \<Rightarrow> (nat \<times> 'row list, data_type struct_type) action list \<Rightarrow> save_mode
    \<Rightarrow> (bytes + nat) \<times> 'row mem_lake" where
  "mem_commit w h acts mode =
     (case map_of (ml_tables w) (fst h) of
        None \<Rightarrow> (Inl ''no log'', w)
      | Some t \<Rightarrow>
          if map_option mt_version (snd h) = Some (mt_version t)
          then (Inr (Suc (mt_version t)), mem_put (fst h) (mem_applied acts t) w)
          else (Inl ''commit conflict'', w))"

definition mem_fresh :: "'row mem_lake \<Rightarrow> nat" where
  "mem_fresh w = Suc (ml_next w + sum_list (concat (map (\<lambda>(_, t). map fst (mt_files t)) (ml_tables w))))"

definition mem_flush :: "'row mem_lake \<Rightarrow> bytes \<times> 'row list \<Rightarrow> (bytes + (nat \<times> 'row list) list \<times> bytes \<times> 'row list) \<times> 'row mem_lake" where
  "mem_flush w wr =
     (if snd wr = [] then (Inr ([], wr), w)
      else (Inr ([(mem_fresh w, snd wr)], fst wr, []), w\<lparr>ml_next := mem_fresh w\<rparr>))"

definition lake_ops :: "('r \<Rightarrow> 'row list) \<Rightarrow> ('row mem_lake, unit, 'row mem_handle, data_type, nat \<times> 'row list,
    data_type struct_type, bytes \<times> 'row list, 'r) delta_ops" where
  "lake_ops rows_of =
     \<lparr>dl_store = \<lambda>w _ _. (Inr (), w), dl_build = \<lambda>w uri _ _. (Inr (uri, None), w), dl_load = mem_load,
      dl_schema = \<lambda>h. case snd h of None \<Rightarrow> Inl ''not loaded'' | Some t \<Rightarrow> Inr (AList.clearjunk (mt_schema t)),
      dl_files = \<lambda>w h. case snd h of None \<Rightarrow> Inl ''not loaded'' | Some t \<Rightarrow> Inr (mt_files t),
      dl_kernel = \<lambda>a. if distinct (map fst a) then Inr a else Inl ''duplicate column'', dl_create = mem_create,
      dl_metadata = \<lambda>h k. if distinct (map fst k) then Inr k else Inl ''duplicate column'', dl_commit = mem_commit,
      dl_writer = \<lambda>uri _ _. Inr (uri, []), dl_write = \<lambda>w wr b. (Inr (fst wr, snd wr @ rows_of b), w), dl_flush = mem_flush,
      dl_num_rows = \<lambda>b. length (rows_of b), dl_shown = \<lambda>k. if k = DInt32 then ''integer'' else ''other''\<rparr>"

text \<open>The lake whose batches are lists of rows.\<close>

abbreviation mem_ops :: "(bytes mem_lake, unit, bytes mem_handle, data_type, nat \<times> bytes list, data_type struct_type,
    bytes \<times> bytes list, bytes list) delta_ops" where
  "mem_ops \<equiv> lake_ops (\<lambda>rows. rows)"

lemma mem_fresh_not_in:
  assumes "map_of (ml_tables w) u = Some t" "(i, rs) \<in> set (mt_files t)"
  shows "i \<noteq> mem_fresh w"
proof -
  have "i \<in> set (concat (map (\<lambda>(_, t). map fst (mt_files t)) (ml_tables w)))"
    using map_of_SomeD[OF assms(1)] assms(2) by force
  from member_le_sum_list[OF this] show ?thesis by (simp add: mem_fresh_def)
qed

lemma mem_applied_view: "mem_view (mem_applied acts t) = applied AList.clearjunk acts (mem_view t)"
  by (auto simp: mem_view_def mem_applied_def applied_def split: option.split action.splits)

lemma mem_view_version: "tv_version (mem_view t) = mt_version t"
  by (simp add: mem_view_def)

lemma mem_seen_put: "mem_seen (mem_put u t w) = (mem_seen w)(u \<mapsto> mem_view t)"
  by (auto simp: mem_seen_def mem_put_def)

interpretation mem: delta_lake "lake_ops rows_of" mem_seen fst "\<lambda>h. map_option mem_view (snd h)" AList.clearjunk
    "\<lambda>x. mset (snd x)" "\<lambda>b. mset (rows_of b)" "\<lambda>wr. mset (snd wr)" for rows_of
proof unfold_locales
  fix w and h :: "'b mem_handle" and k :: "data_type struct_type" and r w'
  assume "dl_create (lake_ops rows_of) w h k = (r, w')"
  then show "case r of Inl m \<Rightarrow> mem_seen w' = mem_seen w
    | Inr t' \<Rightarrow> mem_seen w (fst h) = None \<and> fst t' = fst h \<and> map_option mem_view (snd t') = Some (empty_view k)
        \<and> mem_seen w' = (mem_seen w)(fst h \<mapsto> empty_view k)"
    by (auto simp: lake_ops_def mem_create_def mem_seen_put Let_def mem_view_def empty_view_def 
        mem_seen_def[of w] split: if_splits)
next
  fix w and h :: "'b mem_handle" and acts mode r w'
  assume "dl_commit (lake_ops rows_of) w h acts mode = (r, w')"
  then show "case r of Inl m \<Rightarrow> mem_seen w' = mem_seen w
    | Inr n \<Rightarrow> \<exists>v. mem_seen w (fst h) = Some v \<and> n = Suc (tv_version v)
        \<and> mem_seen w' = (mem_seen w)(fst h \<mapsto> applied AList.clearjunk acts v)"
    by (auto simp: lake_ops_def mem_commit_def mem_seen_put mem_applied_view mem_seen_def[of w] mem_view_version
        split: option.splits if_splits)
next
  fix w wr fo w'
  assume "dl_flush (lake_ops rows_of) w wr = (fo, w')"
  then show "mem_seen w' = mem_seen w \<and> (\<forall>xs wr'. fo = Inr (xs, wr') \<longrightarrow> distinct xs
      \<and> sum_list (map (\<lambda>x. mset (snd x)) xs) = mset (snd wr)
      \<and> (\<forall>u v. mem_seen w u = Some v \<longrightarrow> set xs \<inter> tv_files v = {}))"
    using mem_fresh_not_in
    by (fastforce simp: lake_ops_def mem_flush_def mem_seen_def mem_view_def split: if_splits)
qed (auto simp: lake_ops_def mem_load_def mem_seen_def mem_view_def  AList.distinct_clearjunk
    split: option.splits if_splits)

subsection \<open>A run\<close>

text \<open>The steps of a load of two batches into the table \<open>public.t\<close> of a lake in memory.\<close>

definition demo_name :: table_name where
  "demo_name = \<lparr>tn_schema = Some ''public'', tn_table = ''t''\<rparr>"

definition demo_lake :: "nat list \<Rightarrow> bytes mem_lake" where
  "demo_lake files = \<lparr>ml_tables = [(''/lake/public/t'',
      \<lparr>mt_version = 4, mt_schema = [(''id'', DInt32)], mt_files = map (\<lambda>i. (i, [''old''])) files\<rparr>)], ml_next = 1\<rparr>"

definition demo_open where
  "demo_open mode w = sink_open mem_ops (\<lambda>_. False) ''/lake/'' demo_name [(''id'', DInt64)] mode Map.empty w"

definition demo_writes where
  "demo_writes mode w = sink_writes mem_ops (projr (fst (demo_open mode w))) [[''a''], [''b'', ''c'']] (snd (demo_open mode w))"

definition demo_stage where
  "demo_stage mode w = sink_stage mem_ops (projr (fst (demo_writes mode w))) (snd (demo_writes mode w))"

definition demo_commit where
  "demo_commit mode w = sink_commit mem_ops (projr (fst (demo_stage mode w))) (snd (demo_stage mode w))"

lemma Inr_pair: "\<not> isl (fst p) \<Longrightarrow> p = (Inr (projr (fst p)), snd p)"
  by (cases p; cases "fst p") auto

subsection \<open>Properties\<close>

text \<open>
  C21. A table name is a security boundary. An accepted name maps to one path component per identifier and
  no more: each is not empty and at most 255 bytes, neither begins nor ends with a space, and of the ASCII
  characters holds only letters, digits, \<open>_\<close>, \<open>-\<close> and space, so that no component is \<open>.\<close> or \<open>..\<close>; every
  other name is refused with \<open>UnsafeTableName\<close>, and two tables never share a location.
\<close>

theorem table_paths_are_safe:
  "case relative_path alnum name of
     Inl e \<Rightarrow> e = UnsafeTableName (qualified_name name)
   | Inr p \<Rightarrow> split_on (CHR ''/'') p = name_parts name
       \<and> list_all (\<lambda>s. s \<noteq> [] \<and> length s \<le> 255 \<and> hd s \<noteq> CHR '' '' \<and> last s \<noteq> CHR '' ''
           \<and> list_all (\<lambda>c. is_ascii_byte c \<longrightarrow> is_ascii_alnum c \<or> c \<in> {CHR ''_'', CHR ''-'', CHR '' ''}) s) (name_parts name)
       \<and> (\<forall>prefix other. table_uri alnum prefix other = table_uri alnum prefix name \<longrightarrow> other = name)"
proof (cases "relative_path alnum name")
  case (Inl e)
  then show ?thesis using relative_path_cases[of alnum name] by auto
next
  case (Inr p)
  have "\<forall>s \<in> set (name_parts name). safe_component alnum s" using relative_path_cases[OF Inr] by auto
  moreover have "other = name" if "table_uri alnum prefix other = table_uri alnum prefix name" for prefix other
  proof -
    have "relative_path alnum other = Inr p"
      using that Inr by (auto simp: table_uri_def and_then_eq_Inr)
    then show ?thesis using split_path Inr name_parts_inj by metis
  qed
  ultimately show ?thesis using Inr split_path[OF Inr] safe_component_bytes by (fastforce simp: list_all_iff)
qed

theorem table_paths_are_safe_witness:
  "case relative_path (\<lambda>_. False) \<lparr>tn_schema = Some ''public'', tn_table = ''users''\<rparr> of
     Inl e \<Rightarrow> False
   | Inr p \<Rightarrow> p = ''public/users'' \<and> split_on (CHR ''/'') p = [''public'', ''users'']
       \<and> (\<forall>prefix other. table_uri (\<lambda>_. False) prefix other = table_uri (\<lambda>_. False) prefix \<lparr>tn_schema = Some ''public'', tn_table = ''users''\<rparr>
            \<longrightarrow> other = \<lparr>tn_schema = Some ''public'', tn_table = ''users''\<rparr>)"
proof -
  have "relative_path (\<lambda>_. False) \<lparr>tn_schema = Some ''public'', tn_table = ''users''\<rparr> = Inr ''public/users''" by code_simp
  then show ?thesis
    using table_paths_are_safe[where alnum = "\<lambda>_. False" and name = "\<lparr>tn_schema = Some ''public'', tn_table = ''users''\<rparr>"]
    by (simp add: name_parts_def)
qed

text \<open>
  C22. The reported drift is exact: the columns only the dump has, in its order, those only the table has,
  and those of both whose type differs, with both types; it is empty just when the two schemas have the
  same columns, in whatever order.
\<close>

theorem schema_drift_is_exact:
  assumes "distinct (map fst current)" "distinct (map fst incoming)"
  shows "set (dr_added (diff_schema shown current incoming)) = fst ` set incoming - fst ` set current
    \<and> set (dr_removed (diff_schema shown current incoming)) = fst ` set current - fst ` set incoming
    \<and> set (dr_retyped (diff_schema shown current incoming)) =
           {(n, shown t, shown u) | n t u. (n, t) \<in> set current \<and> (n, u) \<in> set incoming \<and> t \<noteq> u}
    \<and> (drift_is_empty (diff_schema shown current incoming) \<longleftrightarrow> set current = set incoming)"
proof (intro conjI)
  show "drift_is_empty (diff_schema shown current incoming) \<longleftrightarrow> set current = set incoming"
    by (rule drift_empty_iff[OF assms])
  show "set (dr_added (diff_schema shown current incoming)) = fst ` set incoming - fst ` set current"
    "set (dr_removed (diff_schema shown current incoming)) = fst ` set current - fst ` set incoming"
    by (auto simp: diff_schema_eq map_of_eq_None_iff)
  show "set (dr_retyped (diff_schema shown current incoming)) =
           {(n, shown t, shown u) | n t u. (n, t) \<in> set current \<and> (n, u) \<in> set incoming \<and> t \<noteq> u}"
    using assms(1) by (fastforce simp: diff_schema_eq map_of_eq_Some_iff split: option.splits if_splits)
qed

theorem schema_drift_is_exact_witness:
  "set (dr_retyped (diff_schema (\<lambda>k. ''t'') [(''id'', DInt32), (''old'', DUtf8)] [(''id'', DInt64), (''new'', DUtf8)])) =
     {(n, ''t'', ''t'') | n t u. (n, t) \<in> set [(''id'', DInt32), (''old'', DUtf8)]
        \<and> (n, u) \<in> set [(''id'', DInt64), (''new'', DUtf8)] \<and> t \<noteq> u}"
  by (rule schema_drift_is_exact[THEN conjunct2, THEN conjunct2, THEN conjunct1]) simp_all

text \<open>
  C19. A load through a sink is atomic and exact. Opening shows readers at most an empty table where there
  was none, and refuses a table with data under \<open>ErrorIfExists\<close>; writing and staging show them nothing; the
  commit then publishes, in the next version of that table and in no other table, exactly the rows
  written, in place of the old ones under \<open>Overwrite\<close> and beside them under \<open>Append\<close>, and the table
  declares the columns of the dump. Under \<open>ErrorIfExists\<close> this last is not promised: an empty table keeps
  the schema it had.
\<close>

theorem sink_load_is_atomic:
  assumes "delta_lake D seen location loaded schema_of contents batch_rows buffered"
    and "sink_open D alnum prefix name schema mode opts w = (Inr sk, w1)"
    and "sink_writes D sk bs w1 = (Inr sk2, w2)" and "sink_stage D sk2 w2 = (Inr sk3, w3)"
    and "sink_commit D sk3 w3 = (Inr n, sk4, w4)"
  shows "\<exists>uri old new k. table_uri alnum prefix name = Inr uri \<and> dl_kernel D schema = Inr k
    \<and> (seen w uri = Some old \<or> seen w uri = None \<and> old = empty_view k)
    \<and> (\<forall>u. u \<noteq> uri \<longrightarrow> seen w1 u = seen w u) \<and> seen w1 uri = Some old \<and> seen w3 = seen w1
    \<and> seen w4 = (seen w1)(uri \<mapsto> new) \<and> tv_version new = n \<and> n = Suc (tv_version old)
    \<and> rows_in contents (tv_files new) =
        (if mode = Overwrite then {#} else rows_in contents (tv_files old)) + sum_list (map batch_rows bs)
    \<and> (mode \<noteq> ErrorIfExists \<longrightarrow> set (tv_schema new) = set k) \<and> (mode = ErrorIfExists \<longrightarrow> tv_files old = {})
    \<and> tw_rows (sk_writer sk4) = size (sum_list (map batch_rows bs)) \<and> sk_staged sk4 = []"
  using delta_lake.sink_life[OF assms] .

theorem sink_load_is_atomic_witness:
  "\<exists>new. mem_seen (snd (snd (demo_commit Overwrite (demo_lake [1])))) =
      (mem_seen (snd (demo_open Overwrite (demo_lake [1]))))(''/lake/public/t'' \<mapsto> new)
    \<and> rows_in (\<lambda>x. mset (snd x)) (tv_files new) = mset [''a'', ''b'', ''c''] \<and> set (tv_schema new) = {(''id'', DInt64)}"
proof -
  let ?w = "demo_lake [1]"
  have o: "\<not> isl (fst (demo_open Overwrite ?w))" by code_simp
  have wr: "\<not> isl (fst (demo_writes Overwrite ?w))" by code_simp
  have st: "\<not> isl (fst (demo_stage Overwrite ?w))" by code_simp
  have cm: "\<not> isl (fst (demo_commit Overwrite ?w))" by code_simp
  have u: "table_uri (\<lambda>_. False) ''/lake/'' demo_name = Inr ''/lake/public/t''" by code_simp
  have k: "dl_kernel mem_ops [(''id'', DInt64)] = Inr [(''id'', DInt64)]" by (simp add: lake_ops_def)
  have o_eq: "sink_open mem_ops (\<lambda>_. False) ''/lake/'' demo_name [(''id'', DInt64)] Overwrite Map.empty ?w =
      (Inr (projr (fst (demo_open Overwrite ?w))), snd (demo_open Overwrite ?w))"
    unfolding demo_open_def[symmetric] by (rule Inr_pair[OF o])
  have wr_eq: "sink_writes mem_ops (projr (fst (demo_open Overwrite ?w))) [[''a''], [''b'', ''c'']] (snd (demo_open Overwrite ?w)) =
      (Inr (projr (fst (demo_writes Overwrite ?w))), snd (demo_writes Overwrite ?w))"
    unfolding demo_writes_def[symmetric] by (rule Inr_pair[OF wr])
  have st_eq: "sink_stage mem_ops (projr (fst (demo_writes Overwrite ?w))) (snd (demo_writes Overwrite ?w)) =
      (Inr (projr (fst (demo_stage Overwrite ?w))), snd (demo_stage Overwrite ?w))"
    unfolding demo_stage_def[symmetric] by (rule Inr_pair[OF st])
  obtain n sk4 where c: "demo_commit Overwrite ?w = (Inr n, sk4, snd (snd (demo_commit Overwrite ?w)))"
    using Inr_pair[OF cm] by (metis prod.collapse)
  have c_eq: "sink_commit mem_ops (projr (fst (demo_stage Overwrite ?w))) (snd (demo_stage Overwrite ?w)) =
      (Inr n, sk4, snd (snd (demo_commit Overwrite ?w)))"
    unfolding demo_commit_def[symmetric] by (rule c)
  show ?thesis
    using sink_load_is_atomic[OF mem.delta_lake_axioms o_eq wr_eq st_eq c_eq] u k by auto
qed

text \<open>
  C20. What is not committed is not seen, errors included: whatever opening a table answers, readers see at
  most a new empty table at its location; whatever writing and staging answer, they see what they saw;
  and a commit that fails left every table as it was, unless the one thing that failed is reloading the
  table after its commit had succeeded; either way the sink holds no staged file any more.
\<close>

theorem uncommitted_is_invisible:
  assumes "delta_lake D seen location loaded schema_of contents batch_rows buffered"
  shows "(sink_open D alnum prefix name schema mode opts w = (r, w') \<longrightarrow>
      seen w' u = seen w u \<or> table_uri alnum prefix name = Inr u \<and> seen w u = None
        \<and> (\<exists>k. dl_kernel D schema = Inr k \<and> seen w' u = Some (empty_view k)))
    \<and> (sink_writes D sk bs w = (q, w') \<longrightarrow> seen w' = seen w)
    \<and> (sink_stage D sk w = (q, w') \<longrightarrow> seen w' = seen w)
    \<and> (sink_commit D sk w = (Inl e, sk', w') \<longrightarrow> sk_staged sk' = [] \<and> (seen w' = seen w
      \<or> (\<exists>acts n m. dl_commit D w (sk_table sk) acts (save_mode_of (sk_mode sk)) = (Inr n, w')
          \<and> dl_load D w' (sk_table sk) = Inl m \<and> e = delta m)))"
proof (intro conjI impI)
  assume "sink_open D alnum prefix name schema mode opts w = (r, w')"
  then show "seen w' u = seen w u \<or> table_uri alnum prefix name = Inr u \<and> seen w u = None
        \<and> (\<exists>k. dl_kernel D schema = Inr k \<and> seen w' u = Some (empty_view k))"
    by (rule delta_lake.sink_open_seen[OF assms])
next
  assume "sink_writes D sk bs w = (q, w')"
  then show "seen w' = seen w" using delta_lake.sink_writes_ok[OF assms] by blast
next
  assume "sink_stage D sk w = (q, w')"
  then show "seen w' = seen w" using delta_lake.sink_stage_ok[OF assms] by blast
next
  assume "sink_commit D sk w = (Inl e, sk', w')"
  from delta_lake.sink_commit_error[OF assms this] show "sk_staged sk' = []" by simp
next
  assume "sink_commit D sk w = (Inl e, sk', w')"
  from delta_lake.sink_commit_error[OF assms this] show "seen w' = seen w
      \<or> (\<exists>acts n m. dl_commit D w (sk_table sk) acts (save_mode_of (sk_mode sk)) = (Inr n, w')
          \<and> dl_load D w' (sk_table sk) = Inl m \<and> e = delta m)" by simp
qed

theorem uncommitted_is_invisible_witness:
  "mem_seen (snd (demo_stage Append (demo_lake [1]))) = mem_seen (snd (demo_writes Append (demo_lake [1])))
   \<and> mem_seen (snd (demo_writes Append (demo_lake [1]))) = mem_seen (snd (demo_open Append (demo_lake [1])))"
proof
  show "mem_seen (snd (demo_stage Append (demo_lake [1]))) = mem_seen (snd (demo_writes Append (demo_lake [1])))"
    using uncommitted_is_invisible[OF mem.delta_lake_axioms] unfolding demo_stage_def by (meson surjective_pairing)
  show "mem_seen (snd (demo_writes Append (demo_lake [1]))) = mem_seen (snd (demo_open Append (demo_lake [1])))"
    using uncommitted_is_invisible[OF mem.delta_lake_axioms] unfolding demo_writes_def by (meson surjective_pairing)
qed

text \<open>
  An existing empty table opened under \<open>ErrorIfExists\<close> with another schema: the load succeeds and the table
  keeps declaring the old type over files of the new one.
\<close>

lemma error_if_exists_keeps_a_stale_schema:
  "\<not> isl (fst (demo_commit ErrorIfExists (demo_lake []))) \<and>
   map_option mt_schema (map_of (ml_tables (snd (snd (demo_commit ErrorIfExists (demo_lake []))))) ''/lake/public/t'') = Some [(''id'', DInt32)]"
  by code_simp

end
