(* ===== verification/Load_History.thy ===== *)
theory Load_History
  imports Load_Report Sink_Props "HOL-Library.Char_ord" "HOL-Library.List_Lexorder"
begin

section \<open>The load history\<close>

text \<open>
  \<open>src/manifest.rs\<close>: the table \<open>_pgdelta_loads\<close> with one row per table and run. The clock is a parameter:
  microseconds since the epoch, negative before it. Arrow arrays made from vectors and
  \<open>RecordBatch::try_new\<close> are one parameter, \<open>mk_batch\<close>, which is given the fields and the columns of
  values; its contract is the locale \<open>record_batches\<close>.
\<close>

definition MANIFEST_NAME :: bytes where "MANIFEST_NAME = ''_pgdelta_loads''"

definition manifest_table :: table_name where
  "manifest_table = \<lparr>tn_schema = None, tn_table = MANIFEST_NAME\<rparr>"

definition reserved_collision :: "table_name \<Rightarrow> bool" where
  "reserved_collision table \<longleftrightarrow> tn_schema table = None \<and> tn_table table = MANIFEST_NAME"

text \<open>The fields: name, type, and whether NULL is allowed.\<close>

definition manifest_schema :: "(bytes \<times> data_type \<times> bool) list" where
  "manifest_schema =
     [(''load_id'', DUtf8, False), (''loaded_at'', DTimestamp True, False), (''table'', DUtf8, False),
      (''status'', DUtf8, False), (''expected'', DBoolean, False), (''delta_version'', DInt64, True),
      (''rows'', DInt64, True), (''batches'', DInt64, True), (''dumped_by'', DInt32, False),
      (''from_database'', DInt32, True), (''compression'', DUtf8, False), (''bytes_read'', DInt64, False),
      (''total_rows'', DInt64, False), (''schema_added'', DUtf8, False), (''schema_removed'', DUtf8, False),
      (''schema_retyped'', DUtf8, False), (''null_substitutions'', DUtf8, False),
      (''text_fallback_columns'', DUtf8, False)]"

definition now_micros :: "int \<Rightarrow> int" where
  "now_micros clock = (if clock < 0 then 0 else min clock I64_MAX)"

text \<open>\<open>format!("{at:020}")\<close> of a number that is not negative.\<close>

definition load_id :: "int \<Rightarrow> bytes" where
  "load_id at = (let s = nat_str (nat at) in replicate (20 - length s) (CHR ''0'') @ s)"

text \<open>\<open>i64::try_from(n).ok()\<close>, and \<open>i32::try_from(n).ok()\<close>.\<close>

definition to_i64 :: "nat \<Rightarrow> int option" where
  "to_i64 n = (if int n \<le> I64_MAX then Some (int n) else None)"

definition to_i32 :: "nat \<Rightarrow> int option" where
  "to_i32 n = (if int n \<le> 2147483647 then Some (int n) else None)"

definition retyped_text :: "schema_drift \<Rightarrow> bytes" where
  "retyped_text d = join_text '', '' (map (\<lambda>(column, was, now). column @ '': '' @ was @ '' -> '' @ now) (dr_retyped d))"

definition substitutions_text :: "table_stats \<Rightarrow> bytes" where
  "substitutions_text t = join_text '', '' (map (\<lambda>(column, n). column @ ''='' @ nat_str n) (ts_null_substitutions t))"

definition fallbacks_text :: "table_stats \<Rightarrow> bytes" where
  "fallbacks_text t = join_text '', '' (map (\<lambda>(column, declared). column @ '': '' @ declared) (ts_text_fallback_columns t))"

definition vtext :: "bytes \<Rightarrow> 'f arrow_value option" where "vtext s = Some (VBytes s)"

text \<open>The columns, first the loaded tables, then the missing ones.\<close>

definition manifest_columns :: "load_report \<Rightarrow> bytes \<Rightarrow> int \<Rightarrow> 'f arrow_value option list list" where
  "manifest_columns report lid at =
     (let loaded = lr_tables report; missing = lr_missing_tables report;
          n = length loaded + length missing;
          per_table = (\<lambda>f g. map f loaded @ map (\<lambda>_. g) missing)
      in [replicate n (vtext lid),
          replicate n (Some (VInt at)),
          map (\<lambda>t. vtext (ts_table t)) loaded @ map vtext missing,
          per_table (\<lambda>_. vtext ''loaded'') (vtext ''missing''),
          per_table (\<lambda>t. Some (VBool (ts_table t \<notin> set (lr_unexpected_tables report)))) (Some (VBool True)),
          per_table (\<lambda>t. map_option VInt (to_i64 (ts_delta_version t))) None,
          per_table (\<lambda>t. map_option VInt (to_i64 (ts_rows t))) None,
          per_table (\<lambda>t. map_option VInt (to_i64 (ts_batches t))) None,
          replicate n (Some (VInt (case to_i32 (lr_dumped_by report) of Some v \<Rightarrow> v | None \<Rightarrow> 0))),
          replicate n (map_option VInt (Option.bind (lr_from_database report) to_i32)),
          replicate n (vtext (lr_compression report)),
          replicate n (Some (VInt (case to_i64 (lr_bytes_read report) of Some v \<Rightarrow> v | None \<Rightarrow> I64_MAX))),
          replicate n (Some (VInt (case to_i64 (lr_total_rows report) of Some v \<Rightarrow> v | None \<Rightarrow> I64_MAX))),
          per_table (\<lambda>t. vtext (join_text '', '' (dr_added (ts_schema_drift t)))) (vtext []),
          per_table (\<lambda>t. vtext (join_text '', '' (dr_removed (ts_schema_drift t)))) (vtext []),
          per_table (\<lambda>t. vtext (retyped_text (ts_schema_drift t))) (vtext []),
          per_table (\<lambda>t. vtext (substitutions_text t)) (vtext []),
          per_table (\<lambda>t. vtext (fallbacks_text t)) (vtext [])])"

type_synonym ('f, 'r) make_batch = "(bytes \<times> data_type \<times> bool) list \<Rightarrow> 'f arrow_value option list list \<Rightarrow> bytes + 'r"

definition rows_for :: "('f, 'r) make_batch \<Rightarrow> load_report \<Rightarrow> bytes \<Rightarrow> int \<Rightarrow> 'r res" where
  "rows_for mk_batch report lid at =
     (case mk_batch manifest_schema (manifest_columns report lid at) of
        Inl m \<Rightarrow> Inl (ArrowError m)
      | Inr batch \<Rightarrow> Inr batch)"

text \<open>\<open>append\<close>; the sink is given the schema without the NULL flags, which no operation of it reads.\<close>

definition append_history ::
  "('w, 's, 't, 'k, 'x, 'm, 'v, 'r) delta_ops \<Rightarrow> (bytes \<Rightarrow> bool) \<Rightarrow> ('f, 'r) make_batch \<Rightarrow> ('w \<Rightarrow> int) \<Rightarrow> bytes \<Rightarrow> options
    \<Rightarrow> load_report \<Rightarrow> 'w \<Rightarrow> bytes res \<times> 'w" where
  "append_history D alnum mk_batch clock prefix storage_options report w =
     (let at = now_micros (clock w); lid = load_id at
      in case rows_for mk_batch report lid at of
           Inl e \<Rightarrow> (Inl e, w)
         | Inr batch \<Rightarrow>
             then_w (sink_open D alnum prefix manifest_table (map (\<lambda>(n, t, _). (n, t)) manifest_schema) Append storage_options w)
               (\<lambda>sink w.
             then_w (sink_write D sink batch w) (\<lambda>sink w.
             then_w (sink_stage D sink w) (\<lambda>sink w.
             then_w (case sink_commit D sink w of (r, _, w) \<Rightarrow> (r, w)) (\<lambda>_ w. (Inr lid, w))))))"

end
