(* ===== verification/History_Props.thy ===== *)
theory History_Props
  imports Load_History Value_Laws
begin

section \<open>What the load history records\<close>

text \<open>
  Load ids sort as the times they were made from, and an append publishes exactly one row per table of the
  report, in the one location no table of a dump can have.
\<close>

subsection \<open>Load ids\<close>

lemma nat_str_length: "0 < k \<Longrightarrow> n < 10 ^ k \<Longrightarrow> length (nat_str n) \<le> k"
proof (induction n arbitrary: k rule: nat_str.induct)
  case (1 n)
  show ?case
  proof (cases "n < 10")
    case True
    then show ?thesis using 1 by (simp add: nat_str.simps[of n])
  next
    case False
    then obtain j where j: "k = Suc j" "0 < j" using 1 by (cases k; cases "k - 1") auto
    have "n div 10 < 10 ^ j" using 1(3) j by (simp add: less_mult_imp_div_less mult.commute)
    then show ?thesis using 1(1)[OF False j(2)] False j(1) by (simp add: nat_str.simps[of n])
  qed
qed

lemma digits_val_zeros: "digits_val (replicate k (CHR ''0'') @ s) = digits_val s"
  by (induction k) (simp_all add: digits_val_Cons digit_val_def)

lemma char_less: "(a < b) = (byte_val a < byte_val b)"
  by (rule less_char_def)

lemma digit_less:
  assumes "is_ascii_digit a" "is_ascii_digit b"
  shows "a < b \<longleftrightarrow> digit_val a < digit_val b"
  using assms unfolding char_less digit_val_def is_ascii_digit_def by linarith

lemma digits_less:
  assumes "length xs = length ys" "list_all is_ascii_digit xs" "list_all is_ascii_digit ys"
  shows "xs < ys \<longleftrightarrow> digits_val xs < digits_val ys"
  using assms
proof (induction xs ys rule: list_induct2)
  case (Cons x xs y ys)
  let ?p = "10 ^ length ys :: nat"
  have b: "digits_val xs < ?p" "digits_val ys < ?p"
    using Cons digits_val_bound[of xs] digits_val_bound[of ys] by auto
  consider "digit_val x < digit_val y" | "digit_val x = digit_val y" | "digit_val y < digit_val x" by linarith
  then show ?case
  proof cases
    case 1
    then have "Suc (digit_val x) * ?p \<le> digit_val y * ?p" by (intro mult_right_mono) auto
    then have "digits_val (x # xs) < digits_val (y # ys)" using b Cons.hyps by (simp add: digits_val_Cons)
    then show ?thesis using 1 Cons.prems by (simp add: digit_less)
  next
    case 2
    then have "x = y" using Cons.prems digit_less[of x y] digit_less[of y x] by (metis linorder_neqE list.pred_inject(2) less_irrefl)
    then show ?thesis using Cons 2 by (simp add: digits_val_Cons)
  next
    case 3
    then have "Suc (digit_val y) * ?p \<le> digit_val x * ?p" by (intro mult_right_mono) auto
    then have "digits_val (y # ys) \<le> digits_val (x # xs)" using b Cons.hyps by (simp add: digits_val_Cons)
    moreover have "y < x" using 3 Cons.prems by (simp add: digit_less)
    ultimately show ?thesis by auto
  qed
qed simp

lemma load_id_digits:
  assumes "0 \<le> a" "a \<le> I64_MAX"
  shows "length (load_id a) = 20" "list_all is_ascii_digit (load_id a)" "digits_val (load_id a) = nat a"
proof -
  have "nat a < 10 ^ 20" using assms by (simp add: I64_MAX_def nat_less_iff)
  then have "length (nat_str (nat a)) \<le> 20" by (intro nat_str_length) auto
  then show "length (load_id a) = 20" by (simp add: load_id_def Let_def)
  show "list_all is_ascii_digit (load_id a)" "digits_val (load_id a) = nat a"
    using nat_str_digits[of _ "nat a"]
    by (auto simp: load_id_def Let_def list_all_iff digits_val_zeros is_ascii_digit_def byte_within_def)
qed

text \<open>
  C7. A load id is the time of the load in microseconds, written in 20 decimal digits, with zeros in front;
  so load ids sort as text in the order of the times they stand for, whatever the clock says: a time before
  the epoch counts as its beginning and one past 64 bits as the last.
\<close>

theorem load_ids_sort_by_time:
  "length (load_id (now_micros c)) = 20 \<and> list_all is_ascii_digit (load_id (now_micros c))
   \<and> int (digits_val (load_id (now_micros c))) = now_micros c
   \<and> now_micros c = min (max 0 c) I64_MAX
   \<and> (load_id (now_micros c) < load_id (now_micros d) \<longleftrightarrow> now_micros c < now_micros d)"
proof -
  have r: "0 \<le> now_micros c" "now_micros c \<le> I64_MAX" for c by (auto simp: now_micros_def I64_MAX_def)
  show ?thesis
    using load_id_digits[OF r, of c] load_id_digits[OF r, of d] r[of c] r[of d]
    by (auto simp: digits_less now_micros_def)
qed

subsection \<open>The rows appended\<close>

text \<open>The history of a load told by rows: one for every table it loaded, then one for every table that was missing.\<close>

definition loaded_row :: "load_report \<Rightarrow> bytes \<Rightarrow> int \<Rightarrow> table_stats \<Rightarrow> 'f arrow_value option list" where
  "loaded_row report lid at t =
     [vtext lid, Some (VInt at), vtext (ts_table t), vtext ''loaded'',
      Some (VBool (ts_table t \<notin> set (lr_unexpected_tables report))), map_option VInt (to_i64 (ts_delta_version t)),
      map_option VInt (to_i64 (ts_rows t)), map_option VInt (to_i64 (ts_batches t)),
      Some (VInt (case to_i32 (lr_dumped_by report) of Some v \<Rightarrow> v | None \<Rightarrow> 0)),
      map_option VInt (Option.bind (lr_from_database report) to_i32), vtext (lr_compression report),
      Some (VInt (case to_i64 (lr_bytes_read report) of Some v \<Rightarrow> v | None \<Rightarrow> I64_MAX)),
      Some (VInt (case to_i64 (lr_total_rows report) of Some v \<Rightarrow> v | None \<Rightarrow> I64_MAX)),
      vtext (join_text '', '' (dr_added (ts_schema_drift t))), vtext (join_text '', '' (dr_removed (ts_schema_drift t))),
      vtext (retyped_text (ts_schema_drift t)), vtext (substitutions_text t), vtext (fallbacks_text t)]"

definition missing_row :: "load_report \<Rightarrow> bytes \<Rightarrow> int \<Rightarrow> bytes \<Rightarrow> 'f arrow_value option list" where
  "missing_row report lid at name =
     [vtext lid, Some (VInt at), vtext name, vtext ''missing'', Some (VBool True), None, None, None,
      Some (VInt (case to_i32 (lr_dumped_by report) of Some v \<Rightarrow> v | None \<Rightarrow> 0)),
      map_option VInt (Option.bind (lr_from_database report) to_i32), vtext (lr_compression report),
      Some (VInt (case to_i64 (lr_bytes_read report) of Some v \<Rightarrow> v | None \<Rightarrow> I64_MAX)),
      Some (VInt (case to_i64 (lr_total_rows report) of Some v \<Rightarrow> v | None \<Rightarrow> I64_MAX)),
      vtext [], vtext [], vtext [], vtext [], vtext []]"

definition manifest_rows :: "load_report \<Rightarrow> bytes \<Rightarrow> int \<Rightarrow> 'f arrow_value option list list" where
  "manifest_rows report lid at =
     map (loaded_row report lid at) (lr_tables report) @ map (missing_row report lid at) (lr_missing_tables report)"

lemma manifest_columns_length:
  "c \<in> set (manifest_columns report lid at) \<Longrightarrow> length c = length (lr_tables report) + length (lr_missing_tables report)"
  by (auto simp: manifest_columns_def Let_def)

lemma manifest_columns_rows:
  assumes "k < length (lr_tables report) + length (lr_missing_tables report)"
  shows "map (\<lambda>c. c ! k) (manifest_columns report lid at) = manifest_rows report lid at ! k"
proof (cases "k < length (lr_tables report)")
  case True
  then show ?thesis by (simp add: manifest_columns_def manifest_rows_def loaded_row_def Let_def nth_append)
next
  case False
  then show ?thesis using assms
    by (simp add: manifest_columns_def manifest_rows_def missing_row_def Let_def nth_append)
qed

lemma manifest_columns_nonempty: "manifest_columns report lid at \<noteq> []"
  by (simp add: manifest_columns_def Let_def)

text \<open>
  \<open>RecordBatch::try_new\<close>: a batch made of columns of one length holds the rows across them; \<open>row_of\<close> is
  what a row of values is to the lake.
\<close>

locale record_batches =
  fixes make :: "('f, 'r) make_batch" and batch_rows :: "'r \<Rightarrow> 'e multiset"
    and row_of :: "'f arrow_value option list \<Rightarrow> 'e"
  assumes make_law: "make sch columns = Inr b \<Longrightarrow> columns \<noteq> [] \<Longrightarrow> list_all (\<lambda>c. length c = n) columns \<Longrightarrow>
    batch_rows b = mset (map (\<lambda>k. row_of (map (\<lambda>c. c ! k) columns)) [0..<n])"
begin

lemma history_rows:
  assumes "make manifest_schema (manifest_columns report lid at) = Inr b"
  shows "batch_rows b = mset (map row_of (manifest_rows report lid at))"
proof -
  let ?n = "length (lr_tables report) + length (lr_missing_tables report)"
  have "list_all (\<lambda>c. length c = ?n) (manifest_columns report lid at)"
    using manifest_columns_length by (auto simp: list_all_iff)
  note law = make_law[OF assms manifest_columns_nonempty this]
  have "length (manifest_rows report lid at :: 'f arrow_value option list list) = ?n" by (simp add: manifest_rows_def)
  then have "map (\<lambda>k. row_of (map (\<lambda>c. c ! k) (manifest_columns report lid at))) [0..<?n] = map row_of (manifest_rows report lid at)"
    by (intro nth_equalityI) (simp_all add: manifest_columns_rows)
  with law show ?thesis by (simp only:)
qed

end

context delta_lake
begin

lemma append_history_ok:
  assumes "append_history D alnum mk_batch clock prefix opts report w = (Inr lid, w')"
  shows "\<exists>batch uri old new k. lid = load_id (now_micros (clock w))
    \<and> mk_batch manifest_schema (manifest_columns report lid (now_micros (clock w))) = Inr batch
    \<and> table_uri alnum prefix manifest_table = Inr uri
    \<and> (seen w uri = Some old \<or> seen w uri = None \<and> old = empty_view k)
    \<and> seen w' = (seen w)(uri \<mapsto> new) \<and> rows_in contents (tv_files new) = rows_in contents (tv_files old) + batch_rows batch"
proof -
  let ?at = "now_micros (clock w)"
  obtain batch where b: "mk_batch manifest_schema (manifest_columns report (load_id ?at) ?at) = Inr batch"
    using assms by (cases "mk_batch manifest_schema (manifest_columns report (load_id ?at) ?at)")
      (auto simp: append_history_def rows_for_def Let_def)
  let ?sch = "map (\<lambda>(n, t, _). (n, t)) manifest_schema"
  have "then_w (sink_open D alnum prefix manifest_table ?sch Append opts w) (\<lambda>sink w.
             then_w (sink_write D sink batch w) (\<lambda>sink w.
             then_w (sink_stage D sink w) (\<lambda>sink w.
             then_w (case sink_commit D sink w of (r, _, w) \<Rightarrow> (r, w)) (\<lambda>_ w. (Inr (load_id ?at), w))))) = (Inr lid, w')"
    using assms b by (simp add: append_history_def rows_for_def Let_def)
  then obtain sk w1 sk2 w2 sk3 w3 n sk4 where s:
    "sink_open D alnum prefix manifest_table ?sch Append opts w = (Inr sk, w1)"
    "sink_write D sk batch w1 = (Inr sk2, w2)" "sink_stage D sk2 w2 = (Inr sk3, w3)"
    "sink_commit D sk3 w3 = (Inr n, sk4, w')" "lid = load_id ?at"
    by (elim then_w_InrE) (auto split: prod.splits)
  have wr: "sink_writes D sk [batch] w1 = (Inr sk2, w2)" using s(2) by (simp add: then_w_def)
  obtain uri old new k where l: "table_uri alnum prefix manifest_table = Inr uri"
    "seen w uri = Some old \<or> seen w uri = None \<and> old = empty_view k" "\<forall>u. u \<noteq> uri \<longrightarrow> seen w1 u = seen w u"
    "seen w' = (seen w1)(uri \<mapsto> new)"
    "rows_in contents (tv_files new) = rows_in contents (tv_files old) + batch_rows batch"
    using sink_life[OF s(1) wr s(3,4)] by auto
  have "seen w' = (seen w)(uri \<mapsto> new)" using l(3,4) by auto
  then show ?thesis using s(5) b l by blast
qed

end

text \<open>
  C6. A successful append adds to the history exactly one batch, and changes no other table: the batch has one
  row per loaded table and one per missing one, every column of that length, with the version each
  loaded table reached (\<open>manifest_rows\<close>, once a batch holds the rows of its columns); what the history
  held is kept; and no table of a dump can be at its location but one refused as reserved.
\<close>

theorem history_is_exact:
  assumes "delta_lake D seen location loaded schema_of contents batch_rows buffered"
    and "append_history D alnum mk_batch clock prefix opts report w = (Inr lid, w')"
  shows "\<exists>batch uri old new. lid = load_id (now_micros (clock w))
    \<and> mk_batch manifest_schema (manifest_columns report lid (now_micros (clock w))) = Inr batch
    \<and> list_all (\<lambda>c. length c = length (lr_tables report) + length (lr_missing_tables report))
        (manifest_columns report lid (now_micros (clock w)) :: 'f arrow_value option list list)
    \<and> table_uri alnum prefix manifest_table = Inr uri
    \<and> (seen w uri = Some old \<or> seen w uri = None \<and> tv_files old = {})
    \<and> seen w' = (seen w)(uri \<mapsto> new) \<and> rows_in contents (tv_files new) = rows_in contents (tv_files old) + batch_rows batch
    \<and> (record_batches mk_batch batch_rows row_of \<longrightarrow>
        batch_rows batch = mset (map row_of (manifest_rows report lid (now_micros (clock w)))))
    \<and> (\<forall>t. table_uri alnum prefix t = Inr uri \<longrightarrow> reserved_collision t)"
proof -
  obtain batch uri old new k where h: "lid = load_id (now_micros (clock w))"
    "mk_batch manifest_schema (manifest_columns report lid (now_micros (clock w))) = Inr batch"
    "table_uri alnum prefix manifest_table = Inr uri" "seen w uri = Some old \<or> seen w uri = None \<and> old = empty_view k"
    "seen w' = (seen w)(uri \<mapsto> new)" "rows_in contents (tv_files new) = rows_in contents (tv_files old) + batch_rows batch"
    using delta_lake.append_history_ok[OF assms] by blast
  have "reserved_collision t" if t: "table_uri alnum prefix t = Inr uri" for t
  proof -
    obtain p where "relative_path alnum manifest_table = Inr p" "relative_path alnum t = Inr p"
      using t h(3) by (auto simp: table_uri_def and_then_eq_Inr)
    then have "t = manifest_table" using split_path name_parts_inj by metis
    then show ?thesis by (simp add: reserved_collision_def manifest_table_def)
  qed
  moreover have "tv_files (empty_view k) = {}" by (simp add: empty_view_def)
  moreover have "batch_rows batch = mset (map row_of (manifest_rows report lid (now_micros (clock w))))"
    if "record_batches mk_batch batch_rows row_of"
    by (rule record_batches.history_rows[OF that h(2)])
  ultimately show ?thesis using h manifest_columns_length[of _ report lid "now_micros (clock w)"]
    by (auto simp: list_all_iff)
qed

text \<open>A run: one table loaded and one missing, recorded in an empty lake at microsecond 5.\<close>

definition demo_report :: load_report where
  "demo_report =
     \<lparr>lr_dumped_by = 17, lr_from_database = Some 17, lr_compression = ''gzip'', lr_bytes_read = 10, lr_total_rows = 3,
      lr_tables = [\<lparr>ts_table = ''public.t'', ts_schema_drift = no_drift, ts_rows = 3, ts_batches = 1, ts_delta_version = 1,
        ts_null_substitutions = [], ts_text_fallback_columns = []\<rparr>],
      lr_missing_tables = [''public.gone''], lr_unexpected_tables = [], lr_load_id = None\<rparr>"

definition name_value :: "unit arrow_value option \<Rightarrow> bytes" where
  "name_value v = (case v of Some (VBytes s) \<Rightarrow> s | _ \<Rightarrow> [])"

definition names_batch :: "(unit, bytes list) make_batch" where
  "names_batch sch columns =
     (if 2 < length columns \<and> list_all (\<lambda>c. length c = length (hd columns)) columns
      then Inr (map name_value (columns ! 2)) else Inl ''all columns in a record batch must have the same length'')"

interpretation names: record_batches names_batch mset "\<lambda>row. name_value (row ! 2)"
proof
  fix sch columns b n
  assume "names_batch sch columns = Inr b" "columns \<noteq> []" and n: "list_all (\<lambda>c. length c = n) columns"
  then have b: "2 < length columns" "b = map name_value (columns ! 2)" by (simp_all add: names_batch_def split: if_splits)
  have "b = map (\<lambda>k. name_value (map (\<lambda>c. c ! k) columns ! 2)) [0..<n]"
    by (rule nth_equalityI) (use b n in \<open>auto simp: list_all_iff\<close>)
  then show "mset b = mset (map (\<lambda>k. name_value (map (\<lambda>c. c ! k) columns ! 2)) [0..<n])" by (simp only:)
qed

definition demo_history :: "bytes res \<times> bytes mem_lake" where
  "demo_history = append_history mem_ops (\<lambda>_. False) names_batch (\<lambda>_. 5) ''/lake'' Map.empty demo_report \<lparr>ml_tables = [], ml_next = 0\<rparr>"

theorem history_is_exact_witness:
  "fst demo_history = Inr ''00000000000000000005'' \<and>
   (\<exists>new. mem_seen (snd demo_history) ''/lake/_pgdelta_loads'' = Some new
     \<and> rows_in (\<lambda>x. mset (snd x)) (tv_files new) = {#''public.t'', ''public.gone''#})"
proof -
  let ?id = "''00000000000000000005''"
  have f: "fst demo_history = Inr ?id" by code_simp
  have u: "table_uri (\<lambda>_. False) ''/lake'' manifest_table = Inr ''/lake/_pgdelta_loads''" by code_simp
  have b: "names_batch manifest_schema (manifest_columns demo_report ?id (now_micros 5)) = Inr [''public.t'', ''public.gone'']"
    by code_simp
  have "append_history mem_ops (\<lambda>_. False) names_batch (\<lambda>_. 5) ''/lake'' Map.empty demo_report \<lparr>ml_tables = [], ml_next = 0\<rparr>
      = (Inr ?id, snd demo_history)"
    using f by (simp add: demo_history_def prod_eq_iff)
  from history_is_exact[OF mem.delta_lake_axioms this, where row_of = "\<lambda>row. name_value (row ! 2)"] f u b show ?thesis
    by (auto simp: mem_seen_def[of "\<lparr>ml_tables = [], ml_next = 0\<rparr>"] rows_in_def)
qed

end
