(* ===== verification/Decode_Worker.thy ===== *)
theory Decode_Worker
  imports Load_Report
begin

section \<open>A decode worker\<close>

text \<open>
  The worker side of \<open>src/pipeline.rs\<close>: the jobs, the state of \<open>worker_loop\<close> and what one job does to it.
  A job's outcome is \<open>None\<close> where the code panics, which \<open>worker\<close> catches. The buffers \<open>scratch\<close> and \<open>ranges\<close>
  are the results of \<open>decode_row\<close>, which clears them first.
\<close>

record block_ctx =
  cx_generation :: nat
  cx_uri :: bytes
  cx_schema :: "(bytes \<times> data_type) list"
  cx_storage_options :: options
  cx_columns :: "(bytes \<times> resolved_type) list"
  cx_arity :: nat
  cx_limits :: limits
  cx_batch_rows :: nat
  cx_batch_bytes :: nat
  cx_wide_numeric_as_decimal :: bool
  cx_native_arrays :: bool

datatype job = Open block_ctx | Rows nat bytes | Close nat

record ('x, 'm) block_closed =
  bc_generation :: nat
  bc_rows :: nat
  bc_batches :: nat
  bc_substitutions :: "nat list"
  bc_staged :: "('x, 'm) action list"

datatype ('x, 'm) worker_event = Closed "('x, 'm) block_closed" | Failed error

record ('b, 'v) worker_block =
  wb_builder :: "'b batch_builder"
  wb_writer :: "'v table_writer"
  wb_batches :: nat

record ('b, 'v) worker_state =
  ws_ctxs :: "nat \<rightharpoonup> block_ctx"
  ws_blocks :: "nat \<rightharpoonup> ('b, 'v) worker_block"

definition new_worker :: "('b, 'v) worker_state" where
  "new_worker = \<lparr>ws_ctxs = Map.empty, ws_blocks = Map.empty\<rparr>"

definition pool_stopped :: error where
  "pool_stopped = IoError ''decode pool stopped unexpectedly''"

definition worker_panicked :: error where
  "worker_panicked = IoError ''decode worker panicked''"

text \<open>A step that may panic, with its effect on the storage world, and what follows when it succeeds.\<close>

type_synonym ('y, 'w) outcome = "'y res option \<times> 'w"

definition then_o :: "('y, 'w) outcome \<Rightarrow> ('y \<Rightarrow> 'w \<Rightarrow> ('z, 'w) outcome) \<Rightarrow> ('z, 'w) outcome" where
  "then_o r f = (case r of
     (None, w) \<Rightarrow> (None, w)
   | (Some (Inl e), w) \<Rightarrow> (Some (Inl e), w)
   | (Some (Inr y), w) \<Rightarrow> f y w)"

definition lift_w :: "'y res \<times> 'w \<Rightarrow> ('y, 'w) outcome" where
  "lift_w r = (Some (fst r), snd r)"

text \<open>\<open>if let Some(batch) = builder.finish()?\<close>: write the pending rows as a batch, when there are any.\<close>

definition flush_block ::
  "('f, 'b, 'a, 'r) arrow_ops \<Rightarrow> ('w, 's, 't, 'k, 'x, 'm, 'v, 'r) delta_ops \<Rightarrow> ('b, 'v) worker_block \<Rightarrow> 'w
    \<Rightarrow> (('b, 'v) worker_block, 'w) outcome" where
  "flush_block A D block w =
     (case finish_batch A (wb_builder block) of
        None \<Rightarrow> (None, w)
      | Some (Inl e, _) \<Rightarrow> (Some (Inl e), w)
      | Some (Inr None, builder) \<Rightarrow> (Some (Inr (block\<lparr>wb_builder := builder\<rparr>)), w)
      | Some (Inr (Some batch), builder) \<Rightarrow>
          then_o (lift_w (writer_write D (wb_writer block) batch w)) (\<lambda>writer w.
            (Some (Inr (block\<lparr>wb_builder := builder, wb_writer := writer, wb_batches := wb_batches block + 1\<rparr>)), w)))"

definition row_step ::
  "('f, 'b, 'a, 'r) arrow_ops \<Rightarrow> ('w, 's, 't, 'k, 'x, 'm, 'v, 'r) delta_ops \<Rightarrow> block_ctx \<Rightarrow> bytes
    \<Rightarrow> ('b, 'v) worker_block \<Rightarrow> 'w \<Rightarrow> (('b, 'v) worker_block, 'w) outcome" where
  "row_step A D ctx row block w =
     (case decode_row row (cx_arity ctx) (cx_limits ctx) of
        Inl e \<Rightarrow> (Some (Inl e), w)
      | Inr (scratch, rgs) \<Rightarrow>
          (case append_row_ranges A scratch rgs (wb_builder block) of
             None \<Rightarrow> (None, w)
           | Some (Inl e) \<Rightarrow> (Some (Inl e), w)
           | Some (Inr builder) \<Rightarrow>
               if is_full builder then flush_block A D (block\<lparr>wb_builder := builder\<rparr>) w
               else (Some (Inr (block\<lparr>wb_builder := builder\<rparr>)), w)))"

fun rows_loop ::
  "('f, 'b, 'a, 'r) arrow_ops \<Rightarrow> ('w, 's, 't, 'k, 'x, 'm, 'v, 'r) delta_ops \<Rightarrow> block_ctx \<Rightarrow> bytes list
    \<Rightarrow> ('b, 'v) worker_block \<Rightarrow> 'w \<Rightarrow> (('b, 'v) worker_block, 'w) outcome" where
  "rows_loop A D ctx [] block w = (Some (Inr block), w)"
| "rows_loop A D ctx (row # others) block w =
     then_o (row_step A D ctx row block w) (\<lambda>block w. rows_loop A D ctx others block w)"

definition new_block ::
  "('f, 'b, 'a, 'r) arrow_ops \<Rightarrow> ('w, 's, 't, 'k, 'x, 'm, 'v, 'r) delta_ops \<Rightarrow> block_ctx \<Rightarrow> ('b, 'v) worker_block res" where
  "new_block A D ctx =
     and_then (new_table_writer D (cx_uri ctx) (cx_schema ctx) (cx_storage_options ctx)) (\<lambda>writer.
       Inr \<lparr>wb_builder = new_batch_builder A (cx_columns ctx) (cx_batch_rows ctx) (cx_batch_bytes ctx)
                           (cx_wide_numeric_as_decimal ctx) (cx_native_arrays ctx),
            wb_writer = writer, wb_batches = 0\<rparr>)"

definition empty_closed :: "nat \<Rightarrow> ('x, 'm) block_closed" where
  "empty_closed generation =
     \<lparr>bc_generation = generation, bc_rows = 0, bc_batches = 0, bc_substitutions = [], bc_staged = []\<rparr>"

text \<open>The end of a block: what is left is written, and the files are staged.\<close>

definition close_block ::
  "('f, 'b, 'a, 'r) arrow_ops \<Rightarrow> ('w, 's, 't, 'k, 'x, 'm, 'v, 'r) delta_ops \<Rightarrow> nat \<Rightarrow> ('b, 'v) worker_block \<Rightarrow> 'w
    \<Rightarrow> (('x, 'm) block_closed, 'w) outcome" where
  "close_block A D generation block w =
     then_o (flush_block A D block w) (\<lambda>block w.
     then_o (lift_w (writer_stage D (wb_writer block) w)) (\<lambda>(staged, writer) w.
       (Some (Inr \<lparr>bc_generation = generation, bc_rows = tw_rows writer, bc_batches = wb_batches block,
          bc_substitutions = bb_substitutions (wb_builder block), bc_staged = staged\<rparr>), w)))"

text \<open>One turn of \<open>worker_loop\<close>: the new state, and the event to send when the job was a \<open>Close\<close>.\<close>

definition job_step ::
  "('f, 'b, 'a, 'r) arrow_ops \<Rightarrow> ('w, 's, 't, 'k, 'x, 'm, 'v, 'r) delta_ops \<Rightarrow> job \<Rightarrow> ('b, 'v) worker_state \<Rightarrow> 'w
    \<Rightarrow> (('b, 'v) worker_state \<times> ('x, 'm) worker_event option, 'w) outcome" where
  "job_step A D j ws w =
     (case j of
        Open ctx \<Rightarrow> (Some (Inr (ws\<lparr>ws_ctxs := (ws_ctxs ws)(cx_generation ctx \<mapsto> ctx)\<rparr>, None)), w)
      | Rows generation payload \<Rightarrow>
          (case ws_ctxs ws generation of
             None \<Rightarrow> (Some (Inl pool_stopped), w)
           | Some ctx \<Rightarrow>
               then_o (Some (case ws_blocks ws generation of Some block \<Rightarrow> Inr block | None \<Rightarrow> new_block A D ctx), w)
                 (\<lambda>block w.
               then_o (rows_loop A D ctx (fst (rows payload)) block w) (\<lambda>block w.
                 (Some (Inr (ws\<lparr>ws_blocks := (ws_blocks ws)(generation \<mapsto> block)\<rparr>, None)), w))))
      | Close generation \<Rightarrow>
          (let ws' = ws\<lparr>ws_ctxs := (ws_ctxs ws)(generation := None), ws_blocks := (ws_blocks ws)(generation := None)\<rparr>
           in case ws_blocks ws generation of
                None \<Rightarrow> (Some (Inr (ws', Some (Closed (empty_closed generation)))), w)
              | Some block \<Rightarrow>
                  then_o (close_block A D generation block w) (\<lambda>closed w. (Some (Inr (ws', Some (Closed closed))), w))))"

end
