(* ===== verification/Load_Reader.thy ===== *)
theory Load_Reader
  imports Decode_Worker Load_History Dump_Reader
begin

section \<open>The reader of a load\<close>

text \<open>
  The reader side of \<open>src/pipeline.rs\<close>, the body of \<open>drive\<close>: its variables as a record, what each event of
  the scanner does to them, the end of a block, the end of the input, the commits and the report. The
  waiting between these, on a full queue, a preload or an acknowledgement, is in \<open>Load_Pipeline\<close>.
\<close>

subsection \<open>What a load runs in\<close>

text \<open>
  The settings, the third-party interfaces, the input (what the next chunk is, how many bytes were taken),
  the callback, which answers to the updates so far, and the clock.
\<close>

record ('f, 'b, 'a, 'r, 'w, 's, 't, 'k, 'x, 'm, 'v, 'i) loader_env =
  en_config :: load_config
  en_threads :: nat
  en_arrow :: "('f, 'b, 'a, 'r) arrow_ops"
  en_delta :: "('w, 's, 't, 'k, 'x, 'm, 'v, 'r) delta_ops"
  en_store :: 's
  en_alnum :: "bytes \<Rightarrow> bool"
  en_low :: "bytes \<Rightarrow> bytes"
  en_next :: "'i \<Rightarrow> (bytes option res \<times> 'i) option"
  en_count :: "'i \<Rightarrow> nat"
  en_compression :: compression
  en_callback :: "progress list \<Rightarrow> bool"
  en_mk_batch :: "('f, 'r) make_batch"
  en_clock :: "'w \<Rightarrow> int"

record ('t, 'x, 'm) commit_target =
  ct_qualified :: bytes
  ct_table :: 't
  ct_schema :: "(bytes \<times> data_type) list"
  ct_drift :: schema_drift
  ct_actions :: "('x, 'm) action list"

record open_block =
  ob_generation :: nat
  ob_table :: table_name
  ob_qualified :: bytes
  ob_columns :: "(bytes \<times> resolved_type) list"
  ob_drift :: schema_drift

text \<open>A preload task of the runtime: in flight, or finished with its result.\<close>

datatype ('t, 'k) preload_task = Loading table_name | Loaded "('t, 'k) preloaded_table res"

fun in_flight :: "('t, 'k) preload_task \<Rightarrow> bool" where
  "in_flight (Loading _) = True"
| "in_flight (Loaded _) = False"

record ('t, 'x, 'm, 'i) loader =
  ld_input :: 'i
  ld_scanner :: scanner
  ld_bytes_read :: nat
  ld_seen :: "bytes list"
  ld_defs :: "bytes \<rightharpoonup> table_def"
  ld_dumped_by :: "nat option"
  ld_from_database :: "nat option"
  ld_total_rows :: nat
  ld_tables :: "table_stats list"
  ld_targets :: "('t, 'x, 'm) commit_target list"
  ld_staged :: "bytes \<rightharpoonup> ('x, 'm) action list"
  ld_generation :: nat
  ld_current :: "open_block option"
  ld_round_robin :: nat
  ld_skipping :: bool
  ld_preloads :: "bytes \<rightharpoonup> nat"
  ld_updates :: "progress list"

definition new_loader :: "load_config \<Rightarrow> 'i \<Rightarrow> ('t, 'x, 'm, 'i) loader" where
  "new_loader config input =
     \<lparr>ld_input = input,
      ld_scanner = (case lc_excluded_schemas config of
         Some schemas \<Rightarrow> set_excluded_schemas schemas new_scanner | None \<Rightarrow> new_scanner),
      ld_bytes_read = 0, ld_seen = [], ld_defs = Map.empty, ld_dumped_by = None, ld_from_database = None,
      ld_total_rows = 0, ld_tables = [], ld_targets = [], ld_staged = Map.empty, ld_generation = 0,
      ld_current = None, ld_round_robin = 0, ld_skipping = False, ld_preloads = Map.empty, ld_updates = []\<rparr>"

definition wanted :: "load_config \<Rightarrow> table_name \<Rightarrow> bool" where
  "wanted config table \<longleftrightarrow>
     (case lc_tables config of None \<Rightarrow> True | Some t \<Rightarrow> qualified_name table \<in> set t)
     \<and> \<not> (case lc_excluded_schemas config of
            None \<Rightarrow> False
          | Some schemas \<Rightarrow> (case tn_schema table of None \<Rightarrow> False | Some s \<Rightarrow> s \<in> set schemas))"

definition open_concurrency :: "load_config \<Rightarrow> nat" where
  "open_concurrency config =
     (if lc_commit_concurrency config = 0 then DEFAULT_COMMIT_CONCURRENCY else lc_commit_concurrency config)"

definition resolve_copy_columns :: "(bytes \<Rightarrow> bytes) \<Rightarrow> table_def \<Rightarrow> bytes list \<Rightarrow> resolved_type list res" where
  "resolve_copy_columns low def columns =
     map_res (\<lambda>name. case find (\<lambda>c. cd_name c = name) (td_columns def) of
         Some c \<Rightarrow> Inr (resolve low (cd_type c))
       | None \<Rightarrow> Inl (MalformedCreateTable (qualified_name (td_name def)))) columns"

subsection \<open>The events\<close>

text \<open>
  What an event leads to: on with the next event, or jobs to dispatch, and after the jobs of a \<open>CopyEnd\<close> the
  block whose acknowledgements are to be collected.
\<close>

datatype ('t, 'x, 'm, 'i) reply =
    Proceed "('t, 'x, 'm, 'i) loader"
  | Dispatch "('t, 'x, 'm, 'i) loader" "(nat \<times> job) list" "open_block option"

definition to_all :: "nat \<Rightarrow> job \<Rightarrow> (nat \<times> job) list" where
  "to_all threads j = map (\<lambda>i. (i, j)) [0..<threads]"

definition on_version :: "load_config \<Rightarrow> nat \<Rightarrow> nat option \<Rightarrow> ('t, 'x, 'm, 'i) loader \<Rightarrow> ('t, 'x, 'm, 'i) reply res" where
  "on_version config dumped_by from_database ld =
     (case lc_expect_pg_major config of
        Some expected \<Rightarrow> if dumped_by \<noteq> expected then Inl (UnsupportedDumpVersion dumped_by)
          else Inr (Proceed (ld\<lparr>ld_dumped_by := Some dumped_by, ld_from_database := from_database\<rparr>))
      | None \<Rightarrow> Inr (Proceed (ld\<lparr>ld_dumped_by := Some dumped_by, ld_from_database := from_database\<rparr>)))"

text \<open>A table definition starts a preload when the semaphore has a permit; \<open>None\<close> while it has none.\<close>

definition on_table :: "load_config \<Rightarrow> table_def \<Rightarrow> ('t, 'x, 'm, 'i) loader \<Rightarrow> ('t, 'k) preload_task list
    \<Rightarrow> (('t, 'x, 'm, 'i) loader \<times> ('t, 'k) preload_task list) option" where
  "on_table config def ld tasks =
     (let qualified = qualified_name (td_name def);
          ld' = ld\<lparr>ld_defs := (ld_defs ld)(qualified \<mapsto> def)\<rparr>
      in if wanted config (td_name def) then
           (if length (filter in_flight tasks) < open_concurrency config
            then Some (ld'\<lparr>ld_preloads := (ld_preloads ld)(qualified \<mapsto> length tasks)\<rparr>, tasks @ [Loading (td_name def)])
            else None)
         else Some (ld', tasks))"

text \<open>
  The second half of \<open>CopyStart\<close>: the preloaded table is opened, a target and a block recorded for it, and the
  block announced to every worker.
\<close>

definition ctx_for :: "load_config \<Rightarrow> nat \<Rightarrow> (bytes \<times> resolved_type) list \<Rightarrow> arrow_schema \<Rightarrow> 't opened_table \<Rightarrow> block_ctx" where
  "ctx_for config generation pairs schema opened =
     \<lparr>cx_generation = generation, cx_uri = op_uri opened, cx_schema = schema,
      cx_storage_options = lc_storage_options config, cx_columns = pairs, cx_arity = length pairs,
      cx_limits = lc_limits config, cx_batch_rows = lc_batch_rows config, cx_batch_bytes = lc_batch_bytes config,
      cx_wide_numeric_as_decimal = lc_wide_numeric_as_decimal config, cx_native_arrays = lc_native_arrays config\<rparr>"

definition target_for :: "table_name \<Rightarrow> arrow_schema \<Rightarrow> 't opened_table \<Rightarrow> ('t, 'x, 'm) commit_target" where
  "target_for table schema opened =
     \<lparr>ct_qualified = qualified_name table, ct_table = op_table opened, ct_schema = schema, ct_drift = op_drift opened,
      ct_actions = []\<rparr>"

definition block_for :: "nat \<Rightarrow> table_name \<Rightarrow> (bytes \<times> resolved_type) list \<Rightarrow> 't opened_table \<Rightarrow> open_block" where
  "block_for generation table pairs opened =
     \<lparr>ob_generation = generation, ob_table = table, ob_qualified = qualified_name table, ob_columns = pairs,
      ob_drift = op_drift opened\<rparr>"

definition start_block ::
  "('f, 'b, 'a, 'r, 'w, 's, 't, 'k, 'x, 'm, 'v, 'i) loader_env \<Rightarrow> table_name \<Rightarrow> (bytes \<times> resolved_type) list
    \<Rightarrow> ('t, 'x, 'm, 'i) loader \<Rightarrow> ('t, 'k) preloaded_table res \<Rightarrow> 'w \<Rightarrow> ('t, 'x, 'm, 'i) reply res \<times> 'w" where
  "start_block env table pairs ld preloaded w =
     (let config = en_config env;
          schema = Arrow_Build.arrow_schema pairs (lc_wide_numeric_as_decimal config) (lc_native_arrays config);
          generation = ld_generation ld + 1
      in case preloaded of
           Inl e \<Rightarrow> (Inl e, w)
         | Inr preloaded \<Rightarrow>
             then_w (finish_open (en_delta env) preloaded table schema (lc_mode config) w) (\<lambda>opened w.
               (let ld' = ld\<lparr>ld_targets := ld_targets ld @ [target_for table schema opened],
                             ld_generation := generation,
                             ld_current := Some (block_for generation table pairs opened),
                             ld_round_robin := 0\<rparr>
                in (Inr (Dispatch ld' (to_all (en_threads env) (Open (ctx_for config generation pairs schema opened))) None), w))))"

definition on_copy_start ::
  "('f, 'b, 'a, 'r, 'w, 's, 't, 'k, 'x, 'm, 'v, 'i) loader_env \<Rightarrow> table_name \<Rightarrow> bytes list
    \<Rightarrow> ('t, 'x, 'm, 'i) loader \<Rightarrow> ('t, 'k) preload_task list \<Rightarrow> 'w \<Rightarrow> (('t, 'x, 'm, 'i) reply res \<times> 'w) option" where
  "on_copy_start env table columns ld tasks w =
     (let config = en_config env; qualified = qualified_name table;
          ld' = ld\<lparr>ld_seen := insort_insert qualified (ld_seen ld)\<rparr>
      in if ld_current ld \<noteq> None then Some (Inl (Internal ''COPY block started while another was still open''), w)
         else if lc_write_manifest config \<and> reserved_collision table then Some (Inl (UnsafeTableName qualified), w)
         else if \<not> wanted config table then Some (Inr (Proceed (ld'\<lparr>ld_skipping := True\<rparr>)), w)
         else (case ld_defs ld qualified of
            None \<Rightarrow> Some (Inl (MalformedCreateTable qualified), w)
          | Some def \<Rightarrow>
              (case resolve_copy_columns (en_low env) def columns of
                 Inl e \<Rightarrow> Some (Inl e, w)
               | Inr resolved \<Rightarrow>
                   (let pairs = zip columns resolved;
                        ld'' = ld'\<lparr>ld_preloads := (ld_preloads ld)(qualified := None)\<rparr>
                    in case ld_preloads ld qualified of
                         Some task \<Rightarrow>
                           (case tasks ! task of
                              Loading _ \<Rightarrow> None
                            | Loaded preloaded \<Rightarrow> Some (start_block env table pairs ld'' preloaded w))
                       | None \<Rightarrow>
                           (case preload_table (en_delta env) (en_alnum env) (lc_output_uri config) table (en_store env)
                                  (lc_storage_options config) w of
                              (preloaded, w') \<Rightarrow> Some (start_block env table pairs ld'' preloaded w'))))))"

definition on_copy_rows :: "nat \<Rightarrow> bytes \<Rightarrow> ('t, 'x, 'm, 'i) loader \<Rightarrow> ('t, 'x, 'm, 'i) reply res" where
  "on_copy_rows threads payload ld =
     (if ld_skipping ld then Inr (Proceed ld)
      else (case ld_current ld of
              None \<Rightarrow> Inl (Internal ''COPY rows arrived with no open block'')
            | Some block \<Rightarrow>
                Inr (Dispatch (ld\<lparr>ld_round_robin := ld_round_robin ld + 1\<rparr>)
                       [(ld_round_robin ld mod threads, Rows (ob_generation block) payload)] None)))"

definition on_copy_end :: "nat \<Rightarrow> table_name \<Rightarrow> ('t, 'x, 'm, 'i) loader \<Rightarrow> ('t, 'x, 'm, 'i) reply res" where
  "on_copy_end threads table ld =
     (if ld_skipping ld then Inr (Proceed (ld\<lparr>ld_skipping := False\<rparr>))
      else (case ld_current ld of
              None \<Rightarrow> Inl (Internal ''COPY block ended with none open'')
            | Some block \<Rightarrow>
                if ob_table block \<noteq> table then Inl (Internal ''COPY block ended under a different name than it began'')
                else Inr (Dispatch (ld\<lparr>ld_current := None\<rparr>) (to_all threads (Close (ob_generation block))) (Some block))))"

text \<open>An event: \<open>None\<close> while it has to wait for a permit or for a preload.\<close>

definition on_event ::
  "('f, 'b, 'a, 'r, 'w, 's, 't, 'k, 'x, 'm, 'v, 'i) loader_env \<Rightarrow> event \<Rightarrow> ('t, 'x, 'm, 'i) loader
    \<Rightarrow> ('t, 'k) preload_task list \<Rightarrow> 'w \<Rightarrow> (('t, 'x, 'm, 'i) reply res \<times> ('t, 'k) preload_task list \<times> 'w) option" where
  "on_event env ev ld tasks w =
     (case ev of
        DumpVersion dumped_by from_database \<Rightarrow> Some (on_version (en_config env) dumped_by from_database ld, tasks, w)
      | TableEvent def \<Rightarrow> map_option (\<lambda>(ld, tasks). (Inr (Proceed ld), tasks, w)) (on_table (en_config env) def ld tasks)
      | CopyStart table columns \<Rightarrow> map_option (\<lambda>(r, w). (r, tasks, w)) (on_copy_start env table columns ld tasks w)
      | CopyRows payload \<Rightarrow> Some (on_copy_rows (en_threads env) payload ld, tasks, w)
      | CopyEnd table \<Rightarrow> Some (on_copy_end (en_threads env) table ld, tasks, w))"

subsection \<open>The end of a block\<close>

record ('x, 'm) collected =
  co_block :: open_block
  co_acked :: nat
  co_rows :: nat
  co_batches :: nat
  co_subs :: "nat list"
  co_actions :: "('x, 'm) action list"

definition new_collected :: "open_block \<Rightarrow> ('x, 'm) collected" where
  "new_collected block =
     \<lparr>co_block = block, co_acked = 0, co_rows = 0, co_batches = 0,
      co_subs = replicate (length (ob_columns block)) 0, co_actions = []\<rparr>"

fun add_subs :: "nat list \<Rightarrow> nat list \<Rightarrow> nat list" where
  "add_subs (slot # slots) (add # adds) = (slot + add) # add_subs slots adds"
| "add_subs slots _ = slots"

definition collect :: "('x, 'm) block_closed \<Rightarrow> ('x, 'm) collected \<Rightarrow> ('x, 'm) collected" where
  "collect c co =
     co\<lparr>co_acked := co_acked co + 1, co_rows := co_rows co + bc_rows c, co_batches := co_batches co + bc_batches c,
        co_subs := add_subs (co_subs co) (bc_substitutions c), co_actions := co_actions co @ bc_staged c\<rparr>"

definition stats_of :: "('x, 'm) collected \<Rightarrow> table_stats" where
  "stats_of co =
     (let columns = ob_columns (co_block co)
      in \<lparr>ts_table = ob_qualified (co_block co), ts_schema_drift = ob_drift (co_block co), ts_rows = co_rows co,
          ts_batches = co_batches co, ts_delta_version = 0,
          ts_null_substitutions = map (\<lambda>((n, _), count). (n, count)) (filter (\<lambda>(_, count). 0 < count) (zip columns (co_subs co))),
          ts_text_fallback_columns = map (\<lambda>(n, rt). (n, rt_source rt)) (filter (\<lambda>(_, rt). \<not> rt_recognised rt) columns)\<rparr>)"

text \<open>The progress callback; \<open>false\<close> interrupts the load.\<close>

definition notify :: "(progress list \<Rightarrow> bool) \<Rightarrow> bytes option \<Rightarrow> ('t, 'x, 'm, 'i) loader \<Rightarrow> ('t, 'x, 'm, 'i) loader res" where
  "notify callback table ld =
     (let updates = ld_updates ld @ [\<lparr>pg_bytes_read = ld_bytes_read ld, pg_rows = ld_total_rows ld,
            pg_tables_done = length (ld_tables ld), pg_table = table\<rparr>]
      in if callback updates then Inr (ld\<lparr>ld_updates := updates\<rparr>) else Inl Interrupted)"

definition block_done :: "(progress list \<Rightarrow> bool) \<Rightarrow> ('x, 'm) collected \<Rightarrow> ('t, 'x, 'm, 'i) loader \<Rightarrow> ('t, 'x, 'm, 'i) loader res" where
  "block_done callback co ld =
     (let qualified = ob_qualified (co_block co);
          before = (case ld_staged ld qualified of Some actions \<Rightarrow> actions | None \<Rightarrow> [])
      in notify callback (Some (qualified_name (ob_table (co_block co))))
           (ld\<lparr>ld_total_rows := ld_total_rows ld + co_rows co,
               ld_staged := (ld_staged ld)(qualified \<mapsto> before @ co_actions co),
               ld_tables := ld_tables ld @ [stats_of co]\<rparr>))"

subsection \<open>Phase two\<close>

text \<open>Each target is given its actions, \<open>staged.remove\<close>.\<close>

fun take_staged :: "('t, 'x, 'm) commit_target list \<Rightarrow> (bytes \<rightharpoonup> ('x, 'm) action list) \<Rightarrow> ('t, 'x, 'm) commit_target list" where
  "take_staged [] staged = []"
| "take_staged (target # targets) staged =
     target\<lparr>ct_actions := (case staged (ct_qualified target) of Some actions \<Rightarrow> actions | None \<Rightarrow> [])\<rparr>
       # take_staged targets (staged(ct_qualified target := None))"

definition end_of_input :: "('t, 'x, 'm, 'i) loader \<Rightarrow> (nat \<times> ('t, 'x, 'm) commit_target list) res" where
  "end_of_input ld =
     and_then (scan_finish (ld_scanner ld)) (\<lambda>_.
     and_then (ok_or MissingDumpVersion (ld_dumped_by ld)) (\<lambda>dumped_by.
       Inr (dumped_by, take_staged (ld_targets ld) (ld_staged ld))))"

definition commit_turn ::
  "('w, 's, 't, 'k, 'x, 'm, 'v, 'r) delta_ops \<Rightarrow> write_mode \<Rightarrow> ('t, 'x, 'm) commit_target \<Rightarrow> 'w \<Rightarrow> nat res \<times> 'w" where
  "commit_turn D mode target w =
     then_w (commit_table D (ct_table target) (ct_actions target) mode
         (if \<not> drift_is_empty (ct_drift target) then Some (ct_schema target) else None) w)
       (\<lambda>(version, _) w. (Inr version, w))"

fun set_version :: "bytes \<Rightarrow> nat \<Rightarrow> table_stats list \<Rightarrow> table_stats list" where
  "set_version name version [] = []"
| "set_version name version (t # ts) =
     (if ts_table t = name then t\<lparr>ts_delta_version := version\<rparr> # ts else t # set_version name version ts)"

text \<open>How many commits succeeded, the statistics with their versions, and the first failure.\<close>

fun tally :: "(bytes \<times> nat res) list \<Rightarrow> nat \<times> table_stats list \<times> (bytes \<times> error) option
    \<Rightarrow> nat \<times> table_stats list \<times> (bytes \<times> error) option" where
  "tally [] acc = acc"
| "tally ((name, Inr version) # outcomes) (committed, tables, failure) =
     tally outcomes (committed + 1, set_version name version tables, failure)"
| "tally ((name, Inl err) # outcomes) (committed, tables, failure) =
     tally outcomes (committed, tables, (case failure of None \<Rightarrow> Some (name, err) | Some f \<Rightarrow> Some f))"

definition missing_tables :: "load_config \<Rightarrow> bytes list \<Rightarrow> bytes list" where
  "missing_tables config seen_tables =
     (case (case lc_expect_tables config of Some names \<Rightarrow> Some names | None \<Rightarrow> lc_tables config) of
        None \<Rightarrow> []
      | Some names \<Rightarrow> remdups_adj (sort (filter (\<lambda>name. name \<notin> set seen_tables) names)))"

definition unexpected_tables :: "load_config \<Rightarrow> bytes list \<Rightarrow> bytes list" where
  "unexpected_tables config seen_tables =
     (case lc_expect_tables config of
        None \<Rightarrow> []
      | Some names \<Rightarrow> filter (\<lambda>name. name \<notin> set names) seen_tables)"

text \<open>The report, and the row group in the load history.\<close>

definition conclude ::
  "('f, 'b, 'a, 'r, 'w, 's, 't, 'k, 'x, 'm, 'v, 'i) loader_env \<Rightarrow> nat \<Rightarrow> (bytes \<times> nat res) list \<Rightarrow> nat
    \<Rightarrow> ('t, 'x, 'm, 'i) loader \<Rightarrow> 'w \<Rightarrow> load_report res \<times> 'w" where
  "conclude env dumped_by outcomes targets ld w =
     (case tally outcomes (0, ld_tables ld, None) of
        (committed, tables, Some (table, err)) \<Rightarrow> (Inl (CommitFailed table committed targets (display err)), w)
      | (committed, tables, None) \<Rightarrow>
          (let config = en_config env;
               report = \<lparr>lr_dumped_by = dumped_by, lr_from_database = ld_from_database ld,
                 lr_compression = compression_name (en_compression env), lr_bytes_read = en_count env (ld_input ld),
                 lr_total_rows = ld_total_rows ld, lr_tables = tables,
                 lr_missing_tables = missing_tables config (ld_seen ld),
                 lr_unexpected_tables = unexpected_tables config (ld_seen ld), lr_load_id = None\<rparr>
           in if lc_write_manifest config then
                then_w (append_history (en_delta env) (en_alnum env) (en_mk_batch env) (en_clock env) (lc_output_uri config)
                    (lc_storage_options config) report w) (\<lambda>lid w. (Inr (report\<lparr>lr_load_id := Some lid\<rparr>), w))
              else (Inr report, w)))"

end
