(* ===== verification/Load_Pipeline.thy ===== *)
theory Load_Pipeline
  imports Load_Reader Transitions
begin

section \<open>The pipeline as a transition system\<close>

text \<open>
  \<open>drive\<close>, \<open>dispatch\<close>, \<open>worker\<close> and \<open>execute\<close> of \<open>src/pipeline.rs\<close> running together: the reader, one worker per
  thread with its job queue, the event queue, the preload tasks and the storage world. A channel is the
  bounded queue that \<open>Bounded_Chan\<close> shows it to be: sending is a step when there is room, receiving when
  there is an item. A job, a preload and a commit are one step each, so the calls of different threads on
  the storage interleave at that grain.
\<close>

subsection \<open>Configurations\<close>

text \<open>
  Where a worker stands: in \<open>recv\<close> or at a job, about to send an event, past its last event and about to
  drop its ends of the channels, or gone.
\<close>

datatype ('x, 'm) worker_pc = Working | Telling "('x, 'm) worker_event" | Leaving | Gone

record ('b, 'v, 'x, 'm) pool_worker =
  wk_state :: "('b, 'v) worker_state"
  wk_queue :: "job list"
  wk_pc :: "('x, 'm) worker_pc"

definition idle_worker :: "('b, 'v, 'x, 'm) pool_worker" where
  "idle_worker = \<lparr>wk_state = new_worker, wk_queue = [], wk_pc = Working\<rparr>"

text \<open>
  Where the reader stands: asking for a chunk, at the events of one, dispatching jobs (with the block that
  closes after them), collecting acknowledgements, committing (the version, the targets not begun or not
  finished in stream order, the outcomes so far and the number of targets), or done.
\<close>

datatype ('t, 'x, 'm) reader_pc =
    ReadChunk
  | Handling "event list"
  | Sending "(nat \<times> job) list" "open_block option" "event list"
  | Collecting "('x, 'm) collected" "event list"
  | Committing nat "('t, 'x, 'm) commit_target list" "(bytes \<times> nat res) list" nat
  | Finished "load_report res"

record ('b, 'v, 't, 'k, 'x, 'm, 'i, 'w) config =
  cf_pc :: "('t, 'x, 'm) reader_pc"
  cf_loader :: "('t, 'x, 'm, 'i) loader"
  cf_tasks :: "('t, 'k) preload_task list"
  cf_workers :: "('b, 'v, 'x, 'm) pool_worker list"
  cf_events :: "('x, 'm) worker_event list"
  cf_world :: 'w

definition event_capacity :: "nat \<Rightarrow> nat" where
  "event_capacity threads = threads * 2 + 4"

definition start_config :: "('f, 'b, 'a, 'r, 'w, 's, 't, 'k, 'x, 'm, 'v, 'i) loader_env \<Rightarrow> 'i \<Rightarrow> 'w
    \<Rightarrow> ('b, 'v, 't, 'k, 'x, 'm, 'i, 'w) config" where
  "start_config env input w =
     \<lparr>cf_pc = ReadChunk, cf_loader = new_loader (en_config env) input, cf_tasks = [],
      cf_workers = replicate (en_threads env) idle_worker, cf_events = [], cf_world = w\<rparr>"

definition set_worker :: "nat \<Rightarrow> ('b, 'v, 'x, 'm) pool_worker \<Rightarrow> ('b, 'v, 't, 'k, 'x, 'm, 'i, 'w) config
    \<Rightarrow> ('b, 'v, 't, 'k, 'x, 'm, 'i, 'w) config" where
  "set_worker i wk c = c\<lparr>cf_workers := (cf_workers c)[i := wk]\<rparr>"

subsection \<open>The reader's own steps\<close>

definition stop :: "error \<Rightarrow> ('b, 'v, 't, 'k, 'x, 'm, 'i, 'w) config \<Rightarrow> ('b, 'v, 't, 'k, 'x, 'm, 'i, 'w) config" where
  "stop e c = c\<lparr>cf_pc := Finished (Inl e)\<rparr>"

text \<open>\<open>while let Some(chunk) = chunks.next_chunk()?\<close>, and what follows the loop; \<open>None\<close> if the call does not return.\<close>

definition read_turn :: "('f, 'b, 'a, 'r, 'w, 's, 't, 'k, 'x, 'm, 'v, 'i) loader_env
    \<Rightarrow> ('b, 'v, 't, 'k, 'x, 'm, 'i, 'w) config \<Rightarrow> ('b, 'v, 't, 'k, 'x, 'm, 'i, 'w) config option" where
  "read_turn env c =
     (let ld = cf_loader c
      in case en_next env (ld_input ld) of
           None \<Rightarrow> None
         | Some (Inl e, input) \<Rightarrow> Some (stop e c)
         | Some (Inr None, input) \<Rightarrow>
             (let ld' = ld\<lparr>ld_input := input, ld_preloads := Map.empty\<rparr>
              in case end_of_input ld' of
                   Inl e \<Rightarrow> Some (stop e c)
                 | Inr (dumped_by, targets) \<Rightarrow>
                     Some (c\<lparr>cf_loader := ld', cf_pc := Committing dumped_by targets [] (length targets)\<rparr>))
         | Some (Inr (Some chunk), input) \<Rightarrow>
             (case feed chunk (ld_scanner ld) of
                Inl e \<Rightarrow> Some (stop e c)
              | Inr (scanner, events) \<Rightarrow>
                  Some (c\<lparr>cf_loader := ld\<lparr>ld_input := input, ld_bytes_read := en_count env input, ld_scanner := scanner\<rparr>,
                          cf_pc := Handling events\<rparr>)))"

text \<open>One event, or the progress update after the last one.\<close>

definition event_turn :: "('f, 'b, 'a, 'r, 'w, 's, 't, 'k, 'x, 'm, 'v, 'i) loader_env \<Rightarrow> event list
    \<Rightarrow> ('b, 'v, 't, 'k, 'x, 'm, 'i, 'w) config \<Rightarrow> ('b, 'v, 't, 'k, 'x, 'm, 'i, 'w) config option" where
  "event_turn env events c =
     (case events of
        [] \<Rightarrow> (case notify (en_callback env) None (cf_loader c) of
                 Inl e \<Rightarrow> Some (stop e c)
               | Inr ld \<Rightarrow> Some (c\<lparr>cf_loader := ld, cf_pc := ReadChunk\<rparr>))
      | ev # others \<Rightarrow>
          map_option (\<lambda>(r, tasks, w).
              (let c' = c\<lparr>cf_tasks := tasks, cf_world := w\<rparr>
               in case r of
                    Inl e \<Rightarrow> stop e c'
                  | Inr (Proceed ld) \<Rightarrow> c'\<lparr>cf_loader := ld, cf_pc := Handling others\<rparr>
                  | Inr (Dispatch ld jobs block) \<Rightarrow> c'\<lparr>cf_loader := ld, cf_pc := Sending jobs block others\<rparr>))
            (on_event env ev (cf_loader c) (cf_tasks c) (cf_world c)))"

definition sent_turn :: "open_block option \<Rightarrow> event list
    \<Rightarrow> ('b, 'v, 't, 'k, 'x, 'm, 'i, 'w) config \<Rightarrow> ('b, 'v, 't, 'k, 'x, 'm, 'i, 'w) config" where
  "sent_turn block events c =
     (case block of
        None \<Rightarrow> c\<lparr>cf_pc := Handling events\<rparr>
      | Some b \<Rightarrow> c\<lparr>cf_pc := Collecting (new_collected b) events\<rparr>)"

definition done_turn :: "('f, 'b, 'a, 'r, 'w, 's, 't, 'k, 'x, 'm, 'v, 'i) loader_env \<Rightarrow> ('x, 'm) collected \<Rightarrow> event list
    \<Rightarrow> ('b, 'v, 't, 'k, 'x, 'm, 'i, 'w) config \<Rightarrow> ('b, 'v, 't, 'k, 'x, 'm, 'i, 'w) config" where
  "done_turn env co events c =
     (case block_done (en_callback env) co (cf_loader c) of
        Inl e \<Rightarrow> stop e c
      | Inr ld \<Rightarrow> c\<lparr>cf_loader := ld, cf_pc := Handling events\<rparr>)"

definition conclude_turn :: "('f, 'b, 'a, 'r, 'w, 's, 't, 'k, 'x, 'm, 'v, 'i) loader_env \<Rightarrow> nat \<Rightarrow> (bytes \<times> nat res) list \<Rightarrow> nat
    \<Rightarrow> ('b, 'v, 't, 'k, 'x, 'm, 'i, 'w) config \<Rightarrow> ('b, 'v, 't, 'k, 'x, 'm, 'i, 'w) config" where
  "conclude_turn env dumped_by outcomes targets c =
     (case conclude env dumped_by outcomes targets (cf_loader c) (cf_world c) of
        (r, w) \<Rightarrow> c\<lparr>cf_world := w, cf_pc := Finished r\<rparr>)"

text \<open>A failed \<open>dispatch\<close>: the cause is the next event, when it is a failure.\<close>

fun dispatch_failure :: "('x, 'm) worker_event option \<Rightarrow> error" where
  "dispatch_failure (Some (Failed err)) = err"
| "dispatch_failure _ = pool_stopped"

subsection \<open>The steps\<close>

text \<open>What a worker does with the outcome of a job.\<close>

definition after_job :: "(('b, 'v) worker_state \<times> ('x, 'm) worker_event option) res option \<Rightarrow> ('b, 'v, 'x, 'm) pool_worker
    \<Rightarrow> ('b, 'v, 'x, 'm) pool_worker" where
  "after_job r wk =
     (case r of
        None \<Rightarrow> wk\<lparr>wk_pc := Telling (Failed worker_panicked)\<rparr>
      | Some (Inl e) \<Rightarrow> wk\<lparr>wk_pc := Telling (Failed e)\<rparr>
      | Some (Inr (ws, None)) \<Rightarrow> wk\<lparr>wk_state := ws\<rparr>
      | Some (Inr (ws, Some ev)) \<Rightarrow> wk\<lparr>wk_state := ws, wk_pc := Telling ev\<rparr>)"

fun after_telling :: "('x, 'm) worker_event \<Rightarrow> ('x, 'm) worker_pc" where
  "after_telling (Closed _) = Working"
| "after_telling (Failed _) = Leaving"

definition all_gone :: "('b, 'v, 'x, 'm) pool_worker list \<Rightarrow> bool" where
  "all_gone wks \<longleftrightarrow> list_all (\<lambda>wk. wk_pc wk = Gone) wks"

text \<open>What a step shows: the event handled, a commit with its result, or the conclusion.\<close>

datatype load_label = Tau | Event event | Committed bytes "nat res" | Concluded

inductive load_step ::
  "('f, 'b, 'a, 'r, 'w, 's, 't, 'k, 'x, 'm, 'v, 'i) loader_env
    \<Rightarrow> ('b, 'v, 't, 'k, 'x, 'm, 'i, 'w) config \<Rightarrow> load_label \<Rightarrow> ('b, 'v, 't, 'k, 'x, 'm, 'i, 'w) config \<Rightarrow> bool" for env where
  reads: "cf_pc c = ReadChunk \<Longrightarrow> read_turn env c = Some c' \<Longrightarrow> load_step env c Tau c'"
| handles: "cf_pc c = Handling events \<Longrightarrow> event_turn env events c = Some c' \<Longrightarrow>
     load_step env c (case events of [] \<Rightarrow> Tau | ev # _ \<Rightarrow> Event ev) c'"
| sends: "cf_pc c = Sending ((i, j) # jobs) block events \<Longrightarrow> i < length (cf_workers c) \<Longrightarrow> cf_workers c ! i = wk \<Longrightarrow>
     wk_pc wk \<noteq> Gone \<Longrightarrow> length (wk_queue wk) < QUEUE_DEPTH \<Longrightarrow>
     load_step env c Tau ((set_worker i (wk\<lparr>wk_queue := wk_queue wk @ [j]\<rparr>) c)\<lparr>cf_pc := Sending jobs block events\<rparr>)"
| send_fails: "cf_pc c = Sending ((i, j) # jobs) block events \<Longrightarrow> i < length (cf_workers c) \<Longrightarrow>
     wk_pc (cf_workers c ! i) = Gone \<Longrightarrow> cf_events c = ev # evs \<Longrightarrow>
     load_step env c Tau (stop (dispatch_failure (Some ev)) (c\<lparr>cf_events := evs\<rparr>))"
| send_fails_all_gone: "cf_pc c = Sending ((i, j) # jobs) block events \<Longrightarrow> i < length (cf_workers c) \<Longrightarrow>
     wk_pc (cf_workers c ! i) = Gone \<Longrightarrow> cf_events c = [] \<Longrightarrow> all_gone (cf_workers c) \<Longrightarrow>
     load_step env c Tau (stop pool_stopped c)"
| sent_all: "cf_pc c = Sending [] block events \<Longrightarrow> load_step env c Tau (sent_turn block events c)"
| collects: "cf_pc c = Collecting co events \<Longrightarrow> co_acked co < en_threads env \<Longrightarrow> cf_events c = Closed cl # evs \<Longrightarrow>
     load_step env c Tau (c\<lparr>cf_events := evs, cf_pc := Collecting (collect cl co) events\<rparr>)"
| collect_fails: "cf_pc c = Collecting co events \<Longrightarrow> co_acked co < en_threads env \<Longrightarrow> cf_events c = Failed e # evs \<Longrightarrow>
     load_step env c Tau (stop e (c\<lparr>cf_events := evs\<rparr>))"
| collect_all_gone: "cf_pc c = Collecting co events \<Longrightarrow> co_acked co < en_threads env \<Longrightarrow> cf_events c = [] \<Longrightarrow>
     all_gone (cf_workers c) \<Longrightarrow> load_step env c Tau (stop pool_stopped c)"
| collected_all: "cf_pc c = Collecting co events \<Longrightarrow> en_threads env \<le> co_acked co \<Longrightarrow>
     load_step env c Tau (done_turn env co events c)"
| commits: "cf_pc c = Committing dumped_by targets outcomes n \<Longrightarrow> i < length targets \<Longrightarrow>
     i < open_concurrency (en_config env) \<Longrightarrow>
     commit_turn (en_delta env) (lc_mode (en_config env)) (targets ! i) (cf_world c) = (r, w) \<Longrightarrow>
     load_step env c (Committed (ct_qualified (targets ! i)) r)
       (c\<lparr>cf_world := w, cf_pc := Committing dumped_by (take i targets @ drop (i + 1) targets)
            (outcomes @ [(ct_qualified (targets ! i), r)]) n\<rparr>)"
| concludes: "cf_pc c = Committing dumped_by [] outcomes n \<Longrightarrow>
     load_step env c Concluded (conclude_turn env dumped_by outcomes n c)"
| works: "i < length (cf_workers c) \<Longrightarrow> cf_workers c ! i = wk \<Longrightarrow> wk_pc wk = Working \<Longrightarrow> wk_queue wk = j # q \<Longrightarrow>
     job_step (en_arrow env) (en_delta env) j (wk_state wk) (cf_world c) = (r, w) \<Longrightarrow>
     load_step env c Tau ((set_worker i (after_job r (wk\<lparr>wk_queue := q\<rparr>)) c)\<lparr>cf_world := w\<rparr>)"
| tells: "i < length (cf_workers c) \<Longrightarrow> cf_workers c ! i = wk \<Longrightarrow> wk_pc wk = Telling ev \<Longrightarrow>
     length (cf_events c) < event_capacity (en_threads env) \<Longrightarrow>
     load_step env c Tau ((set_worker i (wk\<lparr>wk_pc := after_telling ev\<rparr>) c)\<lparr>cf_events := cf_events c @ [ev]\<rparr>)"
| retires: "i < length (cf_workers c) \<Longrightarrow> cf_workers c ! i = wk \<Longrightarrow> wk_pc wk = Working \<Longrightarrow> wk_queue wk = [] \<Longrightarrow>
     cf_pc c = Finished r \<Longrightarrow> load_step env c Tau (set_worker i (wk\<lparr>wk_pc := Leaving\<rparr>) c)"
| leaves: "i < length (cf_workers c) \<Longrightarrow> cf_workers c ! i = wk \<Longrightarrow> wk_pc wk = Leaving \<Longrightarrow>
     load_step env c Tau (set_worker i (wk\<lparr>wk_pc := Gone, wk_queue := []\<rparr>) c)"
| preloads: "t < length (cf_tasks c) \<Longrightarrow> cf_tasks c ! t = Loading name \<Longrightarrow>
     preload_table (en_delta env) (en_alnum env) (lc_output_uri (en_config env)) name (en_store env)
       (lc_storage_options (en_config env)) (cf_world c) = (r, w) \<Longrightarrow>
     load_step env c Tau (c\<lparr>cf_tasks := (cf_tasks c)[t := Loaded r], cf_world := w\<rparr>)"

text \<open>
  The input \<open>drive\<close> reads: the opened location behind a reader that counts the bytes taken before
  decompression (\<open>CountingReader\<close>), decompressed, and cut into chunks of at most the row limit. The gzip
  decoder is a parameter; \<open>gz_inner\<close> is the stream it wraps.
\<close>

record 's counting =
  ct_inner :: 's
  ct_count :: nat

definition counting_read :: "'s reader \<Rightarrow> 's counting reader" where
  "counting_read rd s n =
     (case rd (ct_inner s) n of
        (Inl m, inner) \<Rightarrow> (Inl m, s\<lparr>ct_inner := inner\<rparr>)
      | (Inr got, inner) \<Rightarrow> (Inr got, \<lparr>ct_inner = inner, ct_count = ct_count s + length got\<rparr>))"

definition max_chunk_of :: "load_config \<Rightarrow> nat" where
  "max_chunk_of config = max (max_row_bytes (lc_limits config)) DEFAULT_CHUNK_BYTES"

definition open_input ::
  "'s reader \<Rightarrow> ('s counting chain \<Rightarrow> 'g) \<Rightarrow> load_config \<Rightarrow> 's \<Rightarrow> (compression \<times> ('s counting, 'g) opened chunk_reader) res" where
  "open_input rd gz_new config input =
     and_then (decompressed (counting_read rd) gz_new \<lparr>ct_inner = input, ct_count = 0\<rparr>) (\<lambda>(compression, reader).
       Inr (compression, with_limits reader DEFAULT_CHUNK_BYTES (max_chunk_of config)))"

fun bytes_consumed :: "('g \<Rightarrow> 's counting) \<Rightarrow> ('s counting, 'g) opened \<Rightarrow> nat" where
  "bytes_consumed gz_inner (OpenPlain c) = ct_count (ch_second c)"
| "bytes_consumed gz_inner (OpenGzip g) = ct_count (gz_inner g)"

text \<open>
  \<open>execute\<close>: managed storage is refused and the store resolved before anything starts; a run of the system
  from the opened input gives the outcome when the reader is done and every worker has been joined.
\<close>

definition pool_size :: "load_config \<Rightarrow> nat option \<Rightarrow> nat" where
  "pool_size config parallelism =
     (if lc_threads config = 0 then (case parallelism of Some n \<Rightarrow> n | None \<Rightarrow> 4) else lc_threads config)"

inductive executes ::
  "('f, 'b, 'a, 'r, 'w, 's, 't, 'k, 'x, 'm, 'v, 'i) loader_env \<Rightarrow> nat option \<Rightarrow> 'i res \<Rightarrow> 'w \<Rightarrow> load_report res \<Rightarrow> 'w \<Rightarrow> bool"
  for env parallelism opened w where
  refused: "reject_managed_storage (lc_output_uri (en_config env)) = Inl e \<Longrightarrow> executes env parallelism opened w (Inl e) w"
| no_store: "reject_managed_storage (lc_output_uri (en_config env)) = Inr () \<Longrightarrow>
     shared_store_resolve (en_delta env) (lc_output_uri (en_config env)) (lc_storage_options (en_config env)) w = (Inl e, w1) \<Longrightarrow>
     executes env parallelism opened w (Inl e) w1"
| no_input: "reject_managed_storage (lc_output_uri (en_config env)) = Inr () \<Longrightarrow>
     shared_store_resolve (en_delta env) (lc_output_uri (en_config env)) (lc_storage_options (en_config env)) w = (Inr store, w1) \<Longrightarrow>
     opened = Inl e \<Longrightarrow> executes env parallelism opened w (Inl e) w1"
| ran: "reject_managed_storage (lc_output_uri (en_config env)) = Inr () \<Longrightarrow>
     shared_store_resolve (en_delta env) (lc_output_uri (en_config env)) (lc_storage_options (en_config env)) w = (Inr store, w1) \<Longrightarrow>
     opened = Inr input \<Longrightarrow>
     run (load_step (env\<lparr>en_store := store, en_threads := pool_size (en_config env) parallelism\<rparr>))
       (start_config (env\<lparr>en_store := store, en_threads := pool_size (en_config env) parallelism\<rparr>) input w1) ls c \<Longrightarrow>
     cf_pc c = Finished r \<Longrightarrow> all_gone (cf_workers c) \<Longrightarrow>
     executes env parallelism opened w r (cf_world c)"

end
