(* ===== verification/Load_Pool.thy ===== *)
theory Load_Pool
  imports Load_Pipeline
begin

section \<open>The invariant of the decode pool\<close>

text \<open>
  What every reachable configuration satisfies: how the stage of the reader, the jobs on their way, the
  state of each worker and the events in the queue fit together. Jobs the reader has yet to send are
  counted as if they were in the queue already (\<open>with_pending\<close>), so sending changes nothing here.
\<close>

subsection \<open>Counting over the workers\<close>

definition tallied :: "('a \<Rightarrow> nat) \<Rightarrow> 'a list \<Rightarrow> nat" where
  "tallied f xs = sum_list (map f xs)"

lemma tallied_simps [simp]: "tallied f [] = 0" "tallied f (x # xs) = f x + tallied f xs"
  "tallied f (xs @ ys) = tallied f xs + tallied f ys" "tallied f (replicate n x) = n * f x"
  by (simp_all add: tallied_def sum_list_replicate)

lemma tallied_at: "i < length xs \<Longrightarrow> tallied f (xs[i := y]) + f (xs ! i) = tallied f xs + f y"
proof (induction xs arbitrary: i)
  case (Cons x xs)
  then show ?case by (cases i) auto
qed simp

lemma tallied_le: "(\<And>x. x \<in> set xs \<Longrightarrow> f x \<le> g x) \<Longrightarrow> tallied f xs \<le> tallied g xs"
  by (induction xs) (auto intro: add_mono)

lemma tallied_cong: "(\<And>x. x \<in> set xs \<Longrightarrow> f x = g x) \<Longrightarrow> tallied f xs = tallied g xs"
  by (induction xs) auto

lemma tallied_bound: "(\<And>x. x \<in> set xs \<Longrightarrow> f x \<le> 1) \<Longrightarrow> tallied f xs \<le> length xs"
  using tallied_le[of xs f "\<lambda>_. 1"] by (simp add: tallied_def sum_list_triv)

lemma tallied_add: "tallied (\<lambda>x. f x + g x) xs = tallied f xs + tallied g xs"
  by (induction xs) auto

lemma tallied_0_iff: "tallied f xs = 0 \<longleftrightarrow> (\<forall>x \<in> set xs. f x = 0)"
  by (induction xs) auto

lemma tallied_filter: "tallied (\<lambda>x. of_bool (P x)) xs = length (filter P xs)"
  by (induction xs) auto

lemma list_all_update: "list_all P xs \<Longrightarrow> P y \<Longrightarrow> list_all P (xs[i := y])"
  by (auto simp: list_all_iff dest: set_update_subset_insert[THEN subsetD])

lemma list_all_at: "list_all P xs \<Longrightarrow> i < length xs \<Longrightarrow> P (xs ! i)"
  by (simp add: list_all_length)

subsection \<open>Jobs on their way\<close>

definition jobs_for :: "nat \<Rightarrow> (nat \<times> job) list \<Rightarrow> job list" where
  "jobs_for i jobs = map snd (filter (\<lambda>(k, _). k = i) jobs)"

lemma jobs_for_simps [simp]: "jobs_for i [] = []"
  "jobs_for i ((k, j) # jobs) = (if k = i then j # jobs_for i jobs else jobs_for i jobs)"
  by (simp_all add: jobs_for_def)

definition with_pending :: "(nat \<times> job) list \<Rightarrow> ('b, 'v, 'x, 'm) pool_worker list \<Rightarrow> ('b, 'v, 'x, 'm) pool_worker list" where
  "with_pending jobs wks = map (\<lambda>i. (wks ! i)\<lparr>wk_queue := wk_queue (wks ! i) @ jobs_for i jobs\<rparr>) [0..<length wks]"

lemma length_with_pending [simp]: "length (with_pending jobs wks) = length wks"
  by (simp add: with_pending_def)

lemma nth_with_pending [simp]:
  "i < length wks \<Longrightarrow> with_pending jobs wks ! i = (wks ! i)\<lparr>wk_queue := wk_queue (wks ! i) @ jobs_for i jobs\<rparr>"
  by (simp add: with_pending_def)

lemma with_pending_Nil [simp]: "with_pending [] wks = wks"
  by (auto intro: nth_equalityI)

lemma with_pending_update: "i < length wks \<Longrightarrow>
    with_pending jobs (wks[i := wk]) = (with_pending jobs wks)[i := wk\<lparr>wk_queue := wk_queue wk @ jobs_for i jobs\<rparr>]"
  by (rule nth_equalityI) (auto simp: nth_list_update)

lemma with_pending_sent: "i < length wks \<Longrightarrow>
    with_pending jobs (wks[i := (wks ! i)\<lparr>wk_queue := wk_queue (wks ! i) @ [j]\<rparr>]) = with_pending ((i, j) # jobs) wks"
  by (rule nth_equalityI) (auto simp: nth_list_update)

lemma jobs_for_to_all: "jobs_for i (to_all n j) = (if i < n then [j] else [])"
  by (induction n) (auto simp: to_all_def jobs_for_def)

lemma with_pending_all: "with_pending (to_all (length wks) j) wks = map (\<lambda>wk. wk\<lparr>wk_queue := wk_queue wk @ [j]\<rparr>) wks"
  by (rule nth_equalityI) (auto simp: jobs_for_to_all)

lemma with_pending_one: "k < length wks \<Longrightarrow>
    with_pending [(k, j)] wks = wks[k := (wks ! k)\<lparr>wk_queue := wk_queue (wks ! k) @ [j]\<rparr>]"
  using with_pending_sent[of k wks "[]" j] by simp

subsection \<open>Stages\<close>

text \<open>No block, a block being fed, a block being closed with so many acknowledgements, or the reader done.\<close>

datatype stage = Idle | Opened nat | Closing nat nat | Over

definition lost :: "('b, 'v, 'x, 'm) pool_worker \<Rightarrow> bool" where
  "lost wk \<longleftrightarrow> (case wk_pc wk of Working \<Rightarrow> False | Telling (Closed _) \<Rightarrow> False | _ \<Rightarrow> True)"

fun job_of :: "nat \<Rightarrow> job \<Rightarrow> bool" where
  "job_of g (Open ctx) = (cx_generation ctx = g)"
| "job_of g (Rows g' _) = (g' = g)"
| "job_of g (Close _) = False"

fun is_close :: "job \<Rightarrow> bool" where
  "is_close (Close _) = True"
| "is_close _ = False"

lemma job_of_not_close: "job_of g j \<Longrightarrow> \<not> is_close j"
  by (cases j) auto

definition closes_last :: "job list \<Rightarrow> bool" where
  "closes_last q \<longleftrightarrow> list_all (\<lambda>j. \<not> is_close j) (butlast q)"

lemma closes_last_simps [simp]: "closes_last []" "closes_last [j]"
  "closes_last (j # k # q) \<longleftrightarrow> \<not> is_close j \<and> closes_last (k # q)"
  by (simp_all add: closes_last_def)

lemma closes_last_prefix: "closes_last (q @ q') \<Longrightarrow> closes_last q"
  by (cases q') (auto simp: closes_last_def butlast_append dest: in_set_butlastD simp: list_all_iff)

lemma closes_last_snoc: "list_all (\<lambda>j. \<not> is_close j) q \<Longrightarrow> closes_last (q @ [j])"
  by (simp add: closes_last_def)

definition at_rest :: "('b, 'v, 'x, 'm) pool_worker \<Rightarrow> bool" where
  "at_rest wk \<longleftrightarrow> wk_pc wk = Working \<and> wk_queue wk = []"

definition acknowledging :: "('b, 'v, 'x, 'm) pool_worker \<Rightarrow> bool" where
  "acknowledging wk \<longleftrightarrow> (\<exists>cl. wk_pc wk = Telling (Closed cl)) \<and> wk_queue wk = []"

fun worker_fits :: "stage \<Rightarrow> ('b, 'v, 'x, 'm) pool_worker \<Rightarrow> bool" where
  "worker_fits Idle wk = at_rest wk"
| "worker_fits (Opened g) wk = (wk_pc wk = Working \<and> list_all (job_of g) (wk_queue wk) \<or> lost wk)"
| "worker_fits (Closing g a) wk =
     (wk_pc wk = Working \<and> wk_queue wk \<noteq> [] \<and> last (wk_queue wk) = Close g \<and> list_all (job_of g) (butlast (wk_queue wk))
      \<or> at_rest wk \<or> acknowledging wk \<or> lost wk)"
| "worker_fits Over wk = (wk_pc wk = Working \<and> closes_last (wk_queue wk) \<or> acknowledging wk \<or> lost wk)"

definition busy :: "('b, 'v, 'x, 'm) pool_worker \<Rightarrow> nat" where
  "busy wk = (case wk_pc wk of Working \<Rightarrow> of_bool (wk_queue wk \<noteq> []) | Telling _ \<Rightarrow> 1 | _ \<Rightarrow> 0)"

definition away :: "('b, 'v, 'x, 'm) pool_worker \<Rightarrow> nat" where
  "away wk = (case wk_pc wk of Working \<Rightarrow> 0 | Telling _ \<Rightarrow> 0 | _ \<Rightarrow> 1)"

fun failing :: "('x, 'm) worker_event \<Rightarrow> nat" where
  "failing (Failed _) = 1"
| "failing (Closed _) = 0"

text \<open>
  The events in the queue: none between blocks; a failure for each worker that is away; and while a block
  is closing, each worker's acknowledgement is collected, in the queue or still owed.
\<close>

fun events_fit :: "stage \<Rightarrow> ('b, 'v, 'x, 'm) pool_worker list \<Rightarrow> ('x, 'm) worker_event list \<Rightarrow> bool" where
  "events_fit Idle vs evs = (evs = [])"
| "events_fit (Opened g) vs evs = (tallied failing evs = tallied away vs \<and> length evs = tallied failing evs)"
| "events_fit (Closing g a) vs evs =
     (tallied failing evs = tallied away vs \<and> a + length evs + tallied busy vs = length vs)"
| "events_fit Over vs evs = (length evs + tallied busy vs \<le> length vs)"

definition pool_ok :: "stage \<Rightarrow> ('b, 'v, 'x, 'm) pool_worker list \<Rightarrow> ('x, 'm) worker_event list \<Rightarrow> bool" where
  "pool_ok st vs evs \<longleftrightarrow> list_all (worker_fits st) vs \<and> events_fit st vs evs"

subsection \<open>What a worker does\<close>

lemma job_step_result:
  assumes "job_step A D j ws w = (r, w')"
  obtains "r = None" | e where "r = Some (Inl e)"
  | ws' where "r = Some (Inr (ws', None))" "\<not> is_close j"
  | ws' cl where "r = Some (Inr (ws', Some (Closed cl)))" "is_close j"
  using assms
  by (cases j) (auto simp: job_step_def Let_def then_o_def split: option.splits sum.splits prod.splits)

lemma after_job_cases:
  assumes "job_step A D j ws w = (r, w')"
  obtains (lost) e where "after_job r wk = wk\<lparr>wk_pc := Telling (Failed e)\<rparr>"
  | (more) ws' where "after_job r wk = wk\<lparr>wk_state := ws'\<rparr>" "\<not> is_close j" "r = Some (Inr (ws', None))"
  | (closed) ws' cl where "after_job r wk = wk\<lparr>wk_state := ws', wk_pc := Telling (Closed cl)\<rparr>" "is_close j"
      "r = Some (Inr (ws', Some (Closed cl)))"
  using assms
proof (cases rule: job_step_result)
  case 1
  then show ?thesis using lost by (simp add: after_job_def)
next
  case (2 e)
  then show ?thesis using lost by (simp add: after_job_def)
next
  case (3 ws')
  then show ?thesis using more by (simp add: after_job_def)
next
  case (4 ws' cl)
  then show ?thesis using closed by (simp add: after_job_def)
qed

lemmas worker_simps = at_rest_def acknowledging_def lost_def busy_def away_def

lemma fits_after_job:
  assumes f: "worker_fits st wk" and wk: "wk_pc wk = Working" "wk_queue wk = j # q" and j: "job_step A D j ws w = (r, w')"
  defines "wk' \<equiv> after_job r (wk\<lparr>wk_queue := q\<rparr>)"
  shows "worker_fits st wk'" "busy wk' \<le> busy wk" "away wk' = away wk" "st = Closing g a \<Longrightarrow> busy wk' = busy wk"
proof -
  have "worker_fits st wk' \<and> busy wk' \<le> busy wk \<and> away wk' = away wk \<and> (\<forall>g a. st = Closing g a \<longrightarrow> busy wk' = busy wk)"
    using j
  proof (cases rule: after_job_cases[where wk = "wk\<lparr>wk_queue := q\<rparr>"])
    case (lost e)
    then show ?thesis using f wk by (cases st) (auto simp: worker_simps wk'_def)
  next
    case (more ws')
    have "q \<noteq> []" if "last (j # q) = Close g" for g
      using that more(2) by auto
    then show ?thesis using f wk more
      by (cases st; cases q) (auto simp: worker_simps wk'_def)
  next
    case (closed ws' cl)
    have nj: "\<not> job_of g j" for g using closed(2) job_of_not_close by blast
    then have "st = Opened g \<Longrightarrow> False" for g using f wk by (auto simp: worker_simps)
    moreover have "q = []" if "st = Closing g a \<or> st = Over" for g a
      using that f wk nj closed(2) by (cases q) (auto simp: worker_simps)
    ultimately show ?thesis using f wk closed by (cases st) (auto simp: worker_simps wk'_def)
  qed
  then show "worker_fits st wk'" "busy wk' \<le> busy wk" "away wk' = away wk" "st = Closing g a \<Longrightarrow> busy wk' = busy wk" by auto
qed

lemma pool_works:
  assumes ok: "pool_ok st vs evs" and i: "i < length vs" "vs ! i = wk" and wk: "wk_pc wk = Working" "wk_queue wk = j # q"
    and j: "job_step A D j ws w = (r, w')"
  shows "pool_ok st (vs[i := after_job r (wk\<lparr>wk_queue := q\<rparr>)]) evs"
proof -
  let ?wk = "after_job r (wk\<lparr>wk_queue := q\<rparr>)"
  have f: "worker_fits st wk" using ok i list_all_at unfolding pool_ok_def by metis
  note w = fits_after_job[OF f wk j]
  have b: "tallied busy (vs[i := ?wk]) + busy wk = tallied busy vs + busy ?wk"
    and a: "tallied away (vs[i := ?wk]) + away wk = tallied away vs + away ?wk"
    using tallied_at[OF i(1)] i(2) by metis+
  show ?thesis using ok a b w list_all_update[of "worker_fits st" vs ?wk i] unfolding pool_ok_def by (cases st) auto
qed

lemma pool_tells:
  assumes ok: "pool_ok st vs evs" and i: "i < length vs" "vs ! i = wk" and wk: "wk_pc wk = Telling ev"
  shows "pool_ok st (vs[i := wk\<lparr>wk_pc := after_telling ev\<rparr>]) (evs @ [ev])"
proof -
  let ?wk = "wk\<lparr>wk_pc := after_telling ev\<rparr>"
  have f: "worker_fits st wk" using ok i list_all_at unfolding pool_ok_def by metis
  have g: "worker_fits st ?wk" "busy wk = 1" "away wk = 0" "away ?wk = failing ev" "busy ?wk = 0" "st \<noteq> Idle"
    "st = Opened g \<Longrightarrow> failing ev = 1" for g
    using f wk by (cases st; cases ev; auto simp: worker_simps)+
  have b: "tallied busy (vs[i := ?wk]) + busy wk = tallied busy vs + busy ?wk"
    and a: "tallied away (vs[i := ?wk]) + away wk = tallied away vs + away ?wk"
    using tallied_at[OF i(1)] i(2) by metis+
  show ?thesis using ok a b g list_all_update[of "worker_fits st" vs ?wk i] unfolding pool_ok_def by (cases st) auto
qed

lemma pool_leaves:
  assumes ok: "pool_ok st vs evs" and i: "i < length vs" "vs ! i = wk" and wk: "wk_pc wk = Leaving"
  shows "pool_ok st (vs[i := wk\<lparr>wk_pc := Gone, wk_queue := q\<rparr>]) evs"
proof -
  let ?wk = "wk\<lparr>wk_pc := Gone, wk_queue := q\<rparr>"
  have f: "worker_fits st wk" using ok i list_all_at unfolding pool_ok_def by metis
  have g: "worker_fits st ?wk" "busy wk = 0" "away wk = 1" "away ?wk = 1" "busy ?wk = 0"
    using f wk by (cases st; auto simp: worker_simps)+
  have b: "tallied busy (vs[i := ?wk]) + busy wk = tallied busy vs + busy ?wk"
    and a: "tallied away (vs[i := ?wk]) + away wk = tallied away vs + away ?wk"
    using tallied_at[OF i(1)] i(2) by metis+
  show ?thesis using ok a b g list_all_update[of "worker_fits st" vs ?wk i] unfolding pool_ok_def by (cases st) auto
qed

lemma pool_retires:
  assumes ok: "pool_ok Over vs evs" and i: "i < length vs" "vs ! i = wk"
  shows "pool_ok Over (vs[i := wk\<lparr>wk_pc := Leaving\<rparr>]) evs"
proof -
  let ?wk = "wk\<lparr>wk_pc := Leaving\<rparr>"
  have "worker_fits Over ?wk" "busy ?wk = 0" by (simp_all add: worker_simps)
  moreover have "tallied busy (vs[i := ?wk]) + busy wk = tallied busy vs + busy ?wk"
    using tallied_at[OF i(1)] i(2) by metis
  ultimately show ?thesis using ok list_all_update[of "worker_fits Over" vs ?wk i] by (simp add: pool_ok_def)
qed

subsection \<open>What the reader does\<close>

lemma pool_opens:
  assumes "pool_ok Idle vs evs" "job_of g j"
  shows "pool_ok (Opened g) (map (\<lambda>wk. wk\<lparr>wk_queue := wk_queue wk @ [j]\<rparr>) vs) evs"
proof -
  have "tallied away (map (\<lambda>wk. wk\<lparr>wk_queue := wk_queue wk @ [j]\<rparr>) vs) = 0"
    using assms by (auto simp: pool_ok_def list_all_iff worker_simps tallied_0_iff)
  then show ?thesis using assms by (auto simp: pool_ok_def list_all_iff worker_simps)
qed

lemma pool_feeds:
  assumes ok: "pool_ok (Opened g) vs evs" and k: "k < length vs" and j: "job_of g j"
  shows "pool_ok (Opened g) (vs[k := (vs ! k)\<lparr>wk_queue := wk_queue (vs ! k) @ [j]\<rparr>]) evs"
proof -
  let ?wk = "(vs ! k)\<lparr>wk_queue := wk_queue (vs ! k) @ [j]\<rparr>"
  have f: "worker_fits (Opened g) (vs ! k)" using ok k list_all_at unfolding pool_ok_def by metis
  then have "worker_fits (Opened g) ?wk" "away ?wk = away (vs ! k)" using j by (auto simp: worker_simps)
  moreover have "tallied away (vs[k := ?wk]) + away (vs ! k) = tallied away vs + away ?wk"
    using tallied_at[OF k] by metis
  ultimately show ?thesis using ok list_all_update[of "worker_fits (Opened g)" vs ?wk k] by (simp add: pool_ok_def)
qed

lemma pool_closes:
  assumes ok: "pool_ok (Opened g) vs evs"
  shows "pool_ok (Closing g 0) (map (\<lambda>wk. wk\<lparr>wk_queue := wk_queue wk @ [Close g]\<rparr>) vs) evs"
proof -
  let ?vs = "map (\<lambda>wk. wk\<lparr>wk_queue := wk_queue wk @ [Close g]\<rparr>) vs"
  have f: "list_all (worker_fits (Opened g)) vs" using ok by (simp add: pool_ok_def)
  then have "list_all (worker_fits (Closing g 0)) ?vs" by (auto simp: list_all_iff worker_simps)
  moreover have "tallied away ?vs = tallied away vs"
    unfolding tallied_def by (simp add: comp_def away_def[abs_def])
  moreover have "tallied busy ?vs + tallied away vs = length vs"
    using f by (induction vs) (auto simp: worker_simps split: worker_pc.splits worker_event.splits)
  ultimately show ?thesis using ok by (auto simp: pool_ok_def)
qed

lemma pool_collects:
  assumes ok: "pool_ok (Closing g a) vs (Closed cl # evs)"
  shows "pool_ok (Closing g (Suc a)) vs evs"
  using ok by (auto simp: pool_ok_def list_all_iff)

lemma pool_closed:
  assumes ok: "pool_ok (Closing g a) vs evs" "length vs \<le> a"
  shows "pool_ok Idle vs evs"
proof -
  have "a + length evs + tallied busy vs = length vs" and f: "tallied failing evs = tallied away vs"
    using ok(1) by (simp_all add: pool_ok_def)
  then have "length evs = 0" "tallied busy vs = 0" using ok(2) by linarith+
  with f have e: "evs = []" and z: "\<forall>wk \<in> set vs. away wk = 0 \<and> busy wk = 0" by (simp_all add: tallied_0_iff)
  have "at_rest wk" if "away wk = 0" "busy wk = 0" for wk :: "('a, 'b, 'c, 'd) pool_worker"
    using that by (cases "wk_pc wk") (auto simp: worker_simps)
  then show ?thesis using e z by (simp add: pool_ok_def list_all_iff)
qed

lemma pool_bound:
  assumes ok: "pool_ok st vs evs"
  shows "length evs + tallied busy vs \<le> length vs"
proof -
  have "tallied busy vs + tallied away vs \<le> length vs"
    unfolding tallied_add[symmetric] by (rule tallied_bound) (auto simp: worker_simps split: worker_pc.splits)
  moreover have "tallied busy vs = 0" if "st = Idle"
    using ok that by (auto simp: pool_ok_def tallied_0_iff list_all_iff worker_simps)
  ultimately show ?thesis using ok by (cases st) (auto simp: pool_ok_def)
qed

text \<open>Stopping drops the jobs not yet sent.\<close>

lemma pool_stops:
  assumes ok: "pool_ok st (with_pending jobs wks) evs" and e: "length evs' \<le> length evs"
  shows "pool_ok Over wks evs'"
proof -
  have f: "worker_fits Over wk" "busy wk \<le> busy (wk\<lparr>wk_queue := wk_queue wk @ q\<rparr>)"
    if "worker_fits st (wk\<lparr>wk_queue := wk_queue wk @ q\<rparr>)" for wk q
  proof -
    have "closes_last (wk_queue wk)" if "list_all (job_of g) (wk_queue wk @ q)" for g
      using that by (auto simp: closes_last_def list_all_iff dest: in_set_butlastD job_of_not_close)
    moreover have "closes_last (wk_queue wk)" if "list_all (job_of g) (butlast (wk_queue wk @ q))" for g
      using that closes_last_prefix[of "wk_queue wk" q] job_of_not_close by (fastforce simp: closes_last_def list_all_iff)
    ultimately show "worker_fits Over wk"
      using that closes_last_prefix by (cases st) (auto simp: worker_simps)
    show "busy wk \<le> busy (wk\<lparr>wk_queue := wk_queue wk @ q\<rparr>)"
      by (auto simp: busy_def split: worker_pc.splits)
  qed
  have "worker_fits st ((wks ! i)\<lparr>wk_queue := wk_queue (wks ! i) @ jobs_for i jobs\<rparr>)" if "i < length wks" for i
    using ok that by (auto simp: pool_ok_def list_all_length)
  note at = this
  have "list_all (worker_fits Over) wks" using at f(1) by (auto simp: list_all_length)
  moreover have "tallied busy wks \<le> tallied busy (with_pending jobs wks)"
    unfolding tallied_def using at f(2) by (intro sum_list_mono2) auto
  moreover have "length evs + tallied busy (with_pending jobs wks) \<le> length wks"
    using pool_bound[OF ok] by simp
  ultimately show ?thesis using e by (simp add: pool_ok_def)
qed

subsection \<open>Configurations\<close>

fun jobs_of :: "('t, 'x, 'm) reader_pc \<Rightarrow> (nat \<times> job) list" where
  "jobs_of (Sending jobs _ _) = jobs"
| "jobs_of _ = []"

definition block_stage :: "open_block option \<Rightarrow> stage" where
  "block_stage b = (case b of None \<Rightarrow> Idle | Some b \<Rightarrow> Opened (ob_generation b))"

lemma block_stage_simps [simp]: "block_stage None = Idle" "block_stage (Some b) = Opened (ob_generation b)"
  by (simp_all add: block_stage_def)

fun stage_of :: "('t, 'x, 'm) reader_pc \<Rightarrow> open_block option \<Rightarrow> stage" where
  "stage_of (Finished _) current = Over"
| "stage_of (Sending _ (Some b) _) current = Closing (ob_generation b) 0"
| "stage_of (Collecting co _) current = Closing (ob_generation (co_block co)) (co_acked co)"
| "stage_of _ current = block_stage current"

fun between :: "('t, 'x, 'm) reader_pc \<Rightarrow> bool" where
  "between (Sending _ (Some _) _) = True"
| "between (Collecting _ _) = True"
| "between _ = False"

definition load_ok :: "('f, 'b, 'a, 'r, 'w, 's, 't, 'k, 'x, 'm, 'v, 'i) loader_env
    \<Rightarrow> ('b, 'v, 't, 'k, 'x, 'm, 'i, 'w) config \<Rightarrow> bool" where
  "load_ok env c \<longleftrightarrow>
     length (cf_workers c) = en_threads env
     \<and> (\<forall>(i, j) \<in> set (jobs_of (cf_pc c)). i < en_threads env)
     \<and> (between (cf_pc c) \<longrightarrow> ld_current (cf_loader c) = None)
     \<and> (\<forall>name t. ld_preloads (cf_loader c) name = Some t \<longrightarrow> t < length (cf_tasks c))
     \<and> pool_ok (stage_of (cf_pc c) (ld_current (cf_loader c))) (with_pending (jobs_of (cf_pc c)) (cf_workers c)) (cf_events c)"

lemma start_ok: "0 < en_threads env \<Longrightarrow> load_ok env (start_config env input w)"
  by (simp add: load_ok_def start_config_def new_loader_def pool_ok_def idle_worker_def at_rest_def list_all_iff)

subsection \<open>The reader's turns by their cases\<close>

lemma event_turnE:
  assumes "event_turn env events c = Some c'"
  obtains (interrupted) e where "events = []" "notify (en_callback env) None (cf_loader c) = Inl e" "c' = stop e c"
  | (read_on) ld where "events = []" "notify (en_callback env) None (cf_loader c) = Inr ld"
      "c' = c\<lparr>cf_loader := ld, cf_pc := ReadChunk\<rparr>"
  | (failed) ev others e tasks w where "events = ev # others"
      "on_event env ev (cf_loader c) (cf_tasks c) (cf_world c) = Some (Inl e, tasks, w)"
      "c' = stop e (c\<lparr>cf_tasks := tasks, cf_world := w\<rparr>)"
  | (proceeded) ev others ld tasks w where "events = ev # others"
      "on_event env ev (cf_loader c) (cf_tasks c) (cf_world c) = Some (Inr (Proceed ld), tasks, w)"
      "c' = c\<lparr>cf_tasks := tasks, cf_world := w, cf_loader := ld, cf_pc := Handling others\<rparr>"
  | (dispatched) ev others ld jobs block tasks w where "events = ev # others"
      "on_event env ev (cf_loader c) (cf_tasks c) (cf_world c) = Some (Inr (Dispatch ld jobs block), tasks, w)"
      "c' = c\<lparr>cf_tasks := tasks, cf_world := w, cf_loader := ld, cf_pc := Sending jobs block others\<rparr>"
proof (cases events)
  case Nil
  then show ?thesis using assms interrupted read_on by (cases "notify (en_callback env) None (cf_loader c)") (auto simp: event_turn_def)
next
  case (Cons ev others)
  then obtain r tasks w where o: "on_event env ev (cf_loader c) (cf_tasks c) (cf_world c) = Some (r, tasks, w)"
    using assms by (auto simp: event_turn_def)
  show ?thesis
  proof (cases r)
    case (Inl e)
    then show ?thesis using assms Cons o failed by (simp add: event_turn_def Let_def)
  next
    case (Inr y)
    then show ?thesis using assms Cons o proceeded dispatched by (cases y) (auto simp: event_turn_def Let_def)
  qed
qed

lemma read_turnE:
  assumes "read_turn env c = Some c'"
  obtains (failed) e where "c' = stop e c"
  | (ended) input dumped_by targets where "en_next env (ld_input (cf_loader c)) = Some (Inr None, input)"
      "end_of_input ((cf_loader c)\<lparr>ld_input := input, ld_preloads := Map.empty\<rparr>) = Inr (dumped_by, targets)"
      "c' = c\<lparr>cf_loader := (cf_loader c)\<lparr>ld_input := input, ld_preloads := Map.empty\<rparr>,
              cf_pc := Committing dumped_by targets [] (length targets)\<rparr>"
  | (fed) chunk input scanner events where "en_next env (ld_input (cf_loader c)) = Some (Inr (Some chunk), input)"
      "feed chunk (ld_scanner (cf_loader c)) = Inr (scanner, events)"
      "c' = c\<lparr>cf_loader := (cf_loader c)\<lparr>ld_input := input, ld_bytes_read := en_count env input, ld_scanner := scanner\<rparr>,
              cf_pc := Handling events\<rparr>"
  using assms failed ended fed by (auto simp: read_turn_def Let_def split: option.splits sum.splits prod.splits)

lemma on_event_tasks:
  assumes "on_event env ev ld tasks w = Some (r, tasks', w')"
  shows "tasks' = tasks \<or> (\<exists>name. tasks' = tasks @ [Loading name] \<and> w' = w)"
  using assms by (auto simp: on_event_def on_table_def Let_def split: event.splits if_splits)

text \<open>What an event does to the block that is open.\<close>

definition schema_of_pairs :: "load_config \<Rightarrow> (bytes \<times> resolved_type) list \<Rightarrow> arrow_schema" where
  "schema_of_pairs config pairs =
     Arrow_Build.arrow_schema pairs (lc_wide_numeric_as_decimal config) (lc_native_arrays config)"

lemma start_blockE:
  assumes "start_block env table pairs ld p w = (Inr y, w')"
  obtains q opened where "p = Inr q"
    "finish_open (en_delta env) q table (schema_of_pairs (en_config env) pairs) (lc_mode (en_config env)) w = (Inr opened, w')"
    "y = Dispatch (ld\<lparr>ld_targets := ld_targets ld @ [target_for table (schema_of_pairs (en_config env) pairs) opened],
            ld_generation := Suc (ld_generation ld),
            ld_current := Some (block_for (Suc (ld_generation ld)) table pairs opened), ld_round_robin := 0\<rparr>)
         (to_all (en_threads env) (Open (ctx_for (en_config env) (Suc (ld_generation ld)) pairs
            (schema_of_pairs (en_config env) pairs) opened))) None"
proof -
  obtain q where q: "p = Inr q" using assms by (cases p) (auto simp: start_block_def Let_def)
  obtain o' w1 where o: "finish_open (en_delta env) q table (schema_of_pairs (en_config env) pairs)
      (lc_mode (en_config env)) w = (o', w1)"
    by fastforce
  obtain opened where "o' = Inr opened"
    using assms q o by (cases o') (auto simp: start_block_def then_w_def Let_def schema_of_pairs_def)
  with assms q o show ?thesis by (intro that) (auto simp: start_block_def then_w_def Let_def schema_of_pairs_def)
qed

text \<open>What \<open>CopyStart\<close> finds before the table is opened: the columns resolved, and the table preloaded.\<close>

definition starts_block ::
  "('f, 'b, 'a, 'r, 'w, 's, 't, 'k, 'x, 'm, 'v, 'i) loader_env \<Rightarrow> table_name \<Rightarrow> bytes list \<Rightarrow> (bytes \<times> resolved_type) list
    \<Rightarrow> ('t, 'x, 'm, 'i) loader \<Rightarrow> ('t, 'k) preload_task list \<Rightarrow> 'w \<Rightarrow> ('t, 'k) preloaded_table res \<Rightarrow> 'w \<Rightarrow> bool" where
  "starts_block env table columns pairs ld tasks w p w1 \<longleftrightarrow>
     ld_current ld = None \<and> wanted (en_config env) table \<and> \<not> (lc_write_manifest (en_config env) \<and> reserved_collision table)
     \<and> (\<exists>def resolved. ld_defs ld (qualified_name table) = Some def \<and> resolve_copy_columns (en_low env) def columns = Inr resolved
          \<and> pairs = zip columns resolved)
     \<and> (case ld_preloads ld (qualified_name table) of
          Some t \<Rightarrow> tasks ! t = Loaded p \<and> w1 = w
        | None \<Rightarrow> preload_table (en_delta env) (en_alnum env) (lc_output_uri (en_config env)) table (en_store env)
            (lc_storage_options (en_config env)) w = (p, w1))"

lemma on_copy_startE:
  assumes "on_copy_start env table columns ld tasks w = Some (Inr y, w')"
  obtains (skips) "ld_current ld = None" "\<not> wanted (en_config env) table"
      "y = Proceed (ld\<lparr>ld_seen := insort_insert (qualified_name table) (ld_seen ld), ld_skipping := True\<rparr>)" "w' = w"
  | (starts) pairs p w1 where "starts_block env table columns pairs ld tasks w p w1"
      "start_block env table pairs (ld\<lparr>ld_seen := insort_insert (qualified_name table) (ld_seen ld),
         ld_preloads := (ld_preloads ld)(qualified_name table := None)\<rparr>) p w1 = (Inr y, w')"
  using assms skips starts
  by (auto simp: on_copy_start_def starts_block_def Let_def split: option.splits if_splits sum.splits prod.splits preload_task.splits)

lemma on_event_proceeds:
  assumes "on_event env ev ld tasks w = Some (Inr (Proceed ld'), tasks', w')"
  shows "ld_current ld' = ld_current ld"
  using assms
  by (auto simp: on_event_def on_version_def on_table_def on_copy_rows_def on_copy_end_def Let_def
      split: event.splits option.splits if_splits elim!: on_copy_startE start_blockE)

lemma on_event_dispatches:
  assumes "on_event env ev ld tasks w = Some (Inr (Dispatch ld' jobs block), tasks', w')"
  obtains (opens) table columns pairs q w1 opened where "ev = CopyStart table columns"
      "on_copy_start env table columns ld tasks w = Some (Inr (Dispatch ld' jobs block), w')"
      "starts_block env table columns pairs ld tasks w (Inr q) w1"
      "finish_open (en_delta env) q table (schema_of_pairs (en_config env) pairs) (lc_mode (en_config env)) w1 = (Inr opened, w')"
      "ld' = ld\<lparr>ld_seen := insort_insert (qualified_name table) (ld_seen ld),
         ld_preloads := (ld_preloads ld)(qualified_name table := None),
         ld_targets := ld_targets ld @ [target_for table (schema_of_pairs (en_config env) pairs) opened],
         ld_generation := Suc (ld_generation ld),
         ld_current := Some (block_for (Suc (ld_generation ld)) table pairs opened), ld_round_robin := 0\<rparr>"
      "jobs = to_all (en_threads env) (Open (ctx_for (en_config env) (Suc (ld_generation ld)) pairs
         (schema_of_pairs (en_config env) pairs) opened))" "block = None" "tasks' = tasks"
  | (feeds) b payload where "ev = CopyRows payload" "\<not> ld_skipping ld" "ld_current ld = Some b"
      "ld' = ld\<lparr>ld_round_robin := ld_round_robin ld + 1\<rparr>" "tasks' = tasks" "w' = w"
      "jobs = [(ld_round_robin ld mod en_threads env, Rows (ob_generation b) payload)]" "block = None"
  | (closes) b where "ev = CopyEnd (ob_table b)" "\<not> ld_skipping ld" "ld_current ld = Some b"
      "ld' = ld\<lparr>ld_current := None\<rparr>" "tasks' = tasks" "w' = w"
      "jobs = to_all (en_threads env) (Close (ob_generation b))" "block = Some b"
proof (cases ev)
  case (DumpVersion v d)
  then show ?thesis using assms by (auto simp: on_event_def on_version_def split: option.splits if_splits)
next
  case (TableEvent d)
  then show ?thesis using assms by (auto simp: on_event_def)
next
  case (CopyStart table columns)
  then have s: "on_copy_start env table columns ld tasks w = Some (Inr (Dispatch ld' jobs block), w')" "tasks' = tasks"
    using assms by (auto simp: on_event_def)
  from s(1) show ?thesis
  proof (cases rule: on_copy_startE)
    case (starts pairs p w1)
    from starts(2) show ?thesis
    proof (cases rule: start_blockE)
      case (1 q opened)
      show ?thesis by (rule opens[of table columns pairs q w1 opened]) (use 1 starts CopyStart s in simp_all)
    qed
  qed simp
next
  case (CopyRows payload)
  then show ?thesis using assms feeds by (auto simp: on_event_def on_copy_rows_def split: option.splits if_splits)
next
  case (CopyEnd table)
  then show ?thesis using assms closes by (auto simp: on_event_def on_copy_end_def split: option.splits if_splits)
qed

lemma on_event_preloads:
  assumes "on_event env ev ld tasks w = Some (Inr y, tasks', w')" "ld' = (case y of Proceed ld' \<Rightarrow> ld' | Dispatch ld' _ _ \<Rightarrow> ld')"
    "\<forall>name t. ld_preloads ld name = Some t \<longrightarrow> t < length tasks"
  shows "\<forall>name t. ld_preloads ld' name = Some t \<longrightarrow> t < length tasks'"
  using assms
  by (auto simp: on_event_def on_version_def on_table_def on_copy_rows_def on_copy_end_def Let_def less_Suc_eq
      split: event.splits option.splits if_splits elim!: on_copy_startE start_blockE)

lemma worker_swap: "wk\<lparr>wk_queue := q, wk_pc := p\<rparr> = wk\<lparr>wk_pc := p, wk_queue := q\<rparr>"
  by (cases wk) simp

lemma load_ok_step:
  assumes ok: "load_ok env c" and n: "0 < en_threads env" and st: "load_step env c l c'"
  shows "load_ok env c'"
proof -
  let ?ld = "cf_loader c" and ?wks = "cf_workers c"
  let ?vs = "with_pending (jobs_of (cf_pc c)) ?wks"
  have len: "length ?wks = en_threads env" using ok by (simp add: load_ok_def)
  have pool: "pool_ok (stage_of (cf_pc c) (ld_current ?ld)) ?vs (cf_events c)" using ok by (simp add: load_ok_def)
  have over: "pool_ok Over ?wks evs" if "length evs \<le> length (cf_events c)" for evs
    using pool_stops[OF pool that] .
  have stopped: "load_ok env (c\<lparr>cf_tasks := ts, cf_world := w, cf_events := evs, cf_pc := Finished r\<rparr>)"
    if "length evs \<le> length (cf_events c)" "length (cf_tasks c) \<le> length ts" for evs ts r w
    using ok over[OF that(1)] that(2) by (auto simp: load_ok_def intro: order.strict_trans2)
  have stopped_here: "load_ok env (c\<lparr>cf_pc := Finished r\<rparr>)" for r
    using stopped[of "cf_events c" "cf_tasks c" r "cf_world c"] by simp
  have worker: "load_ok env (c\<lparr>cf_workers := ?wks[i := wk], cf_events := evs, cf_world := w\<rparr>)"
    if "i < length ?wks" "pool_ok (stage_of (cf_pc c) (ld_current ?ld))
         (?vs[i := wk\<lparr>wk_queue := wk_queue wk @ jobs_for i (jobs_of (cf_pc c))\<rparr>]) evs" for i wk evs w
    using ok that by (simp add: load_ok_def with_pending_update)
  from st show ?thesis
  proof (cases rule: load_step.cases)
    case reads
    from reads(3) show ?thesis
    proof (cases rule: read_turnE)
      case (failed e)
      then show ?thesis using stopped_here by (simp add: stop_def)
    qed (use ok reads in \<open>simp_all add: load_ok_def\<close>)
  next
    case (handles events)
    note ev = this
    from ev(3) show ?thesis
    proof (cases rule: event_turnE)
      case (interrupted e)
      then show ?thesis using stopped_here by (simp add: stop_def)
    next
      case (read_on ld)
      then show ?thesis using ok ev by (auto simp: load_ok_def notify_def Let_def split: if_splits)
    next
      case (failed ev others e tasks w)
      then show ?thesis using stopped[of "cf_events c" tasks _ w] on_event_tasks[OF failed(2)] by (auto simp: stop_def)
    next
      case (proceeded ev others ld tasks w)
      then show ?thesis using ok ev(2) on_event_proceeds[OF proceeded(2)] on_event_preloads[OF proceeded(2) refl]
        by (simp add: load_ok_def)
    next
      case (dispatched ev others ld jobs block tasks w)
      have pre: "\<forall>name t. ld_preloads ld name = Some t \<longrightarrow> t < length tasks"
        using ok on_event_preloads[OF dispatched(2) refl] by (simp add: load_ok_def)
      from dispatched(2) show ?thesis
      proof (cases rule: on_event_dispatches)
        case (opens table columns pairs q w1 opened)
        then show ?thesis using ok pre dispatched ev(2) len
            pool_opens[of ?wks "cf_events c" "Suc (ld_generation ?ld)" "Open (ctx_for (en_config env) (Suc (ld_generation ?ld)) pairs
              (schema_of_pairs (en_config env) pairs) opened)"]
          by (simp add: load_ok_def with_pending_all[symmetric] starts_block_def block_for_def ctx_for_def)
            (auto simp: to_all_def)
      next
        case (feeds b payload)
        then show ?thesis using ok pre n dispatched ev(2) len
            pool_feeds[of "ob_generation b" ?wks "cf_events c" "ld_round_robin ?ld mod en_threads env" "Rows (ob_generation b) payload"]
          by (simp add: load_ok_def with_pending_one)
      next
        case (closes b)
        then show ?thesis using ok pre dispatched ev(2) pool_closes[of "ob_generation b" ?wks "cf_events c"] len
          by (simp add: load_ok_def with_pending_all[symmetric]) (auto simp: to_all_def)
      qed
    qed
  next
    case (sends i j jobs block events wk)
    then have "stage_of (Sending jobs block events) cur = stage_of (cf_pc c) cur" for cur by (cases block) auto
    then show ?thesis using ok sends by (cases block) (auto simp: load_ok_def set_worker_def with_pending_sent)
  next
    case (send_fails i j jobs block events ev evs)
    then show ?thesis using stopped[of evs "cf_tasks c" _ "cf_world c"] by (simp add: stop_def)
  next
    case (send_fails_all_gone i j jobs block events)
    then show ?thesis using stopped_here by (simp add: stop_def)
  next
    case (sent_all block events)
    then show ?thesis using ok by (cases block) (auto simp: load_ok_def sent_turn_def new_collected_def)
  next
    case (collects co events cl evs)
    then show ?thesis using ok pool_collects[of _ _ ?wks cl evs] by (simp add: load_ok_def collect_def)
  next
    case (collect_fails co events e evs)
    then show ?thesis using stopped[of evs "cf_tasks c" _ "cf_world c"] by (simp add: stop_def)
  next
    case (collect_all_gone co events)
    then show ?thesis using stopped_here by (simp add: stop_def)
  next
    case (collected_all co events)
    have idle: "pool_ok Idle ?wks (cf_events c)"
      using pool pool_closed[of "ob_generation (co_block co)" "co_acked co" ?wks "cf_events c"] collected_all len by simp
    show ?thesis
    proof (cases "block_done (en_callback env) co ?ld")
      case (Inl e)
      then show ?thesis using collected_all stopped_here by (simp add: done_turn_def stop_def)
    next
      case (Inr ld)
      then show ?thesis using collected_all ok idle
        by (auto simp: done_turn_def load_ok_def block_done_def notify_def Let_def split: if_splits)
    qed
  next
    case (commits dumped_by targets outcomes m i r w)
    then show ?thesis using ok by (simp add: load_ok_def)
  next
    case (concludes dumped_by outcomes m)
    then show ?thesis using stopped[of "cf_events c" "cf_tasks c"] by (simp add: conclude_turn_def split: prod.splits)
  next
    case (works i wk j q r w)
    note wv = pool_works[OF pool, of i "wk\<lparr>wk_queue := wk_queue wk @ jobs_for i (jobs_of (cf_pc c))\<rparr>" j
      "q @ jobs_for i (jobs_of (cf_pc c))" "en_arrow env" "en_delta env" "wk_state wk" "cf_world c" r w]
    have "after_job r (wk\<lparr>wk_queue := q @ js\<rparr>) = (after_job r (wk\<lparr>wk_queue := q\<rparr>))\<lparr>wk_queue := wk_queue (after_job r (wk\<lparr>wk_queue := q\<rparr>)) @ js\<rparr>" for js
      by (auto simp: after_job_def split: option.splits sum.splits prod.splits)
    then show ?thesis using worker[of i "after_job r (wk\<lparr>wk_queue := q\<rparr>)" "cf_events c" w] wv works
      by (simp add: set_worker_def)
  next
    case (tells i wk ev)
    then show ?thesis using worker[of i "wk\<lparr>wk_pc := after_telling ev\<rparr>" "cf_events c @ [ev]" "cf_world c"]
      pool_tells[OF pool, of i "wk\<lparr>wk_queue := wk_queue wk @ jobs_for i (jobs_of (cf_pc c))\<rparr>" ev]
      by (simp add: set_worker_def worker_swap)
  next
    case (retires i wk r)
    then show ?thesis using worker[of i "wk\<lparr>wk_pc := Leaving\<rparr>" "cf_events c" "cf_world c"]
      pool_retires[of ?wks "cf_events c" i wk] pool
      by (cases wk) (simp add: set_worker_def)
  next
    case (leaves i wk)
    then show ?thesis using worker[of i "wk\<lparr>wk_pc := Gone, wk_queue := []\<rparr>" "cf_events c" "cf_world c"]
      pool_leaves[OF pool, of i "wk\<lparr>wk_queue := wk_queue wk @ jobs_for i (jobs_of (cf_pc c))\<rparr>"]
      by (simp add: set_worker_def worker_swap)
  next
    case (preloads t name r w)
    then show ?thesis using ok by (simp add: load_ok_def)
  qed
qed

end
