(* ===== verification/Load_Live.thy ===== *)
theory Load_Live
  imports Load_Pool
begin

section \<open>Every load comes to an end\<close>

text \<open>
  The pipeline never deadlocks and never runs for ever: as long as the input ends, every run reaches a
  configuration in which the reader is done and every worker has left.
\<close>

subsection \<open>Progress\<close>

lemma stuckD: "stuck step c \<Longrightarrow> \<not> step c l c'"
  by (simp add: stuck_def)

lemma stuck_worker:
  assumes st: "stuck (load_step env) c" and ok: "load_ok env c" and i: "i < length (cf_workers c)"
  shows "at_rest (cf_workers c ! i) \<or> wk_pc (cf_workers c ! i) = Gone"
proof (cases "wk_pc (cf_workers c ! i)")
  case Working
  show ?thesis
  proof (cases "wk_queue (cf_workers c ! i)")
    case Nil
    then show ?thesis using Working by (simp add: at_rest_def)
  next
    case (Cons j q)
    then show ?thesis using works[OF i refl Working Cons prod.collapse[symmetric], of env] stuckD[OF st] by blast
  qed
next
  case (Telling ev)
  let ?vs = "with_pending (jobs_of (cf_pc c)) (cf_workers c)"
  have "length (cf_events c) + tallied busy ?vs \<le> en_threads env"
    using pool_bound ok unfolding load_ok_def by (metis length_with_pending)
  then have "length (cf_events c) < event_capacity (en_threads env)" by (simp add: event_capacity_def)
  then show ?thesis using tells[OF i refl Telling] stuckD[OF st] by blast
next
  case Leaving
  then show ?thesis using leaves[OF i refl Leaving] stuckD[OF st] by blast
qed simp

lemma gone_has_failed:
  assumes ok: "load_ok env c" and gone: "i < length (cf_workers c)" "wk_pc (cf_workers c ! i) = Gone"
    and st: "stage_of (cf_pc c) (ld_current (cf_loader c)) \<noteq> Over"
  shows "cf_events c \<noteq> []"
proof
  assume e: "cf_events c = []"
  let ?vs = "with_pending (jobs_of (cf_pc c)) (cf_workers c)"
  have v: "?vs ! i \<in> set ?vs" "wk_pc (?vs ! i) = Gone" using gone nth_mem[of i ?vs] by auto
  have p: "pool_ok (stage_of (cf_pc c) (ld_current (cf_loader c))) ?vs []" using ok e by (simp add: load_ok_def)
  have "away (?vs ! i) \<noteq> 0" using v(2) by (simp add: away_def)
  then have "tallied away ?vs \<noteq> 0" using v(1) tallied_0_iff by metis
  moreover have "\<not> at_rest (?vs ! i)" using v by (simp add: at_rest_def)
  ultimately show False
    using p v(1) st by (cases "stage_of (cf_pc c) (ld_current (cf_loader c))") (auto simp: pool_ok_def list_all_iff)
qed

lemma stuck_collecting:
  assumes st: "stuck (load_step env) c" and ok: "load_ok env c" and pc: "cf_pc c = Collecting co events"
  shows False
proof -
  have a: "co_acked co < en_threads env" using collected_all[OF pc] stuckD[OF st] by (meson not_less)
  have e: "cf_events c = []"
  proof (cases "cf_events c")
    case (Cons ev evs)
    then show ?thesis using collects[OF pc a] collect_fails[OF pc a] stuckD[OF st] by (cases ev) blast+
  qed
  have p: "pool_ok (Closing (ob_generation (co_block co)) (co_acked co)) (cf_workers c) []" and n: "length (cf_workers c) = en_threads env"
    using ok pc e by (simp_all add: load_ok_def)
  then have "co_acked co + tallied busy (cf_workers c) = en_threads env" by (simp add: pool_ok_def)
  then have "tallied busy (cf_workers c) \<noteq> 0" using a by simp
  then obtain i where i: "i < length (cf_workers c)" "busy (cf_workers c ! i) \<noteq> 0"
    by (auto simp: tallied_0_iff in_set_conv_nth)
  then have "\<not> at_rest (cf_workers c ! i)" "wk_pc (cf_workers c ! i) \<noteq> Gone" by (auto simp: worker_simps)
  then show False using stuck_worker[OF st ok i(1)] by simp
qed

lemma stuck_sending:
  assumes st: "stuck (load_step env) c" and ok: "load_ok env c" and pc: "cf_pc c = Sending jobs block events"
  shows False
proof (cases jobs)
  case Nil
  then show False using sent_all[of c block events env] pc stuckD[OF st] by blast
next
  case (Cons ij js)
  obtain i j where ij: "ij = (i, j)" by fastforce
  have i: "i < length (cf_workers c)" using ok pc Cons ij by (auto simp: load_ok_def)
  have pc': "cf_pc c = Sending ((i, j) # js) block events" using pc Cons ij by simp
  show False
  proof (cases "wk_pc (cf_workers c ! i) = Gone")
    case True
    have "cf_events c \<noteq> []" by (rule gone_has_failed[OF ok i True]) (cases block; simp add: pc block_stage_def split: option.splits)
    then obtain ev evs where "cf_events c = ev # evs" by (cases "cf_events c") auto
    then show ?thesis using send_fails[OF pc' i True] stuckD[OF st] by blast
  next
    case False
    then have "length (wk_queue (cf_workers c ! i)) < QUEUE_DEPTH"
      using stuck_worker[OF st ok i] by (simp add: at_rest_def QUEUE_DEPTH_def)
    then show ?thesis using sends[OF pc' i refl False] stuckD[OF st] by blast
  qed
qed

lemma stuck_tasks: "stuck (load_step env) c \<Longrightarrow> t < length (cf_tasks c) \<Longrightarrow> \<not> in_flight (cf_tasks c ! t)"
  by (cases "cf_tasks c ! t") (auto dest: preloads[OF _ _ prod.collapse[symmetric], of t c _ env] stuckD)

lemma some_permit: "0 < open_concurrency config"
  by (simp add: open_concurrency_def DEFAULT_COMMIT_CONCURRENCY_def)

lemma stuck_event:
  assumes st: "stuck (load_step env) c" and ok: "load_ok env c"
  shows "on_event env ev (cf_loader c) (cf_tasks c) w \<noteq> None"
proof -
  have "filter in_flight (cf_tasks c) = []" using stuck_tasks[OF st] by (auto simp: filter_empty_conv in_set_conv_nth)
  moreover note some_permit[of "en_config env"]
  moreover have "cf_tasks c ! t \<noteq> Loading n" if "ld_preloads (cf_loader c) name = Some t" for name t n
    using stuck_tasks[OF st, of t] ok that by (auto simp: load_ok_def)
  ultimately show ?thesis
    by (auto simp: on_event_def on_table_def on_copy_start_def Let_def
        split: event.splits if_splits option.splits sum.splits preload_task.splits prod.splits)
qed

lemma load_progress:
  assumes st: "stuck (load_step env) c" and ok: "load_ok env c"
    and input: "cf_pc c = ReadChunk \<Longrightarrow> en_next env (ld_input (cf_loader c)) \<noteq> None"
  shows "(\<exists>r. cf_pc c = Finished r) \<and> all_gone (cf_workers c)"
proof (cases "cf_pc c")
  case ReadChunk
  have "read_turn env c \<noteq> None" using input[OF ReadChunk] by (auto simp: read_turn_def Let_def split: option.splits sum.splits prod.splits)
  then show ?thesis using reads[OF ReadChunk] stuckD[OF st] by blast
next
  case (Handling events)
  have "event_turn env events c \<noteq> None"
    using stuck_event[OF st ok] by (auto simp: event_turn_def split: list.splits sum.splits)
  then show ?thesis using handles[OF Handling] stuckD[OF st] by blast
next
  case (Sending jobs block events)
  then show ?thesis using stuck_sending[OF st ok] by blast
next
  case (Collecting co events)
  then show ?thesis using stuck_collecting[OF st ok] by blast
next
  case (Committing dumped_by targets outcomes n)
  show ?thesis
  proof (cases targets)
    case Nil
    then show ?thesis using concludes[of c dumped_by outcomes n env] Committing stuckD[OF st] by blast
  next
    case (Cons t ts)
    have "0 < open_concurrency (en_config env)" by (rule some_permit)
    then show ?thesis using commits[OF Committing _ _ prod.collapse[symmetric], of 0 env] Cons stuckD[OF st] by auto
  qed
next
  case (Finished r)
  have "wk_pc (cf_workers c ! i) = Gone" if i: "i < length (cf_workers c)" for i
    using stuck_worker[OF st ok i] retires[OF i refl _ _ Finished] stuckD[OF st] unfolding at_rest_def by blast
  then show ?thesis using Finished by (auto simp: all_gone_def list_all_length)
qed

subsection \<open>Termination\<close>

text \<open>An input that ends: every call returns, and a measure drops with every chunk delivered.\<close>

definition input_ends :: "('i \<Rightarrow> (bytes option res \<times> 'i) option) \<Rightarrow> ('i \<Rightarrow> bool) \<Rightarrow> ('i \<Rightarrow> nat) \<Rightarrow> bool" where
  "input_ends next P mu \<longleftrightarrow>
     (\<forall>i. P i \<longrightarrow> (\<exists>r i'. next i = Some (r, i') \<and> (\<forall>chunk. r = Inr (Some chunk) \<longrightarrow> P i' \<and> mu i' < mu i)))"

lemma input_endsD:
  "input_ends next P mu \<Longrightarrow> P i \<Longrightarrow> next i \<noteq> None"
  "input_ends next P mu \<Longrightarrow> P i \<Longrightarrow> next i = Some (Inr (Some chunk), i') \<Longrightarrow> P i' \<and> mu i' < mu i"
  unfolding input_ends_def by fastforce+

text \<open>The chunks \<open>next_chunk\<close> delivers from any reader are such an input.\<close>

lemma chunks_end:
  assumes "byte_source rd rest ok"
  shows "input_ends (next_chunk rd) (cr_inv rest ok) (\<lambda>cr. length (Dump_Reader.pending rest cr))"
  unfolding input_ends_def
proof (intro allI impI)
  fix cr
  assume "cr_inv rest ok cr"
  then show "\<exists>r cr'. next_chunk rd cr = Some (r, cr') \<and> (\<forall>chunk. r = Inr (Some chunk) \<longrightarrow>
      cr_inv rest ok cr' \<and> length (Dump_Reader.pending rest cr') < length (Dump_Reader.pending rest cr))"
    by (rule byte_source.next_chunk_post[OF assms]) (auto simp: chunk_post_def Let_def)
qed

fun reader_phase :: "('t, 'x, 'm) reader_pc \<Rightarrow> nat" where
  "reader_phase (Committing _ _ _ _) = 0"
| "reader_phase (Finished _) = 0"
| "reader_phase _ = 1"

fun reader_weight :: "nat \<Rightarrow> ('t, 'x, 'm) reader_pc \<Rightarrow> nat" where
  "reader_weight n ReadChunk = 0"
| "reader_weight n (Handling events) = (6 * n + 12) * length events + 1"
| "reader_weight n (Sending jobs _ events) = 5 * length jobs + n + 4 + (6 * n + 12) * length events"
| "reader_weight n (Collecting co events) = n - co_acked co + 2 + (6 * n + 12) * length events"
| "reader_weight n (Committing _ targets _ _) = length targets + 1"
| "reader_weight n (Finished _) = 0"

definition worker_weight :: "('b, 'v, 'x, 'm) pool_worker \<Rightarrow> nat" where
  "worker_weight wk = 4 * length (wk_queue wk) + (case wk_pc wk of Working \<Rightarrow> 2 | Telling _ \<Rightarrow> 3 | Leaving \<Rightarrow> 1 | Gone \<Rightarrow> 0)"

definition load_weight :: "nat \<Rightarrow> ('b, 'v, 't, 'k, 'x, 'm, 'i, 'w) config \<Rightarrow> nat" where
  "load_weight n c = reader_weight n (cf_pc c) + tallied worker_weight (cf_workers c)
     + length (filter in_flight (cf_tasks c))"

definition load_order :: "nat \<Rightarrow> ('i \<Rightarrow> nat) \<Rightarrow> (('b, 'v, 't, 'k, 'x, 'm, 'i, 'w) config \<times> ('b, 'v, 't, 'k, 'x, 'm, 'i, 'w) config) set" where
  "load_order n mu = measures [\<lambda>c. reader_phase (cf_pc c), \<lambda>c. mu (ld_input (cf_loader c)), load_weight n]"

lemma wf_load_order: "wf (load_order n mu)"
  by (simp add: load_order_def)

lemma load_orderI:
  "reader_phase (cf_pc c') < reader_phase (cf_pc c) \<Longrightarrow> (c', c) \<in> load_order n mu"
  "reader_phase (cf_pc c') = reader_phase (cf_pc c) \<Longrightarrow> mu (ld_input (cf_loader c')) < mu (ld_input (cf_loader c)) \<Longrightarrow>
     (c', c) \<in> load_order n mu"
  "reader_phase (cf_pc c') = reader_phase (cf_pc c) \<Longrightarrow> ld_input (cf_loader c') = ld_input (cf_loader c) \<Longrightarrow>
     load_weight n c' < load_weight n c \<Longrightarrow> (c', c) \<in> load_order n mu"
  by (simp_all add: load_order_def)

lemma on_event_input:
  assumes "on_event env ev ld tasks w = Some (Inr y, tasks', w')"
  shows "ld_input (case y of Proceed ld' \<Rightarrow> ld' | Dispatch ld' _ _ \<Rightarrow> ld') = ld_input ld"
  using assms
  by (auto simp: on_event_def on_version_def on_table_def on_copy_rows_def on_copy_end_def Let_def
      split: event.splits option.splits if_splits elim!: on_copy_startE start_blockE)

lemma worker_lighter:
  assumes "i < length (cf_workers c)" "worker_weight wk < worker_weight (cf_workers c ! i)"
  shows "tallied worker_weight ((cf_workers c)[i := wk]) < tallied worker_weight (cf_workers c)"
  using tallied_at[OF assms(1), of worker_weight wk] assms(2) by simp

lemma worker_step_order:
  assumes "i < length (cf_workers c)" "worker_weight wk < worker_weight (cf_workers c ! i)"
  shows "(c\<lparr>cf_workers := (cf_workers c)[i := wk], cf_events := evs, cf_world := w\<rparr>, c) \<in> load_order n mu"
  by (rule load_orderI(3)) (use worker_lighter[OF assms] in \<open>simp_all add: load_weight_def\<close>)

lemma stop_order:
  "reader_phase (cf_pc c) = 1 \<Longrightarrow> (stop e (c\<lparr>cf_tasks := ts, cf_world := w, cf_events := evs\<rparr>), c) \<in> load_order n mu"
  by (rule load_orderI(1)) (simp add: stop_def)

lemma stop_order_here: "reader_phase (cf_pc c) = 1 \<Longrightarrow> (stop e c, c) \<in> load_order n mu"
  by (rule load_orderI(1)) (simp add: stop_def)

lemma event_turn_order:
  assumes ev: "event_turn env events c = Some c'" and pc: "cf_pc c = Handling events"
  shows "(c', c) \<in> load_order (en_threads env) mu"
  using ev
proof (cases rule: event_turnE)
  case (interrupted e)
  then show ?thesis using pc stop_order_here[of c] by simp
next
  case (read_on ld)
  then have "ld_input ld = ld_input (cf_loader c)" by (auto simp: notify_def Let_def split: if_splits)
  with read_on show ?thesis using pc by (intro load_orderI(3)) (simp_all add: load_weight_def)
next
  case (failed ev others e tasks w)
  then show ?thesis using pc by (intro load_orderI(1)) (simp_all add: stop_def)
next
  case (proceeded ev others ld tasks w)
  have "length (filter in_flight tasks) \<le> Suc (length (filter in_flight (cf_tasks c)))"
    using on_event_tasks[OF proceeded(2)] by auto
  then show ?thesis using pc proceeded on_event_input[OF proceeded(2)]
    by (intro load_orderI(3)) (simp_all add: load_weight_def)
next
  case (dispatched ev others ld jobs block tasks w)
  have "5 * length jobs + en_threads env + 4 \<le> 6 * en_threads env + 9" "tasks = cf_tasks c"
    by (cases rule: on_event_dispatches[OF dispatched(2)]; simp add: to_all_def)+
  then show ?thesis using pc dispatched on_event_input[OF dispatched(2)]
    by (intro load_orderI(3)) (simp_all add: load_weight_def)
qed

lemma job_lighter:
  "worker_weight (after_job r (wk\<lparr>wk_queue := q\<rparr>)) \<le> 4 * length q + 3"
  if "wk_pc wk = Working"
  using that by (auto simp: after_job_def worker_weight_def split: option.splits sum.splits prod.splits)

lemma load_step_order:
  assumes st: "load_step env c l c'" and ends: "input_ends (en_next env) P mu"
    and input: "reader_phase (cf_pc c) = 1 \<Longrightarrow> P (ld_input (cf_loader c))"
  shows "(c', c) \<in> load_order (en_threads env) mu"
  using st
proof (cases rule: load_step.cases)
  case reads
  from reads(3) show ?thesis
  proof (cases rule: read_turnE)
    case (failed e)
    then show ?thesis using reads stop_order_here[of c] by simp
  next
    case (ended input dumped_by targets)
    then show ?thesis using reads by (intro load_orderI(1)) simp
  next
    case (fed chunk input scanner events)
    then show ?thesis using reads input_endsD(2)[OF ends input fed(1)] by (intro load_orderI(2)) simp_all
  qed
next
  case (handles events)
  then show ?thesis using event_turn_order by blast
next
  case (sends i j jobs block events wk)
  have "tallied worker_weight ((cf_workers c)[i := wk\<lparr>wk_queue := wk_queue wk @ [j]\<rparr>])
      = tallied worker_weight (cf_workers c) + 4"
    using tallied_at[OF sends(4), of worker_weight "wk\<lparr>wk_queue := wk_queue wk @ [j]\<rparr>"] sends(5)
    by (simp add: worker_weight_def)
  then show ?thesis using sends by (intro load_orderI(3)) (simp_all add: load_weight_def set_worker_def)
next
  case (send_fails i j jobs block events ev evs)
  then show ?thesis by (intro load_orderI(1)) (simp_all add: stop_def)
next
  case (send_fails_all_gone i j jobs block events)
  then show ?thesis using stop_order_here[of c] by simp
next
  case (sent_all block events)
  then show ?thesis
    by (intro load_orderI(3)) (simp_all add: sent_turn_def load_weight_def new_collected_def split: option.splits)
next
  case (collects co events cl evs)
  then show ?thesis by (intro load_orderI(3)) (simp_all add: load_weight_def collect_def)
next
  case (collect_fails co events e evs)
  then show ?thesis by (intro load_orderI(1)) (simp_all add: stop_def)
next
  case (collect_all_gone co events)
  then show ?thesis using stop_order_here[of c] by simp
next
  case (collected_all co events)
  show ?thesis
  proof (cases "block_done (en_callback env) co (cf_loader c)")
    case (Inl e)
    then show ?thesis using collected_all stop_order_here[of c] by (simp add: done_turn_def)
  next
    case (Inr ld)
    then have "ld_input ld = ld_input (cf_loader c)" by (auto simp: block_done_def notify_def Let_def split: if_splits)
    then show ?thesis using collected_all Inr by (intro load_orderI(3)) (simp_all add: done_turn_def load_weight_def)
  qed
next
  case (commits dumped_by targets outcomes m i r w)
  then show ?thesis by (intro load_orderI(3)) (simp_all add: load_weight_def)
next
  case (concludes dumped_by outcomes m)
  then show ?thesis by (intro load_orderI(3)) (simp_all add: conclude_turn_def load_weight_def split: prod.splits)
next
  case (works i wk j q r w)
  have "worker_weight (after_job r (wk\<lparr>wk_queue := q\<rparr>)) < worker_weight wk"
    using job_lighter[of wk r q] works(5,6) by (simp add: worker_weight_def)
  then show ?thesis using works worker_step_order[of i c _ w "cf_events c"] by (simp add: set_worker_def)
next
  case (tells i wk ev)
  then have "worker_weight (wk\<lparr>wk_pc := after_telling ev\<rparr>) < worker_weight wk" by (cases ev) (simp_all add: worker_weight_def)
  then show ?thesis using tells worker_step_order[of i c _ "cf_world c" "cf_events c @ [ev]"] by (simp add: set_worker_def)
next
  case (retires i wk r)
  then have "worker_weight (wk\<lparr>wk_pc := Leaving\<rparr>) < worker_weight wk" by (simp add: worker_weight_def)
  then show ?thesis using retires worker_step_order[of i c _ "cf_world c" "cf_events c"] by (simp add: set_worker_def)
next
  case (leaves i wk)
  then have "worker_weight (wk\<lparr>wk_pc := Gone, wk_queue := []\<rparr>) < worker_weight wk" by (simp add: worker_weight_def)
  then show ?thesis using leaves worker_step_order[of i c _ "cf_world c" "cf_events c"] by (simp add: set_worker_def)
next
  case (preloads t name r w)
  have "length (filter in_flight ((cf_tasks c)[t := Loaded r])) < length (filter in_flight (cf_tasks c))"
    using tallied_at[OF preloads(3), of "\<lambda>x. of_bool (in_flight x)" "Loaded r"] preloads(4)
    by (simp add: tallied_filter)
  then show ?thesis by (intro load_orderI(3)) (simp_all add: preloads load_weight_def)
qed

subsection \<open>The invariant along a run\<close>

definition live_ok ::
  "('f, 'b, 'a, 'r, 'w, 's, 't, 'k, 'x, 'm, 'v, 'i) loader_env \<Rightarrow> ('i \<Rightarrow> bool) \<Rightarrow> ('i \<Rightarrow> nat)
    \<Rightarrow> ('b, 'v, 't, 'k, 'x, 'm, 'i, 'w) config \<Rightarrow> bool" where
  "live_ok env P mu c \<longleftrightarrow> 0 < en_threads env \<and> input_ends (en_next env) P mu \<and> load_ok env c
     \<and> (reader_phase (cf_pc c) = 1 \<longrightarrow> P (ld_input (cf_loader c)))"

lemma input_step:
  assumes st: "load_step env c l c'" and ends: "input_ends (en_next env) P mu"
    and input: "reader_phase (cf_pc c) = 1 \<longrightarrow> P (ld_input (cf_loader c))"
  shows "reader_phase (cf_pc c') = 1 \<longrightarrow> P (ld_input (cf_loader c'))"
  using st
proof (cases rule: load_step.cases)
  case reads
  from reads(3) show ?thesis
  proof (cases rule: read_turnE)
    case (fed chunk inp scanner events)
    then show ?thesis using reads input input_endsD(2)[OF ends _ fed(1)] by simp
  qed (simp_all add: stop_def)
next
  case (handles events)
  from handles(3) show ?thesis
    by (cases rule: event_turnE)
      (use handles(2) input in \<open>auto simp: stop_def notify_def Let_def dest: on_event_input split: if_splits\<close>)
next
  case (collected_all co events)
  then show ?thesis using input
    by (auto simp: done_turn_def stop_def block_done_def notify_def Let_def split: sum.splits if_splits)
qed (use input in \<open>auto simp: stop_def set_worker_def sent_turn_def conclude_turn_def split: option.splits prod.splits\<close>)

interpretation loading: ordered_system "load_step env" "live_ok env P mu" "load_order (en_threads env) mu"
  for env :: "('f, 'b, 'a, 'r, 'w, 's, 't, 'k, 'x, 'm, 'v, 'i) loader_env" and P mu
proof unfold_locales
  fix c :: "('b, 'v, 't, 'k, 'x, 'm, 'i, 'w) config" and l c'
  assume ok: "live_ok env P mu c" and st: "load_step env c l c'"
  show "live_ok env P mu c'"
    using ok load_ok_step[OF _ _ st] input_step[OF st, of P mu] unfolding live_ok_def by blast
  show "(c', c) \<in> load_order (en_threads env) mu"
    using ok by (intro load_step_order[OF st, of P]) (auto simp: live_ok_def)
qed (rule wf_load_order)

lemma start_live:
  assumes "0 < en_threads env" "input_ends (en_next env) P mu" "P input"
  shows "live_ok env P mu (start_config env input w)"
  using assms start_ok by (simp add: live_ok_def) (simp add: start_config_def new_loader_def)

lemma stuck_is_finished:
  assumes "live_ok env P mu c" "stuck (load_step env) c"
  shows "(\<exists>r. cf_pc c = Finished r) \<and> all_gone (cf_workers c)"
  using assms load_progress[OF assms(2)] input_endsD(1)[of "en_next env" P mu] by (auto simp: live_ok_def)

text \<open>
  C4. Every load comes to an end: however the reader, the workers and the preload tasks interleave, no run
  goes on for ever, and a run stops only with the reader done and every worker gone. The queues never
  fill up for good, no acknowledgement is waited for that cannot come, and the failure of a worker reaches
  the reader. The input must end, as the chunks of a dump do.
\<close>

theorem load_always_finishes:
  assumes "0 < en_threads env" "input_ends (en_next env) P mu" "P input"
  shows "(\<forall>f ls. f 0 = start_config env input w \<longrightarrow> (\<exists>i. \<not> load_step env (f i) (ls i) (f (Suc i)))) \<and>
    (\<forall>ls c. run (load_step env) (start_config env input w) ls c \<longrightarrow> stuck (load_step env) c \<longrightarrow>
       (\<exists>r. cf_pc c = Finished r) \<and> all_gone (cf_workers c))"
proof (intro conjI allI impI)
  note live = start_live[OF assms, of w]
  show "\<exists>i. \<not> load_step env (f i) (ls i) (f (Suc i))" if "f 0 = start_config env input w" for f ls
    using loading.no_endless_run[of env P mu f ls] live that by simp
  fix ls c
  assume "run (load_step env) (start_config env input w) ls c" and stuck: "stuck (load_step env) c"
  then have "live_ok env P mu c" using loading.run_inv live by blast
  from stuck_is_finished[OF this stuck] show "\<exists>r. cf_pc c = Finished r" "all_gone (cf_workers c)" by simp_all
qed

text \<open>So \<open>execute\<close> returns.\<close>

lemma run_to_the_end:
  assumes "0 < en_threads env" "input_ends (en_next env) P mu" "P input"
  shows "\<exists>ls c r. run (load_step env) (start_config env input w) ls c \<and> cf_pc c = Finished r \<and> all_gone (cf_workers c)"
proof -
  note live = start_live[OF assms, of w]
  obtain ls c where "run (load_step env) (start_config env input w) ls c" "stuck (load_step env) c"
    using loading.comes_to_rest[OF live] by blast
  then show ?thesis using stuck_is_finished loading.run_inv[OF _ live] by blast
qed

end
