(* ===== verification/Load_World.thy ===== *)
theory Load_World
  imports Load_Pool
begin

section \<open>What the pipeline does to the storage\<close>

text \<open>
  A relation between storage worlds that every operation of the sink but the commit respects is respected
  by every step of the pipeline up to its commits. It is proved once, in the locale \<open>world_order\<close>; what a
  reader sees, and which files there are, are two such relations. \<open>write_order\<close> is the part of it that a
  worker needs.
\<close>

text \<open>The steps of phase two.\<close>

definition visible :: "load_label \<Rightarrow> bool" where
  "visible l \<longleftrightarrow> (case l of Committed _ _ \<Rightarrow> True | Concluded \<Rightarrow> True | _ \<Rightarrow> False)"

lemma visible_simps [simp]: "\<not> visible Tau" "\<not> visible (Event ev)" "visible (Committed q r)" "visible Concluded"
  by (simp_all add: visible_def)

locale write_order =
  fixes D :: "('w, 's, 't, 'k, 'x, 'm, 'v, 'r) delta_ops" and R :: "'w \<Rightarrow> 'w \<Rightarrow> bool"
  assumes R_refl: "R w w" and R_trans: "R w v \<Longrightarrow> R v u \<Longrightarrow> R w u"
    and R_write: "R w (snd (dl_write D w wr b))" and R_flush: "R w (snd (dl_flush D w wr))"
begin

lemma then_w_R:
  assumes "R w (snd r)" "\<And>y v. R v (snd (f y v))"
  shows "R w (snd (then_w r f))"
  using assms R_trans by (auto simp: R_refl then_w_def split: prod.splits sum.splits)

lemma then_o_R:
  assumes "R w (snd r)" "\<And>y v. R v (snd (f y v))"
  shows "R w (snd (then_o r f))"
  using assms R_trans by (auto simp: then_o_def split: prod.splits option.splits sum.splits)

lemma writer_write_R: "R w (snd (writer_write D tw b w))"
  unfolding writer_write_def by (rule then_w_R) (simp_all add: delta_w_def R_write R_refl)

lemma writer_stage_R: "R w (snd (writer_stage D tw w))"
  unfolding writer_stage_def by (rule then_w_R) (simp_all add: delta_w_def R_flush R_refl split: prod.split)

lemma flush_block_R: "R w (snd (flush_block A D blk w))"
  by (auto simp: flush_block_def lift_w_def R_refl writer_write_R intro!: then_o_R split: option.splits sum.splits)

lemma row_step_R: "R w (snd (row_step A D ctx row blk w))"
  by (auto simp: R_refl row_step_def flush_block_R split: option.splits sum.splits)

lemma rows_loop_R: "R w (snd (rows_loop A D ctx rs blk w))"
  by (induction rs arbitrary: blk w) (auto intro!: then_o_R simp: row_step_R R_refl)

lemma close_block_R: "R w (snd (close_block A D g blk w))"
  by (auto simp: close_block_def R_refl lift_w_def flush_block_R writer_stage_R intro!: then_o_R)

lemma job_step_R: "R w (snd (job_step A D j ws w))"
  by (auto simp: job_step_def R_refl Let_def rows_loop_R close_block_R intro!: then_o_R split: job.splits option.splits)

end

locale world_order = write_order +
  assumes R_store: "R w (snd (dl_store D w p opts))" and R_build: "R w (snd (dl_build D w uri opts st))"
    and R_create: "R w (snd (dl_create D w t k))"
begin

lemma finish_open_R: "R w (snd (finish_open D p name schema mode w))"
  by (auto simp: R_refl finish_open_def delta_w_def R_create intro!: then_w_R split: option.splits sum.splits)

lemma preload_R: "R w (snd (preload_table D alnum prefix name s opts w))"
  by (auto simp: R_refl preload_table_def delta_w_def R_build intro!: then_w_R split: option.splits sum.splits)

lemma start_block_R:
  assumes [simp]: "en_delta env = D"
  shows "R w (snd (start_block env table pairs ld p w))"
  by (auto simp: R_refl start_block_def Let_def intro!: then_w_R finish_open_R split: sum.splits)

lemma on_copy_start_R:
  assumes d [simp]: "en_delta env = D" and "on_copy_start env table columns ld tasks w = Some (q, w')"
  shows "R w w'"
proof -
  have s: "R w w'" if "start_block env table' pairs ld' p v = (q, w')" "R w v" for table' pairs ld' p v
    using start_block_R[OF d, of v table' pairs ld' p] that R_trans by simp
  have p: "R w v" if "preload_table D alnum prefix name st opts w = (p, v)" for alnum prefix name st opts p v
    using preload_R[of w alnum prefix name st opts] that by simp
  show ?thesis using assms(2)
    by (auto simp: R_refl on_copy_start_def Let_def dest: p intro: s
        split: if_splits option.splits sum.splits preload_task.splits prod.splits)
qed

lemma on_event_R:
  assumes [simp]: "en_delta env = D" and "on_event env ev ld tasks w = Some (q, tasks', w')"
  shows "R w w'"
  using assms(2) on_copy_start_R[OF assms(1)] by (auto simp: R_refl on_event_def split: event.splits)

lemma event_turn_R:
  assumes [simp]: "en_delta env = D" and "event_turn env events c = Some c'"
  shows "R (cf_world c) (cf_world c')"
  using assms(2)
  by (cases rule: event_turnE) (auto simp: R_refl stop_def dest: on_event_R[OF assms(1)])

lemma read_turn_world: "read_turn env c = Some c' \<Longrightarrow> cf_world c' = cf_world c"
  by (cases rule: read_turnE) (auto simp: stop_def)

lemma load_step_R:
  assumes "load_step env c l c'" and d: "en_delta env = D" and "\<not> visible l"
  shows "R (cf_world c) (cf_world c')"
  using assms(1)
proof (cases rule: load_step.cases)
  case (handles events)
  then show ?thesis using event_turn_R[OF d] by simp
next
  case (works i wk j q r w)
  then show ?thesis using job_step_R[of "cf_world c" "en_arrow env" j "wk_state wk"] d by (simp add: set_worker_def)
next
  case (preloads t name r w)
  then show ?thesis using preload_R[of "cf_world c" "en_alnum env" "lc_output_uri (en_config env)" name "en_store env"
    "lc_storage_options (en_config env)"] d by simp
qed (use assms(3) in \<open>auto simp: R_refl stop_def set_worker_def sent_turn_def done_turn_def read_turn_world
      split: option.splits sum.splits\<close>)

lemma run_R:
  "run (load_step env) c ls c' \<Longrightarrow> en_delta env = D \<Longrightarrow> list_all (\<lambda>l. \<not> visible l) ls \<Longrightarrow> R (cf_world c) (cf_world c')"
  by (induction rule: run.induct) (auto dest: load_step_R intro: R_trans R_refl)

end

end
