(* ===== verification/Load_Phases.thy ===== *)
theory Load_Phases
  imports Load_Live Load_World Sink_Laws
begin

section \<open>The two phases of a load\<close>

text \<open>
  Whatever the interleaving of the reader, the workers and the preloads, nothing they do before the first
  commit changes what a reader of the lake sees, but for empty tables where there was none; and a load
  that reaches its commits reports exactly what became of them.
\<close>

definition invisible :: "(bytes \<Rightarrow> ('k, 'x) table_view option) \<Rightarrow> (bytes \<Rightarrow> ('k, 'x) table_view option) \<Rightarrow> bool" where
  "invisible s s' \<longleftrightarrow> (\<forall>u. s' u = s u \<or> s u = None \<and> (\<exists>k. s' u = Some (empty_view k)))"

lemma invisible_refl [simp]: "invisible s s"
  by (simp add: invisible_def)

lemma invisible_trans: "invisible s s' \<Longrightarrow> invisible s' s'' \<Longrightarrow> invisible s s''"
  unfolding invisible_def by (metis option.distinct(1))

lemma invisible_new: "s u = None \<Longrightarrow> invisible s (s(u \<mapsto> empty_view k))"
  by (auto simp: invisible_def)

context delta_lake
begin

lemma create_invisible: "invisible (seen w) (seen (snd (dl_create D w t k)))"
proof (cases "dl_create D w t k")
  case (Pair r w')
  then show ?thesis using create_law[OF Pair] by (auto split: sum.splits intro: invisible_new)
qed

lemma quiet_laws:
  "seen (snd (dl_build D w uri opts st)) = seen w" "seen (snd (dl_write D w wr b)) = seen w"
  "seen (snd (dl_flush D w wr)) = seen w"
  using build_law[OF prod.collapse[symmetric], of w uri opts st] write_law[OF prod.collapse[symmetric], of w wr b]
    flush_law[OF prod.collapse[symmetric], of w wr] by auto

end

sublocale delta_lake \<subseteq> same: write_order D "\<lambda>w w'. seen w' = seen w"
  by unfold_locales (simp_all add: quiet_laws)

sublocale delta_lake \<subseteq> shown: world_order D "\<lambda>w w'. invisible (seen w) (seen w')"
  by unfold_locales (auto simp: quiet_laws store_law create_invisible intro: invisible_trans)

context delta_lake
begin

lemma load_step_invisible:
  "load_step env c l c' \<Longrightarrow> en_delta env = D \<Longrightarrow> \<not> visible l \<Longrightarrow> invisible (seen (cf_world c)) (seen (cf_world c'))"
  by (rule shown.load_step_R)

lemma run_invisible:
  "run (load_step env) c ls c' \<Longrightarrow> en_delta env = D \<Longrightarrow> list_all (\<lambda>l. \<not> visible l) ls \<Longrightarrow>
     invisible (seen (cf_world c)) (seen (cf_world c'))"
  by (rule shown.run_R)

end

subsection \<open>The outcome\<close>

fun committed :: "load_label list \<Rightarrow> (bytes \<times> nat res) list" where
  "committed [] = []"
| "committed (Committed q r # ls) = (q, r) # committed ls"
| "committed (_ # ls) = committed ls"

lemma committed_snoc [simp]:
  "committed (ls @ [l]) = committed ls @ (case l of Committed q r \<Rightarrow> [(q, r)] | _ \<Rightarrow> [])"
proof (induction ls)
  case Nil
  then show ?case by (cases l) auto
next
  case (Cons l' ls)
  then show ?case by (cases l') auto
qed

lemma committed_invisible: "committed ls = [] \<Longrightarrow> Concluded \<notin> set ls \<Longrightarrow> list_all (\<lambda>l. \<not> visible l) ls"
proof (induction ls)
  case (Cons l ls)
  then show ?case by (cases l) auto
qed simp

text \<open>The first commit that failed.\<close>

fun first_failure :: "(bytes \<times> nat res) list \<Rightarrow> (bytes \<times> error) option" where
  "first_failure [] = None"
| "first_failure ((q, Inl e) # outs) = Some (q, e)"
| "first_failure ((q, Inr _) # outs) = first_failure outs"

definition successes :: "(bytes \<times> nat res) list \<Rightarrow> (bytes \<times> nat) list" where
  "successes outs = concat (map (\<lambda>(q, r). case r of Inl _ \<Rightarrow> [] | Inr v \<Rightarrow> [(q, v)]) outs)"

lemma successes_simps [simp]: "successes [] = []" "successes ((q, Inl e) # outs) = successes outs"
  "successes ((q, Inr v) # outs) = (q, v) # successes outs"
  by (simp_all add: successes_def)

lemma tally_eq:
  "tally outs (k, tables, failure) =
     (k + length (successes outs), foldl (\<lambda>ts (q, v). set_version q v ts) tables (successes outs),
      case failure of None \<Rightarrow> first_failure outs | Some f \<Rightarrow> Some f)"
  by (induction outs "(k, tables, failure)" arbitrary: k tables failure rule: tally.induct) (auto split: option.splits)

lemma no_failure: "first_failure outs = None \<longleftrightarrow> (\<forall>(q, r) \<in> set outs. \<exists>v. r = Inr v)"
  by (induction outs rule: first_failure.induct) auto

text \<open>What the labels of a run say of where it is.\<close>

fun outcome_fits :: "load_label list \<Rightarrow> ('t, 'x, 'm) reader_pc \<Rightarrow> bool" where
  "outcome_fits ls (Committing _ targets outcomes n) \<longleftrightarrow>
     Concluded \<notin> set ls \<and> outcomes = committed ls \<and> n = length targets + length outcomes"
| "outcome_fits ls (Finished r) \<longleftrightarrow>
     (if Concluded \<in> set ls then
        (case first_failure (committed ls) of
           Some (q, e) \<Rightarrow> r = Inl (CommitFailed q (length (successes (committed ls))) (length (committed ls)) (display e))
         | None \<Rightarrow> True)
      else committed ls = [] \<and> (\<exists>e. r = Inl e))"
| "outcome_fits ls _ \<longleftrightarrow> committed ls = [] \<and> Concluded \<notin> set ls"

lemma conclude_failure:
  "first_failure outs = Some (q, e) \<Longrightarrow>
     conclude env v outs n ld w = (Inl (CommitFailed q (length (successes outs)) n (display e)), w)"
  by (simp add: conclude_def tally_eq)

lemma early_outcome:
  assumes "outcome_fits ls pc" "reader_phase pc = 1" "\<not> visible l" "reader_phase pc' = 1 \<or> (\<exists>e. pc' = Finished (Inl e))"
  shows "outcome_fits (ls @ [l]) pc'"
  using assms by (cases pc; cases pc'; cases l; auto)

lemma outcome_stutter: "\<not> visible l \<Longrightarrow> outcome_fits (ls @ [l]) pc = outcome_fits ls pc"
  by (cases pc; cases l) (auto split: option.splits)

lemma event_turn_phase:
  assumes "event_turn env events c = Some c'"
  shows "reader_phase (cf_pc c') = 1 \<or> (\<exists>e. cf_pc c' = Finished (Inl e))"
  using assms by (cases rule: event_turnE) (auto simp: stop_def)

lemma outcome_step:
  assumes st: "load_step env c l c'" and ok: "outcome_fits ls (cf_pc c)"
  shows "outcome_fits (ls @ [l]) (cf_pc c')"
  using st
proof (cases rule: load_step.cases)
  case reads
  from reads(3) show ?thesis by (cases rule: read_turnE) (use ok reads in \<open>auto simp: stop_def\<close>)
next
  case (handles events)
  have "\<not> visible l" using handles(1) by (auto split: list.splits)
  then show ?thesis using early_outcome[OF ok _ _ event_turn_phase[OF handles(3)]] handles(2) by simp
next
  case (commits dumped_by targets outcomes m i r w)
  then show ?thesis using ok by auto
next
  case (concludes dumped_by outcomes m)
  then show ?thesis using ok
    by (cases "first_failure (committed ls)")
      (auto simp: conclude_turn_def conclude_failure split: prod.splits)
next
  case (works i wk j q r w)
  then show ?thesis using ok by (simp add: set_worker_def outcome_stutter)
next
  case (tells i wk ev)
  then show ?thesis using ok by (simp add: set_worker_def outcome_stutter)
next
  case (retires i wk r)
  then show ?thesis using ok by (simp add: set_worker_def outcome_stutter del: outcome_fits.simps)
next
  case (leaves i wk)
  then show ?thesis using ok by (simp add: set_worker_def outcome_stutter)
next
  case (preloads t name r w)
  then show ?thesis using ok by (simp add: outcome_stutter)
qed (use ok in \<open>auto simp: stop_def set_worker_def sent_turn_def done_turn_def split: option.splits sum.splits\<close>)

lemma outcome_run:
  assumes "run (load_step env) (start_config env input w) ls c"
  shows "outcome_fits ls (cf_pc c)"
  using assms
proof (induction ls arbitrary: c rule: rev_induct)
  case Nil
  then show ?case by (simp add: start_config_def)
next
  case (snoc l ls)
  then obtain t where "run (load_step env) (start_config env input w) ls t" "load_step env t l c" by (auto simp: run_snoc)
  then show ?case using outcome_step snoc.IH by blast
qed

text \<open>
  C3. A load has two phases. Until its first commit it shows a reader of the lake nothing but empty tables
  where there was none, whatever the interleaving and however it fails; it fails before the commits
  having committed nothing; and once the commits are made it reports the first that failed, with how many
  of how many succeeded, so that a load that succeeds has committed every table.
\<close>

theorem load_is_two_phase:
  assumes "delta_lake (en_delta env) seen location loaded schema_of contents batch_rows buffered"
    and "run (load_step env) (start_config env input w) ls c"
  shows "(list_all (\<lambda>l. \<not> visible l) ls \<longrightarrow> invisible (seen w) (seen (cf_world c))) \<and>
    (\<forall>r. cf_pc c = Finished r \<longrightarrow>
       (if Concluded \<in> set ls then
          (case first_failure (committed ls) of
             Some (q, e) \<Rightarrow> r = Inl (CommitFailed q (length (successes (committed ls))) (length (committed ls)) (display e))
           | None \<Rightarrow> \<forall>(q, r) \<in> set (committed ls). \<exists>v. r = Inr v)
        else committed ls = [] \<and> (\<exists>e. r = Inl e)))"
proof (intro conjI impI allI)
  assume "list_all (\<lambda>l. \<not> visible l) ls"
  from delta_lake.run_invisible[OF assms(1,2) refl this] show "invisible (seen w) (seen (cf_world c))"
    by (simp add: start_config_def)
next
  fix r
  assume "cf_pc c = Finished r"
  then show "if Concluded \<in> set ls then
          (case first_failure (committed ls) of
             Some (q, e) \<Rightarrow> r = Inl (CommitFailed q (length (successes (committed ls))) (length (committed ls)) (display e))
           | None \<Rightarrow> \<forall>(q, r) \<in> set (committed ls). \<exists>v. r = Inr v)
        else committed ls = [] \<and> (\<exists>e. r = Inl e)"
    using outcome_run[OF assms(2)] no_failure[of "committed ls"] by (auto split: option.splits)
qed

end
