(* ===== verification/Load_Exec.thy ===== *)
theory Load_Exec
  imports Load_Phases
begin

section \<open>Playing a schedule\<close>

text \<open>
  The steps of the pipeline as a function: who moves is a list, the schedule, and playing one gives a run
  of the system. It makes the step relation executable.
\<close>

datatype move = Reader | Worker nat | Preloader nat

definition reader_turn :: "('f, 'b, 'a, 'r, 'w, 's, 't, 'k, 'x, 'm, 'v, 'i) loader_env
    \<Rightarrow> ('b, 'v, 't, 'k, 'x, 'm, 'i, 'w) config \<Rightarrow> (load_label \<times> ('b, 'v, 't, 'k, 'x, 'm, 'i, 'w) config) option" where
  "reader_turn env c =
     (case cf_pc c of
        ReadChunk \<Rightarrow> map_option (Pair Tau) (read_turn env c)
      | Handling events \<Rightarrow>
          map_option (Pair (case events of [] \<Rightarrow> Tau | ev # _ \<Rightarrow> Event ev)) (event_turn env events c)
      | Sending [] block events \<Rightarrow> Some (Tau, sent_turn block events c)
      | Sending ((i, j) # jobs) block events \<Rightarrow>
          if length (cf_workers c) \<le> i then None
          else (let wk = cf_workers c ! i
                in case wk_pc wk of
                     Gone \<Rightarrow> (case cf_events c of
                         [] \<Rightarrow> if all_gone (cf_workers c) then Some (Tau, stop pool_stopped c) else None
                       | ev # evs \<Rightarrow> Some (Tau, stop (dispatch_failure (Some ev)) (c\<lparr>cf_events := evs\<rparr>)))
                   | _ \<Rightarrow> if length (wk_queue wk) < QUEUE_DEPTH
                          then Some (Tau, (set_worker i (wk\<lparr>wk_queue := wk_queue wk @ [j]\<rparr>) c)\<lparr>cf_pc := Sending jobs block events\<rparr>)
                          else None)
      | Collecting co events \<Rightarrow>
          if en_threads env \<le> co_acked co then Some (Tau, done_turn env co events c)
          else (case cf_events c of
                  [] \<Rightarrow> if all_gone (cf_workers c) then Some (Tau, stop pool_stopped c) else None
                | Closed cl # evs \<Rightarrow> Some (Tau, c\<lparr>cf_events := evs, cf_pc := Collecting (collect cl co) events\<rparr>)
                | Failed e # evs \<Rightarrow> Some (Tau, stop e (c\<lparr>cf_events := evs\<rparr>)))
      | Committing dumped_by [] outcomes n \<Rightarrow> Some (Concluded, conclude_turn env dumped_by outcomes n c)
      | Committing dumped_by (target # targets) outcomes n \<Rightarrow>
          (case commit_turn (en_delta env) (lc_mode (en_config env)) target (cf_world c) of
             (r, w) \<Rightarrow> Some (Committed (ct_qualified target) r,
               c\<lparr>cf_world := w, cf_pc := Committing dumped_by targets (outcomes @ [(ct_qualified target, r)]) n\<rparr>))
      | Finished _ \<Rightarrow> None)"

definition worker_turn :: "('f, 'b, 'a, 'r, 'w, 's, 't, 'k, 'x, 'm, 'v, 'i) loader_env \<Rightarrow> nat
    \<Rightarrow> ('b, 'v, 't, 'k, 'x, 'm, 'i, 'w) config \<Rightarrow> ('b, 'v, 't, 'k, 'x, 'm, 'i, 'w) config option" where
  "worker_turn env i c =
     (if length (cf_workers c) \<le> i then None
      else (let wk = cf_workers c ! i
            in case wk_pc wk of
                 Working \<Rightarrow>
                   (case wk_queue wk of
                      j # q \<Rightarrow>
                        (case job_step (en_arrow env) (en_delta env) j (wk_state wk) (cf_world c) of
                           (r, w) \<Rightarrow> Some ((set_worker i (after_job r (wk\<lparr>wk_queue := q\<rparr>)) c)\<lparr>cf_world := w\<rparr>))
                    | [] \<Rightarrow> (case cf_pc c of Finished _ \<Rightarrow> Some (set_worker i (wk\<lparr>wk_pc := Leaving\<rparr>) c) | _ \<Rightarrow> None))
               | Telling ev \<Rightarrow>
                   if length (cf_events c) < event_capacity (en_threads env)
                   then Some ((set_worker i (wk\<lparr>wk_pc := after_telling ev\<rparr>) c)\<lparr>cf_events := cf_events c @ [ev]\<rparr>) else None
               | Leaving \<Rightarrow> Some (set_worker i (wk\<lparr>wk_pc := Gone, wk_queue := []\<rparr>) c)
               | Gone \<Rightarrow> None))"

definition preload_turn :: "('f, 'b, 'a, 'r, 'w, 's, 't, 'k, 'x, 'm, 'v, 'i) loader_env \<Rightarrow> nat
    \<Rightarrow> ('b, 'v, 't, 'k, 'x, 'm, 'i, 'w) config \<Rightarrow> ('b, 'v, 't, 'k, 'x, 'm, 'i, 'w) config option" where
  "preload_turn env t c =
     (if length (cf_tasks c) \<le> t then None
      else (case cf_tasks c ! t of
              Loaded _ \<Rightarrow> None
            | Loading name \<Rightarrow>
                (case preload_table (en_delta env) (en_alnum env) (lc_output_uri (en_config env)) name (en_store env)
                        (lc_storage_options (en_config env)) (cf_world c) of
                   (r, w) \<Rightarrow> Some (c\<lparr>cf_tasks := (cf_tasks c)[t := Loaded r], cf_world := w\<rparr>))))"

fun move_turn :: "('f, 'b, 'a, 'r, 'w, 's, 't, 'k, 'x, 'm, 'v, 'i) loader_env \<Rightarrow> move
    \<Rightarrow> ('b, 'v, 't, 'k, 'x, 'm, 'i, 'w) config \<Rightarrow> (load_label \<times> ('b, 'v, 't, 'k, 'x, 'm, 'i, 'w) config) option" where
  "move_turn env Reader c = reader_turn env c"
| "move_turn env (Worker i) c = map_option (Pair Tau) (worker_turn env i c)"
| "move_turn env (Preloader t) c = map_option (Pair Tau) (preload_turn env t c)"

fun play :: "('f, 'b, 'a, 'r, 'w, 's, 't, 'k, 'x, 'm, 'v, 'i) loader_env \<Rightarrow> move list
    \<Rightarrow> ('b, 'v, 't, 'k, 'x, 'm, 'i, 'w) config \<Rightarrow> (load_label list \<times> ('b, 'v, 't, 'k, 'x, 'm, 'i, 'w) config) option" where
  "play env [] c = Some ([], c)"
| "play env (m # ms) c =
     (case move_turn env m c of
        None \<Rightarrow> None
      | Some (l, c') \<Rightarrow> map_option (\<lambda>(ls, d). (l # ls, d)) (play env ms c'))"

lemma open_concurrency_pos: "0 < open_concurrency config"
  by (simp add: open_concurrency_def DEFAULT_COMMIT_CONCURRENCY_def)

lemma reader_turn_step:
  assumes "reader_turn env c = Some (l, c')"
  shows "load_step env c l c'"
proof (cases "cf_pc c")
  case ReadChunk
  then show ?thesis using assms by (auto simp: reader_turn_def intro: load_step.reads)
next
  case (Handling events)
  then show ?thesis using assms by (auto simp: reader_turn_def intro: load_step.handles)
next
  case (Sending jobs block events)
  show ?thesis
  proof (cases jobs)
    case Nil
    then show ?thesis using Sending assms by (auto simp: reader_turn_def intro: load_step.sent_all)
  next
    case (Cons job others)
    obtain i j where job: "job = (i, j)" by (cases job)
    have i: "i < length (cf_workers c)" using Sending Cons job assms by (auto simp: reader_turn_def split: if_splits)
    show ?thesis
    proof (cases "wk_pc (cf_workers c ! i) = Gone")
      case True
      then show ?thesis using Sending Cons job assms i
        by (auto simp: reader_turn_def Let_def split: list.splits if_splits
            intro: load_step.send_fails[of c i j] load_step.send_fails_all_gone[of c i j])
    next
      case False
      then show ?thesis using Sending Cons job assms i
        by (auto simp: reader_turn_def Let_def split: worker_pc.splits if_splits intro: load_step.sends[of c i j])
    qed
  qed
next
  case (Collecting co events)
  then show ?thesis using assms
    by (auto simp: reader_turn_def split: list.splits if_splits worker_event.splits
        intro: load_step.collected_all load_step.collects load_step.collect_fails load_step.collect_all_gone)
next
  case (Committing dumped_by targets outcomes n)
  show ?thesis
  proof (cases targets)
    case Nil
    then show ?thesis using Committing assms by (auto simp: reader_turn_def intro: load_step.concludes)
  next
    case (Cons target others)
    obtain r w where r: "commit_turn (en_delta env) (lc_mode (en_config env)) target (cf_world c) = (r, w)" by fastforce
    then show ?thesis
      using Committing Cons assms load_step.commits[of c dumped_by targets outcomes n 0 env r w] open_concurrency_pos
      by (auto simp: reader_turn_def)
  qed
next
  case (Finished r)
  then show ?thesis using assms by (simp add: reader_turn_def)
qed

lemma move_turn_step:
  assumes "move_turn env m c = Some (l, c')"
  shows "load_step env c l c'"
proof (cases m)
  case Reader
  then show ?thesis using assms reader_turn_step by simp
next
  case (Worker i)
  then show ?thesis using assms
    by (auto simp: worker_turn_def Let_def split: if_splits worker_pc.splits list.splits reader_pc.splits prod.splits
        intro: load_step.works load_step.tells load_step.retires load_step.leaves)
next
  case (Preloader t)
  then show ?thesis using assms
    by (auto simp: preload_turn_def split: if_splits preload_task.splits prod.splits intro: load_step.preloads)
qed

lemma play_run:
  assumes "play env ms c = Some (ls, c')"
  shows "run (load_step env) c ls c'"
  using assms
proof (induction ms arbitrary: c ls)
  case (Cons m ms)
  then obtain l d ls' where "move_turn env m c = Some (l, d)" "play env ms d = Some (ls', c')" "ls = l # ls'"
    by (auto split: option.splits)
  then show ?case using move_turn_step Cons.IH run_more by metis
qed simp

end
