(* ===== verification/Load_Replay.thy ===== *)
theory Load_Replay
  imports Load_Live
begin

section \<open>What a dump says, in order\<close>

text \<open>
  The sequential specification the pipeline is measured against: replaying the events of the scanner gives
  the blocks of the tables that are wanted, with the columns declared for them and their lines. The
  reader follows it, and its events are those of the whole input.
\<close>

lemma run_snoc_induct [consumes 1, case_names start step]:
  assumes "run step s ls t" "P [] s" "\<And>a l b ls. run step s ls a \<Longrightarrow> P ls a \<Longrightarrow> step a l b \<Longrightarrow> P (ls @ [l]) b"
  shows "P ls t"
  using assms(1)
proof (induction ls arbitrary: t rule: rev_induct)
  case Nil
  then show ?case using assms(2) by simp
next
  case (snoc l ls)
  then obtain a where "run step s ls a" "step a l t" by (auto simp: run_snoc)
  then show ?case using assms(3) snoc.IH by blast
qed

subsection \<open>The replay\<close>

record dump_block =
  db_table :: table_name
  db_columns :: "(bytes \<times> resolved_type) list"
  db_lines :: "bytes list"

record replay =
  rp_defs :: "bytes \<rightharpoonup> table_def"
  rp_open :: "dump_block option"
  rp_blocks :: "dump_block list"

definition declared_columns :: "(bytes \<Rightarrow> bytes) \<Rightarrow> (bytes \<rightharpoonup> table_def) \<Rightarrow> table_name \<Rightarrow> bytes list \<Rightarrow> (bytes \<times> resolved_type) list" where
  "declared_columns low defs table columns =
     (case defs (qualified_name table) of
        None \<Rightarrow> []
      | Some def \<Rightarrow> (case resolve_copy_columns low def columns of Inl e \<Rightarrow> [] | Inr types \<Rightarrow> zip columns types))"

fun replay_step :: "load_config \<Rightarrow> (bytes \<Rightarrow> bytes) \<Rightarrow> event \<Rightarrow> replay \<Rightarrow> replay" where
  "replay_step config low (DumpVersion v d) rp = rp"
| "replay_step config low (TableEvent def) rp = rp\<lparr>rp_defs := (rp_defs rp)(qualified_name (td_name def) \<mapsto> def)\<rparr>"
| "replay_step config low (CopyStart table columns) rp =
     rp\<lparr>rp_open := (if wanted config table
          then Some \<lparr>db_table = table, db_columns = declared_columns low (rp_defs rp) table columns, db_lines = []\<rparr> else None)\<rparr>"
| "replay_step config low (CopyRows payload) rp =
     rp\<lparr>rp_open := map_option (\<lambda>b. b\<lparr>db_lines := db_lines b @ fst (rows payload)\<rparr>) (rp_open rp)\<rparr>"
| "replay_step config low (CopyEnd table) rp =
     (case rp_open rp of None \<Rightarrow> rp | Some b \<Rightarrow> rp\<lparr>rp_open := None, rp_blocks := rp_blocks rp @ [b]\<rparr>)"

definition replay_of :: "load_config \<Rightarrow> (bytes \<Rightarrow> bytes) \<Rightarrow> event list \<Rightarrow> replay" where
  "replay_of config low evs = fold (replay_step config low) evs \<lparr>rp_defs = Map.empty, rp_open = None, rp_blocks = []\<rparr>"

lemma replay_of_simps [simp]:
  "replay_of config low [] = \<lparr>rp_defs = Map.empty, rp_open = None, rp_blocks = []\<rparr>"
  "replay_of config low (evs @ [ev]) = replay_step config low ev (replay_of config low evs)"
  by (simp_all add: replay_of_def)

definition dump_blocks :: "load_config \<Rightarrow> (bytes \<Rightarrow> bytes) \<Rightarrow> event list \<Rightarrow> dump_block list" where
  "dump_blocks config low evs = rp_blocks (replay_of config low evs)"

definition block_name :: "dump_block \<Rightarrow> bytes" where
  "block_name b = qualified_name (db_table b)"

fun events_of :: "load_label list \<Rightarrow> event list" where
  "events_of [] = []"
| "events_of (Event ev # ls) = ev # events_of ls"
| "events_of (_ # ls) = events_of ls"

lemma events_of_snoc [simp]: "events_of (ls @ [l]) = events_of ls @ (case l of Event ev \<Rightarrow> [ev] | _ \<Rightarrow> [])"
proof (induction ls)
  case Nil
  then show ?case by (cases l) auto
next
  case (Cons k ls)
  then show ?case by (cases k) auto
qed

subsection \<open>The moves of the reader\<close>

fun rest_of :: "('t, 'x, 'm) reader_pc \<Rightarrow> event list" where
  "rest_of (Handling events) = events"
| "rest_of (Sending _ _ events) = events"
| "rest_of (Collecting _ events) = events"
| "rest_of _ = []"

fun closing_of :: "('t, 'x, 'm) reader_pc \<Rightarrow> open_block option" where
  "closing_of (Sending _ block _) = block"
| "closing_of (Collecting co _) = Some (co_block co)"
| "closing_of _ = None"

lemma reader_moves:
  assumes st: "load_step env c l c'" and ph: "reader_phase (cf_pc c) = 1"
  obtains (stopped) e where "cf_pc c' = Finished (Inl e)"
  | (other) "l = Tau" "cf_loader c' = cf_loader c" "rest_of (cf_pc c') = rest_of (cf_pc c)" "reader_phase (cf_pc c') = 1"
      "closing_of (cf_pc c') = closing_of (cf_pc c)"
  | (fed) chunk input scanner events where "l = Tau" "cf_pc c = ReadChunk"
      "en_next env (ld_input (cf_loader c)) = Some (Inr (Some chunk), input)"
      "feed chunk (ld_scanner (cf_loader c)) = Inr (scanner, events)"
      "c' = c\<lparr>cf_loader := (cf_loader c)\<lparr>ld_input := input, ld_bytes_read := en_count env input, ld_scanner := scanner\<rparr>,
              cf_pc := Handling events\<rparr>"
  | (ended) input dumped_by targets where "l = Tau" "cf_pc c = ReadChunk"
      "en_next env (ld_input (cf_loader c)) = Some (Inr None, input)"
      "end_of_input ((cf_loader c)\<lparr>ld_input := input, ld_preloads := Map.empty\<rparr>) = Inr (dumped_by, targets)"
      "c' = c\<lparr>cf_loader := (cf_loader c)\<lparr>ld_input := input, ld_preloads := Map.empty\<rparr>,
              cf_pc := Committing dumped_by targets [] (length targets)\<rparr>"
  | (read_on) ld where "l = Tau" "cf_pc c = Handling []" "notify (en_callback env) None (cf_loader c) = Inr ld"
      "c' = c\<lparr>cf_loader := ld, cf_pc := ReadChunk\<rparr>"
  | (proceeded) ev others ld tasks w where "l = Event ev" "cf_pc c = Handling (ev # others)"
      "on_event env ev (cf_loader c) (cf_tasks c) (cf_world c) = Some (Inr (Proceed ld), tasks, w)"
      "c' = c\<lparr>cf_tasks := tasks, cf_world := w, cf_loader := ld, cf_pc := Handling others\<rparr>"
  | (dispatched) ev others ld jobs block tasks w where "l = Event ev" "cf_pc c = Handling (ev # others)"
      "on_event env ev (cf_loader c) (cf_tasks c) (cf_world c) = Some (Inr (Dispatch ld jobs block), tasks, w)"
      "c' = c\<lparr>cf_tasks := tasks, cf_world := w, cf_loader := ld, cf_pc := Sending jobs block others\<rparr>"
  | (closed) co events ld where "l = Tau" "cf_pc c = Collecting co events" "en_threads env \<le> co_acked co"
      "block_done (en_callback env) co (cf_loader c) = Inr ld" "c' = c\<lparr>cf_loader := ld, cf_pc := Handling events\<rparr>"
  using st
proof (cases rule: load_step.cases)
  case reads
  from reads(3) show ?thesis by (cases rule: read_turnE) (use reads stopped fed ended in \<open>auto simp: stop_def\<close>)
next
  case (handles events)
  from handles(3) show ?thesis
    by (cases rule: event_turnE) (use handles stopped read_on proceeded dispatched in \<open>auto simp: stop_def\<close>)
next
  case (sent_all block events)
  then show ?thesis using other by (cases block) (auto simp: sent_turn_def new_collected_def)
next
  case (collected_all co events)
  then show ?thesis using stopped closed
    by (cases "block_done (en_callback env) co (cf_loader c)") (auto simp: done_turn_def stop_def)
next
  case (collects co events cl evs)
  then show ?thesis using other by (simp add: collect_def)
qed (use ph stopped other in \<open>auto simp: stop_def set_worker_def\<close>)

subsection \<open>The events are those of the input\<close>

fun delivers :: "('i \<Rightarrow> (bytes option res \<times> 'i) option) \<Rightarrow> 'i \<Rightarrow> bytes list \<Rightarrow> 'i \<Rightarrow> bool" where
  "delivers next i [] j = (i = j)"
| "delivers next i (chunk # chunks) j = (\<exists>k. next i = Some (Inr (Some chunk), k) \<and> delivers next k chunks j)"

lemma delivers_snoc: "delivers next i chunks j \<Longrightarrow> next j = Some (Inr (Some chunk), k) \<Longrightarrow> delivers next i (chunks @ [chunk]) k"
  by (induction chunks arbitrary: i) auto

lemma feed_all_snoc:
  "feed_all chunks s = Inr (s', evs) \<Longrightarrow> feed chunk s' = Inr (s'', evs') \<Longrightarrow> feed_all (chunks @ [chunk]) s = Inr (s'', evs @ evs')"
  by (induction chunks arbitrary: s evs) (fastforce simp: and_then_eq_Inr)+

definition first_scanner :: "load_config \<Rightarrow> scanner" where
  "first_scanner config =
     (case lc_excluded_schemas config of Some schemas \<Rightarrow> set_excluded_schemas schemas new_scanner | None \<Rightarrow> new_scanner)"

text \<open>The events of a whole dump, delivered in chunks.\<close>

definition whole_dump :: "('f, 'b, 'a, 'r, 'w, 's, 't, 'k, 'x, 'm, 'v, 'i) loader_env \<Rightarrow> 'i \<Rightarrow> event list \<Rightarrow> bool" where
  "whole_dump env input evs \<longleftrightarrow>
     (\<exists>chunks j j' s. delivers (en_next env) input chunks j \<and> en_next env j = Some (Inr None, j')
        \<and> feed_all chunks (first_scanner (en_config env)) = Inr (s, evs) \<and> scan_finish s = Inr ())"

fun scan_ok :: "('f, 'b, 'a, 'r, 'w, 's, 't, 'k, 'x, 'm, 'v, 'i) loader_env \<Rightarrow> 'i \<Rightarrow> event list
    \<Rightarrow> ('t, 'x, 'm) reader_pc \<Rightarrow> ('t, 'x, 'm, 'i) loader \<Rightarrow> bool" where
  "scan_ok env input evs (Committing _ _ _ _) ld = whole_dump env input evs"
| "scan_ok env input evs (Finished r) ld = (\<forall>rep. r = Inr rep \<longrightarrow> whole_dump env input evs)"
| "scan_ok env input evs pc ld =
     (\<exists>chunks. delivers (en_next env) input chunks (ld_input ld)
        \<and> feed_all chunks (first_scanner (en_config env)) = Inr (ld_scanner ld, evs @ rest_of pc))"

lemma scan_ok_1: "reader_phase pc = 1 \<Longrightarrow> scan_ok env input evs pc ld \<longleftrightarrow>
    (\<exists>chunks. delivers (en_next env) input chunks (ld_input ld)
        \<and> feed_all chunks (first_scanner (en_config env)) = Inr (ld_scanner ld, evs @ rest_of pc))"
  by (cases pc) auto

lemma on_event_scanner:
  assumes "on_event env ev ld tasks w = Some (Inr y, tasks', w')"
  shows "ld_scanner (case y of Proceed ld' \<Rightarrow> ld' | Dispatch ld' _ _ \<Rightarrow> ld') = ld_scanner ld"
  using assms
  by (auto simp: on_event_def on_version_def on_table_def on_copy_rows_def on_copy_end_def Let_def
      split: event.splits option.splits if_splits elim!: on_copy_startE start_blockE)

lemma late_steps:
  assumes st: "load_step env c l c'" and ph: "reader_phase (cf_pc c) = 0"
  shows "events_of (ls @ [l]) = events_of ls \<and> cf_loader c' = cf_loader c
    \<and> (cf_pc c' = cf_pc c \<or> (\<exists>v ts outs n v' ts' outs' n'. cf_pc c = Committing v ts outs n
         \<and> (cf_pc c' = Committing v' ts' outs' n' \<or> (\<exists>r. cf_pc c' = Finished r))))"
  using st by (cases rule: load_step.cases)
    (use ph in \<open>auto simp: set_worker_def conclude_turn_def split: prod.splits\<close>)

lemma scan_step:
  assumes st: "load_step env c l c'" and ok: "scan_ok env input (events_of ls) (cf_pc c) (cf_loader c)"
  shows "scan_ok env input (events_of (ls @ [l])) (cf_pc c') (cf_loader c')"
proof (cases "reader_phase (cf_pc c) = 1")
  case True
  note ok' = ok[unfolded scan_ok_1[OF True]]
  from st True show ?thesis
  proof (cases rule: reader_moves)
    case (fed chunk inp scanner events)
    then show ?thesis using ok' delivers_snoc feed_all_snoc by fastforce
  next
    case (ended inp dumped_by targets)
    then show ?thesis using ok' by (auto simp: whole_dump_def end_of_input_def and_then_eq_Inr)
  next
    case other
    then show ?thesis using ok' by (simp add: scan_ok_1)
  next
    case (read_on ld)
    then show ?thesis using ok' by (auto simp: notify_def Let_def split: if_splits)
  next
    case (proceeded ev others ld tasks w)
    then show ?thesis using ok' on_event_scanner[OF proceeded(3)] on_event_input[OF proceeded(3)] by simp
  next
    case (dispatched ev others ld jobs block tasks w)
    then show ?thesis using ok' on_event_scanner[OF dispatched(3)] on_event_input[OF dispatched(3)] by simp
  next
    case (closed co events ld)
    then show ?thesis using ok' by (auto simp: block_done_def notify_def Let_def split: if_splits)
  qed simp
next
  case False
  then have "reader_phase (cf_pc c) = 0" by (cases "cf_pc c") auto
  from late_steps[OF st this, of ls] show ?thesis using ok False by (cases "cf_pc c") auto
qed

lemma scan_start: "scan_ok env input [] (cf_pc (start_config env input w)) (cf_loader (start_config env input w))"
  by (auto simp: start_config_def new_loader_def first_scanner_def intro!: exI[of _ "[]"])

lemma scan_run_ok:
  assumes "run (load_step env) (start_config env input w) ls c"
  shows "scan_ok env input (events_of ls) (cf_pc c) (cf_loader c)"
  using assms by (rule run_snoc_induct) (use scan_start[of env input w] in simp, rule scan_step)

subsection \<open>The reader follows the replay\<close>

definition same_block :: "open_block \<Rightarrow> dump_block \<Rightarrow> bool" where
  "same_block b blk \<longleftrightarrow> ob_table b = db_table blk \<and> ob_qualified b = block_name blk \<and> ob_columns b = db_columns blk"

text \<open>Where the replay stands when the reader does: with a block, the one it closes, or none.\<close>

fun open_fits :: "load_config \<Rightarrow> table_name option \<Rightarrow> open_block option \<Rightarrow> bool \<Rightarrow> dump_block option \<Rightarrow> bool" where
  "open_fits config None current skipping ro = (current = None \<and> \<not> skipping \<and> ro = None)"
| "open_fits config (Some t) current skipping ro =
     (if wanted config t
      then \<not> skipping \<and> (\<exists>b blk. current = Some b \<and> ro = Some blk \<and> same_block b blk \<and> db_table blk = t)
      else skipping \<and> current = None \<and> ro = None)"

definition follows :: "load_config \<Rightarrow> (bytes \<Rightarrow> bytes) \<Rightarrow> event list \<Rightarrow> open_block option \<Rightarrow> ('t, 'x, 'm, 'i) loader \<Rightarrow> bool" where
  "follows config low evs closing ld \<longleftrightarrow>
     rp_defs (replay_of config low evs) = ld_defs ld
     \<and> (\<exists>o'. protocol evs None = Some o' \<and> open_fits config o' (ld_current ld) (ld_skipping ld) (rp_open (replay_of config low evs)))
     \<and> (\<forall>b. closing = Some b \<longrightarrow>
          ld_current ld = None \<and> (\<exists>bs blk. rp_blocks (replay_of config low evs) = bs @ [blk] \<and> same_block b blk))
     \<and> list_all (\<lambda>blk. wanted config (db_table blk)) (rp_blocks (replay_of config low evs))"

lemma protocol_prefix:
  assumes "scan_ok env input evs pc ld" "reader_phase pc = 1"
  shows "\<exists>o'. protocol evs None = Some o' \<and> protocol (rest_of pc) o' = Some (sc_open_table (ld_scanner ld))"
proof -
  obtain chunks where c: "feed_all chunks (first_scanner (en_config env)) = Inr (ld_scanner ld, evs @ rest_of pc)"
    using assms by (auto simp: scan_ok_1)
  have i: "scanner_inv (first_scanner (en_config env))" "sc_open_table (first_scanner (en_config env)) = None"
    using new_scanner_inv by (auto simp: first_scanner_def scanner_inv_def new_scanner_def set_excluded_schemas_def split: option.split)
  have "protocol (evs @ rest_of pc) None = Some (sc_open_table (ld_scanner ld))"
    using feed_all_run[OF c i(1)] i(2) by (simp add: scan_run_def)
  then show ?thesis by (auto simp: bind_eq_Some_conv)
qed

lemma follows_same:
  "follows config low evs closing ld \<Longrightarrow> ld_defs ld' = ld_defs ld \<Longrightarrow> ld_current ld' = ld_current ld \<Longrightarrow> ld_skipping ld' = ld_skipping ld \<Longrightarrow>
     follows config low evs closing ld'"
  by (simp add: follows_def)

lemma follows_closed: "follows config low evs (Some b) ld \<Longrightarrow> follows config low evs None ld"
  unfolding follows_def by blast

lemma follows_event:
  assumes ok: "follows (en_config env) (en_low env) evs None ld"
    and pr: "protocol evs None = Some o'" "protocol_step ev o' \<noteq> None"
    and ev: "on_event env ev ld tasks w = Some (Inr y, tasks', w')"
  shows "follows (en_config env) (en_low env) (evs @ [ev]) (case y of Proceed _ \<Rightarrow> None | Dispatch _ _ b \<Rightarrow> b)
    (case y of Proceed ld' \<Rightarrow> ld' | Dispatch ld' _ _ \<Rightarrow> ld')"
proof -
  have fit: "open_fits (en_config env) o' (ld_current ld) (ld_skipping ld) (rp_open (replay_of (en_config env) (en_low env) evs))"
    and defs: "rp_defs (replay_of (en_config env) (en_low env) evs) = ld_defs ld"
    using ok pr(1) by (auto simp: follows_def)
  show ?thesis
  proof (cases ev)
    case (DumpVersion v d)
    then show ?thesis using ok ev pr fit
      by (auto simp: on_event_def on_version_def follows_def split: option.splits if_splits)
  next
    case (TableEvent def)
    then show ?thesis using ok ev pr fit
      by (auto simp: on_event_def on_table_def follows_def Let_def split: if_splits)
  next
    case (CopyStart table columns)
    then have o': "o' = None" using pr(2) by (auto split: if_splits)
    from ev CopyStart have c: "on_copy_start env table columns ld tasks w = Some (Inr y, w')" by (auto simp: on_event_def)
    from c show ?thesis
    proof (cases rule: on_copy_startE)
      case skips
      then show ?thesis using ok pr CopyStart fit o' by (simp add: follows_def)
    next
      case (starts pairs q w1)
      have cols: "declared_columns (en_low env) (ld_defs ld) table columns = pairs" "wanted (en_config env) table"
        using starts(1) by (auto simp: starts_block_def declared_columns_def)
      from starts(2) show ?thesis
        by (rule start_blockE)
          (use ok pr CopyStart cols fit o' in \<open>auto simp: follows_def same_block_def block_for_def block_name_def\<close>)
    qed
  next
    case (CopyRows payload)
    then obtain t where o': "o' = Some t" using pr(2) by (auto split: if_splits)
    show ?thesis using ok ev pr fit CopyRows o'
      by (auto simp: on_event_def on_copy_rows_def follows_def same_block_def block_name_def split: option.splits if_splits)
  next
    case (CopyEnd table)
    then have o': "o' = Some table" using pr(2) by (auto split: if_splits)
    show ?thesis using ok ev pr fit CopyEnd o'
      by (auto simp: on_event_def on_copy_end_def follows_def same_block_def block_name_def split: option.splits if_splits)
  qed
qed

lemma closing_done:
  "block_done cb co ld = Inr ld' \<Longrightarrow> ld_defs ld' = ld_defs ld \<and> ld_current ld' = ld_current ld \<and> ld_skipping ld' = ld_skipping ld
     \<and> ld_targets ld' = ld_targets ld \<and> ld_preloads ld' = ld_preloads ld"
  by (auto simp: block_done_def notify_def Let_def split: if_splits)

lemma finished_scan:
  assumes "scan_ok env input evs ReadChunk ld" "scan_finish (ld_scanner ld) = Inr ()"
  shows "protocol evs None = Some None"
proof -
  obtain o' where o: "protocol evs None = Some o'" "o' = sc_open_table (ld_scanner ld)"
    using protocol_prefix[OF assms(1)] by auto
  obtain chunks where c: "feed_all chunks (first_scanner (en_config env)) = Inr (ld_scanner ld, evs)"
    using assms(1) by auto
  have "scanner_inv (first_scanner (en_config env))"
    using new_scanner_inv by (auto simp: first_scanner_def scanner_inv_def new_scanner_def split: option.split)
  then have "scanner_inv (ld_scanner ld)" using feed_all_run[OF c] by (simp add: scan_run_def)
  moreover have "sc_state (ld_scanner ld) = InSql"
    using assms(2) by (auto simp: scan_finish_def split: if_splits intro: scan_state.exhaust)
  ultimately show ?thesis using o by (simp add: scanner_inv_def)
qed

definition follow_ok :: "('f, 'b, 'a, 'r, 'w, 's, 't, 'k, 'x, 'm, 'v, 'i) loader_env \<Rightarrow> event list
    \<Rightarrow> ('b, 'v, 't, 'k, 'x, 'm, 'i, 'w) config \<Rightarrow> bool" where
  "follow_ok env evs c \<longleftrightarrow>
     (reader_phase (cf_pc c) = 1 \<longrightarrow> follows (en_config env) (en_low env) evs (closing_of (cf_pc c)) (cf_loader c))
     \<and> (\<forall>v ts outs n. cf_pc c = Committing v ts outs n \<longrightarrow> rp_open (replay_of (en_config env) (en_low env) evs) = None)"

lemma follow_step:
  assumes st: "load_step env c l c'" and scan: "scan_ok env input (events_of ls) (cf_pc c) (cf_loader c)"
    and ok: "follow_ok env (events_of ls) c"
  shows "follow_ok env (events_of (ls @ [l])) c'"
proof (cases "reader_phase (cf_pc c) = 1")
  case True
  have f: "follows (en_config env) (en_low env) (events_of ls) (closing_of (cf_pc c)) (cf_loader c)"
    using ok True by (simp add: follow_ok_def)
  from st True show ?thesis
  proof (cases rule: reader_moves)
    case (fed chunk inp scanner events)
    then show ?thesis using f by (auto simp: follow_ok_def elim: follows_same)
  next
    case (ended inp dumped_by targets)
    then have "protocol (events_of ls) None = Some None"
      using finished_scan[of env input "events_of ls" "cf_loader c"] scan by (auto simp: end_of_input_def and_then_eq_Inr)
    then show ?thesis using ended f by (auto simp: follow_ok_def follows_def)
  next
    case other
    then show ?thesis using f by (auto simp: follow_ok_def)
  next
    case (read_on ld)
    then show ?thesis using f by (auto simp: follow_ok_def notify_def Let_def split: if_splits elim: follows_same)
  next
    case (proceeded ev others ld tasks w)
    obtain o' where "protocol (events_of ls) None = Some o'" "protocol_step ev o' \<noteq> None"
      using protocol_prefix[OF scan True] proceeded(2) by (auto simp: bind_eq_Some_conv)
    from follows_event[OF _ this proceeded(3)] show ?thesis using f proceeded by (simp add: follow_ok_def)
  next
    case (dispatched ev others ld jobs block tasks w)
    obtain o' where "protocol (events_of ls) None = Some o'" "protocol_step ev o' \<noteq> None"
      using protocol_prefix[OF scan True] dispatched(2) by (auto simp: bind_eq_Some_conv)
    from follows_event[OF _ this dispatched(3)] show ?thesis using f dispatched by (simp add: follow_ok_def)
  next
    case (closed co events ld)
    then show ?thesis using f closing_done[OF closed(4)] follows_same[OF follows_closed] by (fastforce simp: follow_ok_def)
  next
    case (stopped e)
    then show ?thesis by (simp add: follow_ok_def)
  qed
next
  case False
  then have "reader_phase (cf_pc c) = 0" by (cases "cf_pc c") auto
  note late = late_steps[OF st this, of ls]
  then have e: "events_of (ls @ [l]) = events_of ls" "reader_phase (cf_pc c') \<noteq> 1" using False by auto
  show ?thesis using late ok unfolding follow_ok_def e(1) by (metis e(2))
qed

lemma follow_start: "follow_ok env [] (start_config env input w)"
  by (simp add: follow_ok_def start_config_def new_loader_def follows_def)

lemma follow_run:
  assumes "run (load_step env) (start_config env input w) ls c"
  shows "follow_ok env (events_of ls) c"
  using assms by (rule run_snoc_induct) (simp add: follow_start, rule follow_step, auto intro: scan_run_ok)

end
