(* ===== verification/Load_Targets.thy ===== *)
theory Load_Targets
  imports Load_Replay Load_Phases
begin

section \<open>The tables a load writes\<close>

text \<open>
  Every block of the replay has its commit target: a handle on the table at the location of its name,
  loaded at what a reader sees there, which is what was there before the load, or empty where there was
  nothing.
\<close>

definition opt_list :: "'y option \<Rightarrow> 'y list" where
  "opt_list o' = (case o' of None \<Rightarrow> [] | Some y \<Rightarrow> [y])"

lemma opt_list_simps [simp]: "opt_list None = []" "opt_list (Some y) = [y]"
  by (simp_all add: opt_list_def)

text \<open>The blocks begun: those finished, and the one that is open.\<close>

definition begun :: "replay \<Rightarrow> dump_block list" where
  "begun rp = rp_blocks rp @ opt_list (rp_open rp)"

lemma quiet_tasks:
  assumes "load_step env c l c'" "\<And>ev. l \<noteq> Event ev"
  shows "cf_tasks c' = cf_tasks c \<or> (\<exists>t name r. t < length (cf_tasks c) \<and> cf_tasks c ! t = Loading name
    \<and> preload_table (en_delta env) (en_alnum env) (lc_output_uri (en_config env)) name (en_store env)
        (lc_storage_options (en_config env)) (cf_world c) = (r, cf_world c')
    \<and> cf_tasks c' = (cf_tasks c)[t := Loaded r])"
  using assms(1)
proof (cases rule: load_step.cases)
  case reads
  from reads(3) show ?thesis by (cases rule: read_turnE) (auto simp: stop_def)
next
  case (handles events)
  from handles(3) show ?thesis by (cases rule: event_turnE) (use handles(1) assms(2) in \<open>auto simp: stop_def\<close>)
qed (auto simp: stop_def set_worker_def sent_turn_def done_turn_def conclude_turn_def split: option.splits sum.splits prod.splits)

context delta_lake
begin

lemma quiet_seen:
  assumes "load_step env c l c'" "\<And>ev. l \<noteq> Event ev" and d: "en_delta env = D" and "\<not> visible l"
  shows "seen (cf_world c') = seen (cf_world c)"
  using assms(1)
proof (cases rule: load_step.cases)
  case reads
  from reads(3) show ?thesis by (cases rule: read_turnE) (auto simp: stop_def)
next
  case (handles events)
  from handles(3) show ?thesis by (cases rule: event_turnE) (use handles(1) assms(2) in \<open>auto simp: stop_def\<close>)
next
  case (works i wk j q r w)
  then show ?thesis using same.job_step_R[of "en_arrow env" j "wk_state wk" "cf_world c"] d by (simp add: set_worker_def)
next
  case (preloads t name r w)
  then show ?thesis using preload_ok d by auto
qed (use assms(4) in \<open>auto simp: stop_def set_worker_def sent_turn_def done_turn_def split: option.splits sum.splits\<close>)

definition pre_ok :: "('f, 'b, 'a, 'r, 'w, 's, 't, 'k, 'x, 'm, 'v, 'i) loader_env \<Rightarrow> 'w \<Rightarrow> table_name
    \<Rightarrow> ('t, 'k) preloaded_table \<Rightarrow> bool" where
  "pre_ok env w name p \<longleftrightarrow>
     table_uri (en_alnum env) (lc_output_uri (en_config env)) name = Inr (pl_uri p) \<and> location (pl_table p) = pl_uri p
     \<and> (case pl_existing p of None \<Rightarrow> True
        | Some k \<Rightarrow> \<exists>v. loaded (pl_table p) = Some v \<and> seen w (pl_uri p) = Some v \<and> tv_schema v = k)"

fun task_ok :: "('f, 'b, 'a, 'r, 'w, 's, 't, 'k, 'x, 'm, 'v, 'i) loader_env \<Rightarrow> 'w \<Rightarrow> bytes
    \<Rightarrow> ('t, 'k) preload_task \<Rightarrow> bool" where
  "task_ok env w q (Loading name) = (qualified_name name = q)"
| "task_ok env w q (Loaded r) = (\<forall>p. r = Inr p \<longrightarrow> (\<exists>name. qualified_name name = q \<and> pre_ok env w name p))"

definition target_ok :: "('f, 'b, 'a, 'r, 'w, 's, 't, 'k, 'x, 'm, 'v, 'i) loader_env \<Rightarrow> 'w \<Rightarrow> 'w
    \<Rightarrow> ('t, 'x, 'm) commit_target \<Rightarrow> dump_block \<Rightarrow> bool" where
  "target_ok env w0 w tg blk \<longleftrightarrow>
     ct_qualified tg = block_name blk \<and> ct_schema tg = schema_of_pairs (en_config env) (db_columns blk)
     \<and> \<not> (lc_write_manifest (en_config env) \<and> reserved_collision (db_table blk))
     \<and> (\<exists>name v k. qualified_name name = block_name blk
          \<and> table_uri (en_alnum env) (lc_output_uri (en_config env)) name = Inr (location (ct_table tg))
          \<and> loaded (ct_table tg) = Some v \<and> seen w (location (ct_table tg)) = Some v
          \<and> dl_kernel D (ct_schema tg) = Inr k \<and> ct_drift tg = diff_schema (dl_shown D) (tv_schema v) k
          \<and> (lc_mode (en_config env) = Append \<longrightarrow> drift_is_empty (ct_drift tg))
          \<and> (lc_mode (en_config env) = ErrorIfExists \<longrightarrow> tv_files v = {})
          \<and> (seen w0 (location (ct_table tg)) = Some v \<or> seen w0 (location (ct_table tg)) = None \<and> (\<exists>k. v = empty_view k)))"

lemma invisible_keeps: "invisible s s' \<Longrightarrow> s u = Some v \<Longrightarrow> s' u = Some v"
  unfolding invisible_def by (metis option.distinct(1))

lemma pre_ok_mono: "pre_ok env w name p \<Longrightarrow> invisible (seen w) (seen w') \<Longrightarrow> pre_ok env w' name p"
  using invisible_keeps unfolding pre_ok_def by (cases "pl_existing p") fastforce+

lemma task_ok_mono: "task_ok env w q tk \<Longrightarrow> invisible (seen w) (seen w') \<Longrightarrow> task_ok env w' q tk"
  using pre_ok_mono by (cases tk) fastforce+

lemma target_ok_mono: "target_ok env w0 w tg blk \<Longrightarrow> invisible (seen w) (seen w') \<Longrightarrow> target_ok env w0 w' tg blk"
  using invisible_keeps unfolding target_ok_def by blast

lemma target_ok_cong:
  assumes "target_ok env w0 w tg blk" "db_table blk' = db_table blk" "db_columns blk' = db_columns blk"
  shows "target_ok env w0 w tg blk'"
  using assms(1) unfolding target_ok_def block_name_def assms(2,3) .

lemma preload_pre_ok:
  assumes "preload_table D (en_alnum env) (lc_output_uri (en_config env)) name s opts w = (Inr p, w')"
  shows "pre_ok env w' name p \<and> seen w' = seen w"
  using preload_ok[OF assms] by (auto simp: pre_ok_def split: option.splits)

text \<open>Opening a preloaded table gives a target.\<close>

lemma opened_target_ok:
  assumes f: "finish_open D q table (schema_of_pairs (en_config env) pairs) (lc_mode (en_config env)) w = (Inr opened, w')"
    and p: "pre_ok env w name q" "qualified_name name = qualified_name table"
    and inv: "invisible (seen w0) (seen w)" and r: "\<not> (lc_write_manifest (en_config env) \<and> reserved_collision table)"
  defines "tg \<equiv> target_for table (schema_of_pairs (en_config env) pairs) opened"
  shows "target_ok env w0 w' tg \<lparr>db_table = table, db_columns = pairs, db_lines = ls\<rparr>
    \<and> (\<forall>u. u \<noteq> location (ct_table tg) \<longrightarrow> seen w' u = seen w u)"
proof -
  obtain v k where v: "op_uri opened = pl_uri q" "location (op_table opened) = pl_uri q" "loaded (op_table opened) = Some v"
    "seen w' (pl_uri q) = Some v" "dl_kernel D (schema_of_pairs (en_config env) pairs) = Inr k"
    "op_drift opened = diff_schema (dl_shown D) (tv_schema v) k"
    "lc_mode (en_config env) = Append \<longrightarrow> drift_is_empty (op_drift opened)"
    "lc_mode (en_config env) = ErrorIfExists \<longrightarrow> tv_files v = {}"
    "seen w (pl_uri q) = Some v \<or> seen w (pl_uri q) = None \<and> v = empty_view k"
    "\<forall>u. u \<noteq> pl_uri q \<longrightarrow> seen w' u = seen w u"
    using finish_open_ok[OF f] p(1) unfolding pre_ok_def by blast
  have "seen w0 (pl_uri q) = Some v \<or> seen w0 (pl_uri q) = None \<and> (\<exists>k. v = empty_view k)"
    using v(9) inv unfolding invisible_def by (metis option.distinct(1) option.inject)
  then show ?thesis using v p r by (auto simp: target_ok_def tg_def target_for_def block_name_def pre_ok_def)
qed

text \<open>The invariant of phase one.\<close>

definition targets_ok :: "('f, 'b, 'a, 'r, 'w, 's, 't, 'k, 'x, 'm, 'v, 'i) loader_env \<Rightarrow> 'w \<Rightarrow> dump_block list
    \<Rightarrow> ('t, 'k) preload_task list \<Rightarrow> ('t, 'x, 'm, 'i) loader \<Rightarrow> 'w \<Rightarrow> bool" where
  "targets_ok env w0 blks tasks ld w \<longleftrightarrow>
     list_all2 (target_ok env w0 w) (ld_targets ld) blks
     \<and> (\<forall>q t. ld_preloads ld q = Some t \<longrightarrow> t < length tasks \<and> task_ok env w q (tasks ! t))
     \<and> (\<forall>u. seen w u \<noteq> seen w0 u \<longrightarrow> u \<in> (\<lambda>tg. location (ct_table tg)) ` set (ld_targets ld))
     \<and> invisible (seen w0) (seen w)"

lemma targets_ok_cong:
  assumes "targets_ok env w0 blks tasks ld w" "ld_targets ld' = ld_targets ld" "ld_preloads ld' = ld_preloads ld"
    and "map db_table blks' = map db_table blks" "map db_columns blks' = map db_columns blks"
  shows "targets_ok env w0 blks' tasks ld' w"
proof -
  have l: "length blks' = length blks" using assms(4) by (metis length_map)
  have "db_table (blks' ! i) = db_table (blks ! i) \<and> db_columns (blks' ! i) = db_columns (blks ! i)" if "i < length blks" for i
    using assms(4,5) that l by (metis nth_map)
  note eq = this
  have all: "list_all2 (target_ok env w0 w) (ld_targets ld) blks" using assms(1) by (simp add: targets_ok_def)
  have "list_all2 (target_ok env w0 w) (ld_targets ld') blks'"
  proof (rule list_all2_all_nthI)
    show "length (ld_targets ld') = length blks'" using all assms(2) l by (simp add: list_all2_lengthD)
    fix i
    assume "i < length (ld_targets ld')"
    then have i: "i < length blks" "i < length (ld_targets ld)" using assms(2) list_all2_lengthD[OF all] by simp_all
    show "target_ok env w0 w (ld_targets ld' ! i) (blks' ! i)"
      unfolding assms(2) by (rule target_ok_cong[OF list_all2_nthD[OF all i(2)]]) (simp_all add: eq[OF i(1)])
  qed
  then show ?thesis using assms(1) unfolding targets_ok_def assms(2,3) by blast
qed

lemma targets_ok_tasks:
  assumes ok: "targets_ok env w0 blks tasks ld w" and same: "seen w' = seen w" and d: "en_delta env = D"
    and ch: "tasks' = tasks \<or> (\<exists>t name r. t < length tasks \<and> tasks ! t = Loading name
      \<and> preload_table (en_delta env) (en_alnum env) (lc_output_uri (en_config env)) name (en_store env)
        (lc_storage_options (en_config env)) w = (r, w') \<and> tasks' = tasks[t := Loaded r])"
  shows "targets_ok env w0 blks tasks' ld w'"
proof -
  have inv: "invisible (seen w) (seen w')" using same by simp
  have "t < length tasks' \<and> task_ok env w' q (tasks' ! t)" if "ld_preloads ld q = Some t" for q t
    using ch
  proof (elim disjE exE conjE)
    assume "tasks' = tasks"
    then show ?thesis using ok that by (auto simp: targets_ok_def intro: task_ok_mono[OF _ inv])
  next
    fix t' name r
    assume n: "t' < length tasks" "tasks ! t' = Loading name" "tasks' = tasks[t' := Loaded r]"
      and p: "preload_table (en_delta env) (en_alnum env) (lc_output_uri (en_config env)) name (en_store env)
        (lc_storage_options (en_config env)) w = (r, w')"
    have t: "t < length tasks" "task_ok env w q (tasks ! t)" using ok that by (auto simp: targets_ok_def)
    show ?thesis
    proof (cases "t = t'")
      case True
      then have "qualified_name name = q" using t n by simp
      then have "task_ok env w' q (Loaded r)" using p[unfolded d] by (auto dest: preload_pre_ok)
      then show ?thesis using True n t by simp
    next
      case False
      then show ?thesis using t n by (simp add: task_ok_mono[OF _ inv])
    qed
  qed
  moreover have "list_all2 (target_ok env w0 w') (ld_targets ld) blks"
    using ok by (auto simp: targets_ok_def elim!: list_all2_mono intro: target_ok_mono[OF _ inv])
  ultimately show ?thesis using ok same by (simp add: targets_ok_def)
qed

lemma targets_ok_opens:
  assumes ok: "targets_ok env w0 blks tasks ld w" and d: "en_delta env = D"
    and st: "starts_block env table columns pairs ld tasks w (Inr q) w1"
    and f: "finish_open (en_delta env) q table (schema_of_pairs (en_config env) pairs) (lc_mode (en_config env)) w1 = (Inr opened, w')"
    and ld': "ld_targets ld' = ld_targets ld @ [target_for table (schema_of_pairs (en_config env) pairs) opened]"
      "ld_preloads ld' = (ld_preloads ld)(qualified_name table := None)"
  shows "targets_ok env w0 (blks @ [\<lparr>db_table = table, db_columns = pairs, db_lines = ls\<rparr>]) tasks ld' w'"
proof -
  obtain name where pre: "pre_ok env w1 name q" "qualified_name name = qualified_name table" and s1: "seen w1 = seen w"
  proof (cases "ld_preloads ld (qualified_name table)")
    case None
    then have "preload_table D (en_alnum env) (lc_output_uri (en_config env)) table (en_store env)
        (lc_storage_options (en_config env)) w = (Inr q, w1)"
      using st d by (simp add: starts_block_def)
    from preload_pre_ok[OF this] show ?thesis by (auto intro: that)
  next
    case (Some t)
    have w1: "tasks ! t = Loaded (Inr q)" "w1 = w" using st Some by (auto simp: starts_block_def)
    have "task_ok env w (qualified_name table) (tasks ! t)" using ok Some unfolding targets_ok_def by blast
    then obtain name where "qualified_name name = qualified_name table" "pre_ok env w name q" using w1(1) by auto
    then show ?thesis using w1(2) by (intro that[of name]) simp_all
  qed
  have inv0: "invisible (seen w0) (seen w1)" using ok s1 by (simp add: targets_ok_def)
  have r: "\<not> (lc_write_manifest (en_config env) \<and> reserved_collision table)" using st by (simp add: starts_block_def)
  have inv: "invisible (seen w) (seen w')"
    using shown.finish_open_R[of w1 q table "schema_of_pairs (en_config env) pairs" "lc_mode (en_config env)"] f d s1 by simp
  note op = opened_target_ok[OF f[unfolded d] pre inv0 r, of ls]
  have "list_all2 (target_ok env w0 w') (ld_targets ld) blks"
    using ok by (auto simp: targets_ok_def elim!: list_all2_mono intro: target_ok_mono[OF _ inv])
  then have "list_all2 (target_ok env w0 w') (ld_targets ld') (blks @ [\<lparr>db_table = table, db_columns = pairs, db_lines = ls\<rparr>])"
    using op ld'(1) by (auto intro: list_all2_appendI)
  moreover have "u \<in> (\<lambda>tg. location (ct_table tg)) ` set (ld_targets ld')" if "seen w' u \<noteq> seen w0 u" for u
  proof (cases "u = location (op_table opened)")
    case False
    then have "seen w' u = seen w1 u" using op by (simp add: target_for_def)
    then have "seen w u \<noteq> seen w0 u" using that s1 by simp
    then show ?thesis using ok ld'(1) by (auto simp: targets_ok_def)
  qed (simp add: ld'(1) target_for_def)
  moreover have "t < length tasks \<and> task_ok env w' p (tasks ! t)" if "ld_preloads ld' p = Some t" for p t
    using ok that ld'(2) by (auto simp: targets_ok_def intro: task_ok_mono[OF _ inv] split: if_splits)
  moreover have "invisible (seen w0) (seen w')" using ok inv by (auto simp: targets_ok_def intro: invisible_trans)
  ultimately show ?thesis by (simp add: targets_ok_def)
qed

lemma targets_ok_table:
  assumes ok: "targets_ok env w0 blks tasks ld w" and t: "on_table config def ld tasks = Some (ld', tasks')"
  shows "targets_ok env w0 blks tasks' ld' w"
proof (cases "wanted config (td_name def)")
  case False
  then show ?thesis using t ok by (auto simp: on_table_def Let_def targets_ok_def)
next
  case True
  then have ld': "ld_preloads ld' = (ld_preloads ld)(qualified_name (td_name def) \<mapsto> length tasks)"
    "ld_targets ld' = ld_targets ld" "tasks' = tasks @ [Loading (td_name def)]"
    using t by (auto simp: on_table_def Let_def split: if_splits)
  have "t < length tasks' \<and> task_ok env w q (tasks' ! t)" if "ld_preloads ld' q = Some t" for q t
    using that ok ld' by (auto simp: targets_ok_def nth_append split: if_splits)
  then show ?thesis using ok ld' by (simp add: targets_ok_def)
qed

lemma targets_event:
  assumes ok: "targets_ok env w0 (begun (replay_of (en_config env) (en_low env) evs)) tasks ld w" and d: "en_delta env = D"
    and f: "follows (en_config env) (en_low env) evs None ld"
    and pr: "protocol evs None = Some o'" "protocol_step ev o' \<noteq> None"
    and ev: "on_event env ev ld tasks w = Some (Inr y, tasks', w')"
  shows "targets_ok env w0 (begun (replay_of (en_config env) (en_low env) (evs @ [ev]))) tasks'
    (case y of Proceed ld' \<Rightarrow> ld' | Dispatch ld' _ _ \<Rightarrow> ld') w'"
proof -
  let ?rp = "replay_of (en_config env) (en_low env) evs"
  have fit: "open_fits (en_config env) o' (ld_current ld) (ld_skipping ld) (rp_open ?rp)" and defs: "rp_defs ?rp = ld_defs ld"
    using f pr(1) by (auto simp: follows_def)
  show ?thesis
  proof (cases ev)
    case (DumpVersion v d)
    then show ?thesis using ok ev
      by (auto simp: on_event_def on_version_def begun_def intro: targets_ok_cong split: option.splits if_splits)
  next
    case (TableEvent def)
    then have "y = Proceed (case y of Proceed ld' \<Rightarrow> ld' | Dispatch ld' _ _ \<Rightarrow> ld')" "w' = w"
      "on_table (en_config env) def ld tasks = Some (case y of Proceed ld' \<Rightarrow> ld' | Dispatch ld' _ _ \<Rightarrow> ld', tasks')"
      using ev by (auto simp: on_event_def)
    then show ?thesis using targets_ok_table[OF ok] TableEvent by (simp add: begun_def)
  next
    case (CopyStart table columns)
    then have o': "o' = None" using pr(2) by (auto split: if_splits)
    from ev CopyStart have c: "on_copy_start env table columns ld tasks w = Some (Inr y, w')" and t: "tasks' = tasks"
      by (auto simp: on_event_def)
    from c show ?thesis
    proof (cases rule: on_copy_startE)
      case skips
      then show ?thesis using ok CopyStart fit o' t by (auto simp: begun_def intro: targets_ok_cong)
    next
      case (starts pairs q w1)
      have cols: "declared_columns (en_low env) (ld_defs ld) table columns = pairs" "wanted (en_config env) table"
        using starts(1) by (auto simp: starts_block_def declared_columns_def)
      from starts(2) show ?thesis
      proof (cases rule: start_blockE)
        case (1 q' opened)
        have "targets_ok env w0 (begun ?rp @ [\<lparr>db_table = table, db_columns = pairs, db_lines = []\<rparr>]) tasks
            (case y of Proceed ld' \<Rightarrow> ld' | Dispatch ld' _ _ \<Rightarrow> ld') w'"
          by (rule targets_ok_opens[OF ok d starts(1)[unfolded 1(1)] 1(2)]) (simp_all add: 1(3))
        then show ?thesis using CopyStart cols defs fit o' t by (simp add: begun_def)
      qed
    qed
  next
    case (CopyRows payload)
    then have "tasks' = tasks" "w' = w" "ld_targets (case y of Proceed ld' \<Rightarrow> ld' | Dispatch ld' _ _ \<Rightarrow> ld') = ld_targets ld"
      "ld_preloads (case y of Proceed ld' \<Rightarrow> ld' | Dispatch ld' _ _ \<Rightarrow> ld') = ld_preloads ld"
      using ev by (auto simp: on_event_def on_copy_rows_def split: option.splits if_splits)
    then show ?thesis using targets_ok_cong[OF ok] CopyRows by (cases "rp_open ?rp") (simp_all add: begun_def)
  next
    case (CopyEnd table)
    then have "tasks' = tasks" "w' = w" "ld_targets (case y of Proceed ld' \<Rightarrow> ld' | Dispatch ld' _ _ \<Rightarrow> ld') = ld_targets ld"
      "ld_preloads (case y of Proceed ld' \<Rightarrow> ld' | Dispatch ld' _ _ \<Rightarrow> ld') = ld_preloads ld"
      using ev by (auto simp: on_event_def on_copy_end_def split: option.splits if_splits)
    then show ?thesis using targets_ok_cong[OF ok] CopyEnd by (cases "rp_open ?rp") (simp_all add: begun_def)
  qed
qed

definition targets_inv :: "('f, 'b, 'a, 'r, 'w, 's, 't, 'k, 'x, 'm, 'v, 'i) loader_env \<Rightarrow> 'w \<Rightarrow> event list
    \<Rightarrow> ('b, 'v, 't, 'k, 'x, 'm, 'i, 'w) config \<Rightarrow> bool" where
  "targets_inv env w0 evs c \<longleftrightarrow> (reader_phase (cf_pc c) = 1 \<longrightarrow>
     targets_ok env w0 (begun (replay_of (en_config env) (en_low env) evs)) (cf_tasks c) (cf_loader c) (cf_world c))"

lemma targets_step:
  assumes st: "load_step env c l c'" and d: "en_delta env = D"
    and scan: "scan_ok env input (events_of ls) (cf_pc c) (cf_loader c)" and fo: "follow_ok env (events_of ls) c"
    and ok: "targets_inv env w0 (events_of ls) c"
  shows "targets_inv env w0 (events_of (ls @ [l])) c'"
proof (cases "reader_phase (cf_pc c) = 1")
  case True
  let ?blks = "begun (replay_of (en_config env) (en_low env) (events_of ls))"
  have ok': "targets_ok env w0 ?blks (cf_tasks c) (cf_loader c) (cf_world c)" using ok True by (simp add: targets_inv_def)
  have f: "follows (en_config env) (en_low env) (events_of ls) (closing_of (cf_pc c)) (cf_loader c)"
    using fo True by (simp add: follow_ok_def)
  from st True show ?thesis
  proof (cases rule: reader_moves)
    case (fed chunk inp scanner events)
    then show ?thesis using ok' by (auto simp: targets_inv_def intro: targets_ok_cong)
  next
    case other
    have nh: "l \<noteq> Event ev" for ev using other(1) by simp
    have v: "\<not> visible l" using other(1) by simp
    have "targets_ok env w0 ?blks (cf_tasks c') (cf_loader c) (cf_world c')"
      using targets_ok_tasks[OF ok' quiet_seen[OF st nh d v] d] quiet_tasks[OF st nh] by blast
    then show ?thesis using other by (simp add: targets_inv_def)
  next
    case (read_on ld)
    then show ?thesis using ok' by (auto simp: targets_inv_def notify_def Let_def split: if_splits intro: targets_ok_cong)
  next
    case (proceeded ev others ld tasks w)
    obtain o' where "protocol (events_of ls) None = Some o'" "protocol_step ev o' \<noteq> None"
      using protocol_prefix[OF scan True] proceeded(2) by (auto simp: bind_eq_Some_conv)
    from targets_event[OF ok' d _ this proceeded(3)] show ?thesis using f proceeded by (simp add: targets_inv_def)
  next
    case (dispatched ev others ld jobs block tasks w)
    obtain o' where "protocol (events_of ls) None = Some o'" "protocol_step ev o' \<noteq> None"
      using protocol_prefix[OF scan True] dispatched(2) by (auto simp: bind_eq_Some_conv)
    from targets_event[OF ok' d _ this dispatched(3)] show ?thesis using f dispatched by (simp add: targets_inv_def)
  next
    case (closed co events ld)
    then show ?thesis using ok' closing_done[OF closed(4)] by (auto simp: targets_inv_def intro: targets_ok_cong)
  qed (simp_all add: targets_inv_def)
next
  case False
  then have "reader_phase (cf_pc c) = 0" by (cases "cf_pc c") auto
  then have "reader_phase (cf_pc c') \<noteq> 1" using late_steps[OF st, of ls] by auto
  then show ?thesis by (simp add: targets_inv_def)
qed

lemma targets_run:
  assumes "run (load_step env) (start_config env input w0) ls c" "en_delta env = D"
  shows "targets_inv env w0 (events_of ls) c"
  using assms(1)
proof (rule run_snoc_induct)
  show "targets_inv env w0 (events_of []) (start_config env input w0)"
    by (simp add: targets_inv_def start_config_def new_loader_def targets_ok_def begun_def)
qed (rule targets_step, auto intro: scan_run_ok follow_run assms(2))

end

end
