(* ===== verification/Load_Rows.thy ===== *)
theory Load_Rows
  imports Load_Phases Arrow_Laws
begin

section \<open>What a worker does with the rows\<close>

text \<open>
  A worker neither loses nor invents a row: what it holds of a block, in the batch under way and in the
  writer, grows by exactly the rows the lines of a job denote, and closing the block hands all of it over
  as staged files.
\<close>

text \<open>
  The locale \<open>load_stack\<close> joins the contracts of Arrow and of Delta Lake: a record batch read by columns
  and by rows is the same batch, and a flush writes files that did not exist.
\<close>

subsection \<open>What a line denotes\<close>

text \<open>The entries of one line of a \<open>COPY\<close> block, or \<open>None\<close> when it is not a row of these columns.\<close>

definition denote :: "('f, 'b, 'a, 'r) arrow_ops \<Rightarrow> limits \<Rightarrow> bool \<Rightarrow> bool \<Rightarrow> (bytes \<times> resolved_type) list \<Rightarrow> bytes \<Rightarrow> 'f entry list option" where
  "denote A limits wide native columns line =
     (case decode_row line (length columns) limits of
        Inl e \<Rightarrow> None
      | Inr (scratch, rgs) \<Rightarrow>
          (case row_values A (map fst columns) (map (\<lambda>(_, rt). kind_of (new_builder A rt wide native)) columns)
                  (map (cell scratch) rgs) of
             Inl e \<Rightarrow> None
           | Inr xs \<Rightarrow> Some (map snd xs)))"

definition denote_in :: "('f, 'b, 'a, 'r) arrow_ops \<Rightarrow> block_ctx \<Rightarrow> bytes \<Rightarrow> 'f entry list option" where
  "denote_in A ctx = denote A (cx_limits ctx) (cx_wide_numeric_as_decimal ctx) (cx_native_arrays ctx) (cx_columns ctx)"

text \<open>The rows a batch builder holds, and the files a list of actions adds.\<close>

definition unwritten :: "('b \<Rightarrow> 'f arrow_value option list) \<Rightarrow> 'b batch_builder \<Rightarrow> 'f entry list list" where
  "unwritten held bb = map (\<lambda>k. map (\<lambda>cb. cb_contents held cb ! k) (bb_columns bb)) [0..<bb_rows bb]"

definition added :: "('x, 'm) action list \<Rightarrow> 'x list" where
  "added acts = concat (map (\<lambda>a. case a of Add x \<Rightarrow> [x] | _ \<Rightarrow> []) acts)"

lemma added_simps [simp]: "added [] = []" "added (map Add xs) = xs" "added (as @ bs) = added as @ added bs"
  by (induction xs) (simp_all add: added_def)

locale load_stack =
  arrow_api A held btype acontents atype batch_columns +
  delta_lake D seen location loaded schema_of contents batch_rows buffered
  for A :: "('f, 'b, 'a, 'r) arrow_ops"
    and held :: "'b \<Rightarrow> 'f arrow_value option list" and btype :: "'b \<Rightarrow> data_type"
    and acontents :: "'a \<Rightarrow> 'f entry list" and atype :: "'a \<Rightarrow> data_type"
    and batch_columns :: "'r \<Rightarrow> 'f entry list list"
    and D :: "('w, 's, 't, 'k, 'x, 'm, 'v, 'r) delta_ops"
    and seen :: "'w \<Rightarrow> bytes \<Rightarrow> ('k, 'x) table_view option"
    and location :: "'t \<Rightarrow> bytes" and loaded :: "'t \<Rightarrow> ('k, 'x) table_view option"
    and schema_of :: "'m \<Rightarrow> 'k struct_type"
    and contents :: "'x \<Rightarrow> 'f entry list multiset" and batch_rows :: "'r \<Rightarrow> 'f entry list multiset"
    and buffered :: "'v \<Rightarrow> 'f entry list multiset" +
  fixes stored :: "'w \<Rightarrow> 'x set"
  assumes stored_laws: "stored w \<subseteq> stored (snd (dl_store D w p opts))" "stored w \<subseteq> stored (snd (dl_build D w uri opts st))"
      "stored w \<subseteq> stored (snd (dl_create D w t k))" "stored w \<subseteq> stored (snd (dl_write D w wr b))"
      "stored w \<subseteq> stored (snd (dl_flush D w wr))"
    and fresh_files: "dl_flush D w wr = (Inr (xs, wr'), w') \<Longrightarrow> set xs \<inter> stored w = {} \<and> set xs \<subseteq> stored w'"
    and same_batch: "batch_columns r = transposed n got \<Longrightarrow> 0 < n \<Longrightarrow> (\<And>row. row \<in> set got \<Longrightarrow> length row = n) \<Longrightarrow>
    batch_rows r = mset got"
begin

lemma stored_world_order: "world_order D (\<lambda>w w'. stored w \<subseteq> stored w')"
  by unfold_locales (auto dest: stored_laws[THEN subsetD])

end

sublocale load_stack \<subseteq> kept: world_order D "\<lambda>w w'. stored w \<subseteq> stored w'"
  by (rule stored_world_order)

context load_stack
begin

definition block_total :: "('b, 'v) worker_block \<Rightarrow> 'f entry list multiset" where
  "block_total blk = buffered (tw_writer (wb_writer blk)) + mset (unwritten held (wb_builder blk))"

definition closed_total :: "('x, 'm) block_closed \<Rightarrow> 'f entry list multiset" where
  "closed_total cl = sum_list (map contents (added (bc_staged cl)))"

definition block_ok :: "block_ctx \<Rightarrow> ('b, 'v) worker_block \<Rightarrow> bool" where
  "block_ok ctx blk \<longleftrightarrow>
     (\<exists>got. bb_inv btype held (wb_builder blk) got \<and> (\<forall>row \<in> set got. length row = length (cx_columns ctx))
        \<and> (cx_columns ctx = [] \<longrightarrow> got = []))
     \<and> length (bb_columns (wb_builder blk)) = length (cx_columns ctx)
     \<and> bb_names (wb_builder blk) = map fst (cx_columns ctx)
     \<and> bb_kinds (wb_builder blk) =
         map (\<lambda>(_, rt). kind_of (new_builder A rt (cx_wide_numeric_as_decimal ctx) (cx_native_arrays ctx))) (cx_columns ctx)
     \<and> tw_rows (wb_writer blk) = size (buffered (tw_writer (wb_writer blk)))"

definition closed_ok :: "('x, 'm) block_closed \<Rightarrow> bool" where
  "closed_ok cl \<longleftrightarrow> bc_rows cl = size (closed_total cl) \<and> (\<exists>xs. bc_staged cl = map Add xs)"

lemma unwritten_inv:
  assumes "bb_inv btype held bb got" "\<forall>row \<in> set got. length row = length (bb_columns bb)"
  shows "unwritten held bb = got"
proof (rule nth_equalityI)
  show "length (unwritten held bb) = length got" using assms(1) by (simp add: unwritten_def bb_inv_def)
  fix k
  assume "k < length (unwritten held bb)"
  then have k: "k < length got" "k < bb_rows bb" using assms(1) by (simp_all add: unwritten_def bb_inv_def)
  have "map (\<lambda>cb. cb_contents held cb ! k) (bb_columns bb) = got ! k"
    by (rule nth_equalityI) (use assms k in \<open>auto simp: bb_inv_def\<close>)
  then show "unwritten held bb ! k = got ! k" using k by (simp add: unwritten_def)
qed

lemma new_block_ok:
  assumes "new_block A D ctx = Inr blk"
  shows "block_ok ctx blk \<and> block_total blk = {#}"
proof -
  obtain v where v: "dl_writer D (cx_uri ctx) (cx_schema ctx) (cx_storage_options ctx) = Inr v"
    "wb_writer blk = \<lparr>tw_writer = v, tw_rows = 0\<rparr>"
    "wb_builder blk = new_batch_builder A (cx_columns ctx) (cx_batch_rows ctx) (cx_batch_bytes ctx)
       (cx_wide_numeric_as_decimal ctx) (cx_native_arrays ctx)"
    using assms by (auto simp: new_block_def new_table_writer_def and_then_eq_Inr delta_res_Inr)
  note new = new_batch_inv[of "cx_columns ctx" "cx_batch_rows ctx" "cx_batch_bytes ctx" "cx_wide_numeric_as_decimal ctx" "cx_native_arrays ctx"]
  have "length (bb_columns (wb_builder blk)) = length (cx_columns ctx)" "bb_names (wb_builder blk) = map fst (cx_columns ctx)"
    "bb_rows (wb_builder blk) = 0"
    by (simp_all add: v(3) new_batch_builder_def)
  then show ?thesis using new v writer_law[OF v(1)]
    by (auto simp: block_ok_def block_total_def unwritten_def intro: exI[of _ "[]"])
qed

lemma writer_write_ok:
  assumes "writer_write D tw b w = (Inr tw', w')"
  shows "buffered (tw_writer tw') = buffered (tw_writer tw) + batch_rows b \<and> tw_rows tw' = tw_rows tw + size (batch_rows b)"
proof -
  obtain q w1 where q: "dl_write D w (tw_writer tw) b = (q, w1)" by fastforce
  show ?thesis using assms write_law[OF q] q
    by (cases q) (auto simp: writer_write_def delta_w_def then_w_def delta_res_def rows_law)
qed

lemma flush_block_ok:
  assumes ok: "block_ok ctx blk" and f: "flush_block A D blk w = (Some (Inr blk'), w')"
  shows "block_ok ctx blk' \<and> block_total blk' = block_total blk \<and> unwritten held (wb_builder blk') = []"
proof -
  let ?bb = "wb_builder blk"
  obtain got where got: "bb_inv btype held ?bb got" "\<forall>row \<in> set got. length row = length (cx_columns ctx)"
    "cx_columns ctx = [] \<longrightarrow> got = []" and len: "length (bb_columns ?bb) = length (cx_columns ctx)"
    using ok by (auto simp: block_ok_def)
  have un: "unwritten held ?bb = got" using unwritten_inv[OF got(1)] got(2) len by simp
  show ?thesis
  proof (cases "got = []")
    case True
    then have "finish_batch A ?bb = Some (Inr None, ?bb)" using got(1) by (simp add: finish_batch_def bb_inv_def)
    then have "blk' = blk" using f by (simp add: flush_block_def)
    then show ?thesis using ok un True by simp
  next
    case False
    then have nonempty: "bb_columns ?bb \<noteq> []" using got(3) len by auto
    obtain r bb' where r: "finish_batch A ?bb = Some (Inr (Some r), bb')"
      "batch_columns r = transposed (length (bb_columns ?bb)) got" "bb_inv btype held bb' []" "bb_kinds bb' = bb_kinds ?bb"
      "bb_names bb' = bb_names ?bb" "length (bb_columns bb') = length (bb_columns ?bb)"
      using finish_batch_ok[OF got(1) nonempty False] by blast
    have "cx_columns ctx \<noteq> []" using nonempty len by auto
    then have rows: "batch_rows r = mset got"
      using same_batch[OF r(2)] got(2) len by simp
    obtain tw where tw: "writer_write D (wb_writer blk) r w = (Inr tw, w')"
      "blk' = blk\<lparr>wb_builder := bb', wb_writer := tw, wb_batches := wb_batches blk + 1\<rparr>"
      using f r(1) by (cases "writer_write D (wb_writer blk) r w"; cases "fst (writer_write D (wb_writer blk) r w)")
        (auto simp: flush_block_def lift_w_def then_o_def)
    have un': "unwritten held bb' = []" using r(3) by (simp add: unwritten_def bb_inv_def)
    show ?thesis using writer_write_ok[OF tw(1)] tw(2) ok r un un' rows
      by (auto simp: block_ok_def block_total_def intro!: exI[of _ "[]"])
  qed
qed

lemma decode_row_fields: "decode_row r n lim = Inr (scratch, rgs) \<Longrightarrow> 0 < n"
  by (cases n) (auto simp: decode_row_eq decode_cells_def and_then_eq_Inr dest!: decode_piecesD split: if_splits)

lemma row_step_ok:
  assumes ok: "block_ok ctx blk" and arity: "cx_arity ctx = length (cx_columns ctx)"
    and st: "row_step A D ctx line blk w = (Some (Inr blk'), w')"
  shows "\<exists>row. denote_in A ctx line = Some row \<and> block_ok ctx blk' \<and> block_total blk' = add_mset row (block_total blk)"
proof -
  let ?bb = "wb_builder blk"
  obtain got where got: "bb_inv btype held ?bb got" "\<forall>row \<in> set got. length row = length (cx_columns ctx)"
    and len: "length (bb_columns ?bb) = length (cx_columns ctx)" and names: "bb_names ?bb = map fst (cx_columns ctx)"
    and kinds: "bb_kinds ?bb =
         map (\<lambda>(_, rt). kind_of (new_builder A rt (cx_wide_numeric_as_decimal ctx) (cx_native_arrays ctx))) (cx_columns ctx)"
    using ok by (auto simp: block_ok_def)
  obtain scratch rgs where d: "decode_row line (cx_arity ctx) (cx_limits ctx) = Inr (scratch, rgs)"
    using st by (auto simp: row_step_def split: sum.splits)
  have eq: "append_row_ranges A scratch rgs ?bb = Some (append_row A (map (cell scratch) rgs) ?bb)"
    by (rule append_row_ranges_eq[OF d])
  obtain bb' where bb': "append_row A (map (cell scratch) rgs) ?bb = Inr bb'"
    using st d eq by (auto simp: row_step_def split: sum.splits)
  obtain xs where xs: "row_values A (bb_names ?bb) (bb_kinds ?bb) (map (cell scratch) rgs) = Inr xs"
    "bb_inv btype held bb' (got @ [map snd xs])" "length xs = length (bb_columns ?bb)" "bb_kinds bb' = bb_kinds ?bb"
    "bb_names bb' = bb_names ?bb" "length (bb_columns bb') = length (bb_columns ?bb)"
    using append_row_ok[OF got(1) bb'] by blast
  have den: "denote_in A ctx line = Some (map snd xs)"
    using d arity xs(1) names kinds by (simp add: denote_in_def denote_def)
  let ?blk = "blk\<lparr>wb_builder := bb'\<rparr>"
  have "cx_columns ctx \<noteq> []" using decode_row_fields[OF d] arity by auto
  then have ok': "block_ok ctx ?blk"
    using ok xs got(2) len by (auto simp: block_ok_def intro!: exI[of _ "got @ [map snd xs]"])
  have un: "unwritten held ?bb = got" "unwritten held bb' = got @ [map snd xs]"
    using unwritten_inv[OF got(1)] unwritten_inv[OF xs(2)] got(2) len xs(3,6) by auto
  then have total: "block_total ?blk = add_mset (map snd xs) (block_total blk)" by (simp add: block_total_def)
  show ?thesis
  proof (cases "is_full bb'")
    case True
    then have "flush_block A D ?blk w = (Some (Inr blk'), w')" using st d eq bb' by (simp add: row_step_def)
    from flush_block_ok[OF ok' this] show ?thesis using den total by auto
  next
    case False
    then show ?thesis using st d eq bb' den ok' total by (auto simp: row_step_def)
  qed
qed

lemma rows_loop_ok:
  assumes "block_ok ctx blk" "cx_arity ctx = length (cx_columns ctx)"
    and "rows_loop A D ctx ls blk w = (Some (Inr blk'), w')"
  shows "block_ok ctx blk' \<and> image_mset Some (block_total blk') = image_mset Some (block_total blk) + mset (map (denote_in A ctx) ls)"
  using assms
proof (induction ls arbitrary: blk w)
  case (Cons line ls)
  obtain blk1 w1 where st: "row_step A D ctx line blk w = (Some (Inr blk1), w1)"
    "rows_loop A D ctx ls blk1 w1 = (Some (Inr blk'), w')"
    using Cons.prems(3) by (cases "row_step A D ctx line blk w"; cases "fst (row_step A D ctx line blk w)")
      (auto simp: then_o_def split: sum.splits)
  show ?case using row_step_ok[OF Cons.prems(1,2) st(1)] Cons.IH[OF _ Cons.prems(2) st(2)] by auto
qed simp

text \<open>Files that a step from \<open>w\<close> to \<open>w'\<close> wrote.\<close>

definition fresh_in :: "'w \<Rightarrow> 'w \<Rightarrow> 'x list \<Rightarrow> bool" where
  "fresh_in w w' xs \<longleftrightarrow> distinct xs \<and> set xs \<inter> stored w = {} \<and> set xs \<subseteq> stored w'
     \<and> (\<forall>u v. seen w u = Some v \<longrightarrow> set xs \<inter> tv_files v = {})"

lemma fresh_in_Nil [simp]: "fresh_in w w' []"
  by (simp add: fresh_in_def)

lemma fresh_in_mono: "fresh_in v w' xs \<Longrightarrow> seen v = seen w \<Longrightarrow> stored w \<subseteq> stored v \<Longrightarrow> fresh_in w w' xs"
  by (auto simp: fresh_in_def)

lemma writer_stage_ok:
  assumes "writer_stage D tw w = (Inr (acts, tw'), w')"
  shows "\<exists>xs. acts = map Add xs \<and> sum_list (map contents xs) = buffered (tw_writer tw) \<and> tw_rows tw' = tw_rows tw
    \<and> fresh_in w w' xs"
proof -
  obtain q w1 where q: "dl_flush D w (tw_writer tw) = (q, w1)" by fastforce
  show ?thesis using assms flush_law[OF q] q fresh_files[of w "tw_writer tw"]
    by (cases q) (auto simp: writer_stage_def delta_w_def then_w_def delta_res_def fresh_in_def)
qed

lemma close_block_ok:
  assumes ok: "block_ok ctx blk" and st: "close_block A D g blk w = (Some (Inr cl), w')"
  shows "closed_total cl = block_total blk \<and> closed_ok cl \<and> fresh_in w w' (added (bc_staged cl))"
proof -
  obtain blk1 w1 where f: "flush_block A D blk w = (Some (Inr blk1), w1)"
    using st by (cases "flush_block A D blk w"; cases "fst (flush_block A D blk w)")
      (auto simp: close_block_def then_o_def split: sum.splits)
  obtain acts tw where s: "writer_stage D (wb_writer blk1) w1 = (Inr (acts, tw), w')"
    "cl = \<lparr>bc_generation = g, bc_rows = tw_rows tw, bc_batches = wb_batches blk1,
          bc_substitutions = bb_substitutions (wb_builder blk1), bc_staged = acts\<rparr>"
    using st f by (cases "writer_stage D (wb_writer blk1) w1"; cases "fst (writer_stage D (wb_writer blk1) w1)")
      (auto simp: close_block_def then_o_def lift_w_def)
  note fl = flush_block_ok[OF ok f]
  have w1: "seen w1 = seen w" "stored w \<subseteq> stored w1"
    using same.flush_block_R[of A blk w] kept.flush_block_R[of w A blk] f by simp_all
  obtain xs where xs: "acts = map Add xs" "sum_list (map contents xs) = buffered (tw_writer (wb_writer blk1))"
    "tw_rows tw = tw_rows (wb_writer blk1)" "fresh_in w1 w' xs"
    using writer_stage_ok[OF s(1)] by blast
  show ?thesis using fl xs s(2) fresh_in_mono[OF xs(4) w1]
    by (auto simp: closed_total_def closed_ok_def block_total_def block_ok_def)
qed

end

end
