(* ===== verification/Load_Account.thy ===== *)
theory Load_Account
  imports Load_Rows
begin

section \<open>Accounting for the rows of a block\<close>

text \<open>
  While a block is open, the rows its lines denote are exactly those the workers hold, those in the jobs
  on their way, and those in the files acknowledged, unless a worker was lost; and the files are new.
\<close>

lemma sum_list_at:
  fixes xs :: "'y::comm_monoid_add list"
  shows "i < length xs \<Longrightarrow> sum_list (xs[i := y]) + xs ! i = sum_list xs + y"
proof (induction xs arbitrary: i)
  case (Cons x xs)
  then show ?case by (cases i) (auto simp: ac_simps)
qed simp

lemma sum_map_at:
  fixes f :: "'z \<Rightarrow> 'y::cancel_comm_monoid_add"
  assumes "i < length xs" "f y = f (xs ! i) + d"
  shows "sum_list (map f (xs[i := y])) = sum_list (map f xs) + d"
proof -
  have "sum_list (map f (xs[i := y])) + f (xs ! i) = sum_list (map f xs) + f y"
    using sum_list_at[of i "map f xs" "f y"] assms(1) by (simp add: map_update)
  then have "sum_list (map f (xs[i := y])) + f (xs ! i) = (sum_list (map f xs) + d) + f (xs ! i)"
    using assms(2) by (simp add: ac_simps)
  then show ?thesis by simp
qed

lemma sum_map_zero: "(\<And>x. x \<in> set xs \<Longrightarrow> f x = 0) \<Longrightarrow> sum_list (map f xs) = (0 :: 'y::comm_monoid_add)"
  by (induction xs) auto

fun opens_block :: "job \<Rightarrow> bool" where
  "opens_block (Open _) = True"
| "opens_block _ = False"

definition queue_lines :: "job list \<Rightarrow> bytes list" where
  "queue_lines q = concat (map (\<lambda>j. case j of Rows _ p \<Rightarrow> fst (rows p) | _ \<Rightarrow> []) q)"

lemma queue_lines_simps [simp]: "queue_lines [] = []" "queue_lines (Open c # q) = queue_lines q"
  "queue_lines (Close g # q) = queue_lines q" "queue_lines (Rows g p # q) = fst (rows p) @ queue_lines q"
  "queue_lines (q @ q') = queue_lines q @ queue_lines q'"
  by (simp_all add: queue_lines_def)

definition told_of :: "('x, 'm) worker_event \<Rightarrow> ('x, 'm) action list" where
  "told_of ev = (case ev of Closed cl \<Rightarrow> bc_staged cl | Failed _ \<Rightarrow> [])"

lemma told_of_simps [simp]: "told_of (Closed cl) = bc_staged cl" "told_of (Failed e) = []"
  by (simp_all add: told_of_def)

definition telling :: "('b, 'v, 'x, 'm) pool_worker \<Rightarrow> ('x, 'm) action list" where
  "telling wk = (case wk_pc wk of Telling ev \<Rightarrow> told_of ev | _ \<Rightarrow> [])"

context load_stack
begin

definition block_of :: "block_ctx \<Rightarrow> ('b, 'v, 'x, 'm) pool_worker \<Rightarrow> ('b, 'v) worker_block option" where
  "block_of ctx wk = ws_blocks (wk_state wk) (cx_generation ctx)"

definition file_rows :: "('x, 'm) action list \<Rightarrow> 'f entry list option multiset" where
  "file_rows acts = image_mset Some (sum_list (map contents (added acts)))"

lemma file_rows_append [simp]: "file_rows [] = {#}" "file_rows (as @ bs) = file_rows as + file_rows bs"
  by (simp_all add: file_rows_def)

definition carried :: "block_ctx \<Rightarrow> ('b, 'v, 'x, 'm) pool_worker \<Rightarrow> 'f entry list option multiset" where
  "carried ctx wk =
     (case block_of ctx wk of None \<Rightarrow> {#} | Some blk \<Rightarrow> image_mset Some (block_total blk))
     + mset (map (denote_in A ctx) (queue_lines (wk_queue wk))) + file_rows (telling wk)"

text \<open>What a worker that is not lost knows of the block.\<close>

definition knows :: "bool \<Rightarrow> block_ctx \<Rightarrow> ('b, 'v, 'x, 'm) pool_worker \<Rightarrow> bool" where
  "knows closing ctx wk \<longleftrightarrow>
     (\<forall>g. g \<noteq> cx_generation ctx \<longrightarrow> ws_blocks (wk_state wk) g = None)
     \<and> (\<forall>blk. block_of ctx wk = Some blk \<longrightarrow> block_ok ctx blk)
     \<and> ((\<exists>q. wk_queue wk = Open ctx # q \<and> list_all (\<lambda>j. \<not> opens_block j) q \<and> block_of ctx wk = None)
        \<or> list_all (\<lambda>j. \<not> opens_block j) (wk_queue wk)
          \<and> (if closing \<and> wk_queue wk = [] then block_of ctx wk = None else ws_ctxs (wk_state wk) (cx_generation ctx) = Some ctx))
     \<and> (\<forall>cl. wk_pc wk = Telling (Closed cl) \<longrightarrow> closed_ok cl)"

lemma knows_ctx:
  assumes "knows closing ctx wk" "wk_queue wk = j # q" "\<not> opens_block j"
  shows "ws_ctxs (wk_state wk) (cx_generation ctx) = Some ctx"
  using assms by (auto simp: knows_def split: if_splits)

text \<open>A job done without failing.\<close>

lemma after_job_account:
  assumes wk: "wk_pc wk = Working" "wk_queue wk = j # q"
    and fit: "worker_fits st wk" "st = Opened (cx_generation ctx) \<and> \<not> closing \<or> st = Closing (cx_generation ctx) a \<and> closing"
    and knows: "knows closing ctx wk" and arity: "cx_arity ctx = length (cx_columns ctx)"
    and job: "job_step A D j (wk_state wk) w = (r, w')"
  defines "wk' \<equiv> after_job r (wk\<lparr>wk_queue := q\<rparr>)"
  assumes kept: "\<not> lost wk'"
  shows "knows closing ctx wk' \<and> carried ctx wk' = carried ctx wk \<and> fresh_in w w' (added (telling wk'))"
proof (cases j)
  case (Open c)
  then have c: "c = ctx" "list_all (\<lambda>j. \<not> opens_block j) q" "block_of ctx wk = None"
    using knows wk(2) by (auto simp: knows_def)
  have q: "q \<noteq> []" if closing using fit wk that Open by (auto simp: worker_simps)
  have r: "r = Some (Inr ((wk_state wk)\<lparr>ws_ctxs := (ws_ctxs (wk_state wk))(cx_generation c \<mapsto> c)\<rparr>, None))"
    using job Open by (simp add: job_step_def)
  show ?thesis using knows wk c q Open
    by (auto simp: wk'_def r after_job_def knows_def carried_def block_of_def telling_def)
next
  case (Rows g p)
  then have g: "g = cx_generation ctx" using fit wk by (auto simp: worker_simps split: if_splits)
  have q: "q \<noteq> []" if closing using fit wk that Rows by (auto simp: worker_simps)
  note c = knows_ctx[OF knows wk(2)]
  have ctx: "ws_ctxs (wk_state wk) g = Some ctx" using c Rows g by simp
  obtain blk where blk: "(case ws_blocks (wk_state wk) g of Some block \<Rightarrow> Inr block | None \<Rightarrow> new_block A D ctx) = Inr blk"
    using kept job ctx Rows
    by (cases "case ws_blocks (wk_state wk) g of Some block \<Rightarrow> Inr block | None \<Rightarrow> new_block A D ctx")
      (auto simp: wk'_def job_step_def then_o_def after_job_def lost_def)
  have ok: "block_ok ctx blk"
    "(case block_of ctx wk of None \<Rightarrow> {#} | Some blk \<Rightarrow> image_mset Some (block_total blk)) = image_mset Some (block_total blk)"
    using blk knows new_block_ok[of ctx blk] g by (auto simp: knows_def block_of_def split: option.splits)
  obtain o' w1 where o: "rows_loop A D ctx (fst (rows p)) blk w = (o', w1)" by fastforce
  obtain blk' where blk': "o' = Some (Inr blk')"
    using kept job ctx Rows blk o
    by (cases o'; cases "the o'") (auto simp: wk'_def job_step_def then_o_def after_job_def lost_def)
  have r: "r = Some (Inr ((wk_state wk)\<lparr>ws_blocks := (ws_blocks (wk_state wk))(g \<mapsto> blk')\<rparr>, None))"
    using job ctx Rows blk o blk' by (simp add: job_step_def then_o_def)
  note rl = rows_loop_ok[OF ok(1) arity o[unfolded blk']]
  show ?thesis using knows wk q Rows rl ctx g ok(2)
    by (auto simp: wk'_def r after_job_def knows_def carried_def block_of_def telling_def ac_simps)
next
  case (Close g)
  have g: "g = cx_generation ctx" "q = []" "closing"
    using fit wk Close by (cases q; auto simp: worker_simps)+
  let ?ws = "(wk_state wk)\<lparr>ws_ctxs := (ws_ctxs (wk_state wk))(g := None), ws_blocks := (ws_blocks (wk_state wk))(g := None)\<rparr>"
  show ?thesis
  proof (cases "ws_blocks (wk_state wk) g")
    case None
    then have r: "r = Some (Inr (?ws, Some (Closed (empty_closed g))))"
      using job Close by (simp add: job_step_def Let_def)
    have "closed_ok (empty_closed g)" by (simp add: closed_ok_def closed_total_def empty_closed_def)
    then show ?thesis using knows wk g Close None
      by (auto simp: wk'_def r after_job_def knows_def carried_def block_of_def telling_def file_rows_def empty_closed_def)
  next
    case (Some blk)
    then have ok: "block_ok ctx blk" using knows g by (simp add: knows_def block_of_def)
    obtain o' w1 where o: "close_block A D g blk w = (o', w1)" by fastforce
    obtain cl where cl: "o' = Some (Inr cl)"
      using kept job Close Some o
      by (cases o'; cases "the o'") (auto simp: wk'_def job_step_def then_o_def after_job_def lost_def Let_def)
    have r: "r = Some (Inr (?ws, Some (Closed cl)))" "w' = w1"
      using job Close Some o cl by (auto simp: job_step_def then_o_def Let_def)
    show ?thesis using knows wk g Close Some close_block_ok[OF ok o[unfolded cl]] r(2)
      by (auto simp: wk'_def r(1) after_job_def knows_def carried_def block_of_def telling_def file_rows_def closed_total_def)
  qed
qed

subsection \<open>The pool\<close>

definition told_rows :: "('x, 'm) worker_event list \<Rightarrow> 'f entry list option multiset" where
  "told_rows evs = sum_list (map (\<lambda>ev. file_rows (told_of ev)) evs)"

lemma told_rows_simps [simp]: "told_rows [] = {#}" "told_rows (ev # evs) = file_rows (told_of ev) + told_rows evs"
  "told_rows (as @ bs) = told_rows as + told_rows bs"
  by (simp_all add: told_rows_def)

definition accounted :: "bool \<Rightarrow> block_ctx \<Rightarrow> bytes list \<Rightarrow> ('b, 'v, 'x, 'm) pool_worker list \<Rightarrow> ('x, 'm) worker_event list
    \<Rightarrow> ('x, 'm) action list \<Rightarrow> bool" where
  "accounted closing ctx ls vs evs acts \<longleftrightarrow>
     (\<forall>wk \<in> set vs. lost wk \<or> knows closing ctx wk) \<and> (\<forall>cl. Closed cl \<in> set evs \<longrightarrow> closed_ok cl)
     \<and> ((\<forall>wk \<in> set vs. \<not> lost wk) \<longrightarrow>
          sum_list (map (carried ctx) vs) + told_rows evs + file_rows acts = mset (map (denote_in A ctx) ls))"

text \<open>Replacing one worker, with what it carried moved elsewhere.\<close>

lemma accounted_at:
  assumes ok: "accounted closing ctx ls vs evs acts" and i: "i < length vs"
    and wk: "lost (vs ! i) \<Longrightarrow> lost wk" "\<not> lost wk \<Longrightarrow> knows closing ctx (vs ! i) \<Longrightarrow> knows closing ctx wk"
    and evs: "\<And>cl. Closed cl \<in> set evs' \<Longrightarrow> Closed cl \<in> set evs \<or> \<not> lost wk \<and> (knows closing ctx (vs ! i) \<longrightarrow> closed_ok cl)"
    and ls: "mset (map (denote_in A ctx) ls') = mset (map (denote_in A ctx) ls) + m"
    and sum: "\<not> lost wk \<Longrightarrow> knows closing ctx (vs ! i) \<Longrightarrow> carried ctx wk + told_rows evs' = carried ctx (vs ! i) + told_rows evs + m"
  shows "accounted closing ctx ls' (vs[i := wk]) evs' acts"
  unfolding accounted_def
proof (intro conjI impI)
  have k: "lost (vs ! i) \<or> knows closing ctx (vs ! i)" using ok i by (auto simp: accounted_def)
  have up: "set (vs[i := wk]) \<subseteq> insert wk (set vs)" by (rule set_update_subset_insert)
  show "\<forall>v \<in> set (vs[i := wk]). lost v \<or> knows closing ctx v"
    using ok up k wk by (auto simp: accounted_def)
  show "\<forall>cl. Closed cl \<in> set evs' \<longrightarrow> closed_ok cl" using ok evs k wk(1) by (auto simp: accounted_def)
  assume nl: "\<forall>v \<in> set (vs[i := wk]). \<not> lost v"
  then have w: "\<not> lost wk" using i by (meson set_update_memI)
  then have kn: "knows closing ctx (vs ! i)" using k wk(1) by blast
  have "\<not> lost (vs ! j)" if "j < length vs" for j
    using nl w wk(1) that i nth_mem[of j "vs[i := wk]"] by (cases "j = i") auto
  then have "\<forall>v \<in> set vs. \<not> lost v" by (auto simp: in_set_conv_nth)
  then have eq: "sum_list (map (carried ctx) vs) + told_rows evs + file_rows acts = mset (map (denote_in A ctx) ls)"
    using ok by (simp add: accounted_def)
  have "sum_list (map (carried ctx) (vs[i := wk])) + carried ctx (vs ! i) = sum_list (map (carried ctx) vs) + carried ctx wk"
    using sum_list_at[of i "map (carried ctx) vs" "carried ctx wk"] i by (simp add: map_update)
  then have "(sum_list (map (carried ctx) (vs[i := wk])) + told_rows evs' + file_rows acts) + carried ctx (vs ! i)
      = sum_list (map (carried ctx) vs) + (carried ctx wk + told_rows evs') + file_rows acts"
    by (simp only: ac_simps)
  also have "\<dots> = (mset (map (denote_in A ctx) ls) + m) + carried ctx (vs ! i)"
    unfolding sum[OF w kn] eq[symmetric] by (simp only: ac_simps)
  finally show "sum_list (map (carried ctx) (vs[i := wk])) + told_rows evs' + file_rows acts = mset (map (denote_in A ctx) ls')"
    using ls by simp
qed

lemma accounted_works:
  assumes ok: "accounted closing ctx ls vs evs acts" and i: "i < length vs" "vs ! i = wk"
    and wk: "wk_pc wk = Working" "wk_queue wk = j # q"
    and fit: "worker_fits st wk" "st = Opened (cx_generation ctx) \<and> \<not> closing \<or> st = Closing (cx_generation ctx) a \<and> closing"
    and arity: "cx_arity ctx = length (cx_columns ctx)" and job: "job_step A D j (wk_state wk) w = (r, w')"
  shows "accounted closing ctx ls (vs[i := after_job r (wk\<lparr>wk_queue := q\<rparr>)]) evs acts"
proof -
  let ?wk = "after_job r (wk\<lparr>wk_queue := q\<rparr>)"
  have nl: "\<not> lost wk" using wk(1) by (simp add: lost_def)
  note step = after_job_account[OF wk fit _ arity job]
  show ?thesis
  proof (rule accounted_at[OF ok i(1), where m = "{#}"])
    show "knows closing ctx ?wk" if "\<not> lost ?wk" "knows closing ctx (vs ! i)" using step that i(2) by simp
    show "carried ctx ?wk + told_rows evs = carried ctx (vs ! i) + told_rows evs + {#}"
      if "\<not> lost ?wk" "knows closing ctx (vs ! i)" using step that i(2) by simp
  qed (use nl i(2) in simp_all)
qed

lemma accounted_tells:
  assumes ok: "accounted closing ctx ls vs evs acts" and i: "i < length vs" "vs ! i = wk" and wk: "wk_pc wk = Telling ev"
    and fit: "worker_fits st wk" "st = Opened (cx_generation ctx) \<and> \<not> closing \<or> st = Closing (cx_generation ctx) a \<and> closing"
  shows "accounted closing ctx ls (vs[i := wk\<lparr>wk_pc := after_telling ev\<rparr>]) (evs @ [ev]) acts"
proof (cases ev)
  case (Failed e)
  then show ?thesis by (intro accounted_at[OF ok i(1), where m = "{#}"]) (use i wk in \<open>simp_all add: lost_def\<close>)
next
  case (Closed cl)
  have q: "wk_queue wk = []" "closing" using fit wk Closed by (auto simp: worker_simps)
  show ?thesis
    by (rule accounted_at[OF ok i(1), where m = "{#}"])
      (use i wk Closed q in \<open>auto simp: lost_def knows_def block_of_def carried_def telling_def ac_simps\<close>)
qed

lemma accounted_leaves:
  assumes ok: "accounted closing ctx ls vs evs acts" and i: "i < length vs" "vs ! i = wk" and wk: "wk_pc wk = Leaving"
  shows "accounted closing ctx ls (vs[i := wk\<lparr>wk_pc := Gone, wk_queue := q\<rparr>]) evs acts"
  by (rule accounted_at[OF ok i(1), where m = "{#}"]) (use i wk in \<open>simp_all add: lost_def\<close>)

lemma accounted_opens:
  assumes "\<forall>wk \<in> set vs. at_rest wk \<and> ws_blocks (wk_state wk) = Map.empty"
  shows "accounted False ctx [] (map (\<lambda>wk. wk\<lparr>wk_queue := wk_queue wk @ [Open ctx]\<rparr>) vs) [] []"
proof -
  let ?wk = "\<lambda>wk :: ('b, 'v, 'x, 'm) pool_worker. wk\<lparr>wk_queue := wk_queue wk @ [Open ctx]\<rparr>"
  have wk: "knows False ctx (?wk wk)" "carried ctx (?wk wk) = {#}" if "wk \<in> set vs" for wk
    using assms that by (auto simp: at_rest_def knows_def block_of_def carried_def telling_def)
  then have "sum_list (map (carried ctx) (map ?wk vs)) = {#}" by (intro sum_map_zero) auto
  then show ?thesis using wk(1) by (auto simp: accounted_def)
qed

lemma accounted_feeds:
  assumes ok: "accounted False ctx ls vs evs acts" and k: "k < length vs"
  shows "accounted False ctx (ls @ fst (rows p)) (vs[k := (vs ! k)\<lparr>wk_queue := wk_queue (vs ! k) @ [Rows (cx_generation ctx) p]\<rparr>]) evs acts"
proof (rule accounted_at[OF ok k, where m = "mset (map (denote_in A ctx) (fst (rows p)))"])
  let ?wk = "(vs ! k)\<lparr>wk_queue := wk_queue (vs ! k) @ [Rows (cx_generation ctx) p]\<rparr>"
  show "knows False ctx ?wk" if "\<not> lost ?wk" "knows False ctx (vs ! k)"
    using that(2) by (auto simp: knows_def block_of_def)
  show "carried ctx ?wk + told_rows evs = carried ctx (vs ! k) + told_rows evs + mset (map (denote_in A ctx) (fst (rows p)))"
    by (simp add: carried_def block_of_def telling_def ac_simps)
qed (simp_all add: lost_def)

lemma accounted_closes:
  assumes ok: "accounted False ctx ls vs evs acts"
  shows "accounted True ctx ls (map (\<lambda>wk. wk\<lparr>wk_queue := wk_queue wk @ [Close (cx_generation ctx)]\<rparr>) vs) evs acts"
proof -
  let ?wk = "\<lambda>wk :: ('b, 'v, 'x, 'm) pool_worker. wk\<lparr>wk_queue := wk_queue wk @ [Close (cx_generation ctx)]\<rparr>"
  have "knows True ctx (?wk wk)" if "knows False ctx wk" for wk using that by (auto simp: knows_def block_of_def)
  moreover have "carried ctx (?wk wk) = carried ctx wk" "lost (?wk wk) = lost wk" for wk
    by (simp_all add: carried_def block_of_def telling_def lost_def)
  ultimately show ?thesis using ok by (auto simp: accounted_def comp_def)
qed

lemma accounted_collects:
  assumes "accounted closing ctx ls vs (Closed cl # evs) acts"
  shows "accounted closing ctx ls vs evs (acts @ bc_staged cl)"
  using assms by (auto simp: accounted_def ac_simps)

lemma accounted_closed:
  assumes ok: "accounted True ctx ls vs [] acts" and rest: "\<forall>wk \<in> set vs. at_rest wk"
  shows "file_rows acts = mset (map (denote_in A ctx) ls) \<and> (\<forall>wk \<in> set vs. ws_blocks (wk_state wk) = Map.empty)"
proof
  have nl: "\<forall>wk \<in> set vs. \<not> lost wk" using rest by (auto simp: worker_simps)
  have wk: "ws_blocks (wk_state wk) = Map.empty \<and> carried ctx wk = {#}" if "wk \<in> set vs" for wk
  proof -
    have "knows True ctx wk" "wk_queue wk = []" "wk_pc wk = Working" using ok rest nl that by (auto simp: accounted_def at_rest_def)
    then have "ws_blocks (wk_state wk) g = None" for g
      by (cases "g = cx_generation ctx") (auto simp: knows_def block_of_def)
    then show ?thesis using \<open>wk_queue wk = []\<close> \<open>wk_pc wk = Working\<close>
      by (auto simp: carried_def block_of_def telling_def)
  qed
  then have "sum_list (map (carried ctx) vs) = {#}" by (intro sum_map_zero) auto
  then show "file_rows acts = mset (map (denote_in A ctx) ls)" using ok nl by (simp add: accounted_def)
  show "\<forall>wk \<in> set vs. ws_blocks (wk_state wk) = Map.empty" using wk by blast
qed

subsection \<open>The files\<close>

definition pool_files :: "('b, 'v, 'x, 'm) pool_worker list \<Rightarrow> ('x, 'm) worker_event list \<Rightarrow> ('x, 'm) action list \<Rightarrow> 'x multiset" where
  "pool_files vs evs acts =
     sum_list (map (\<lambda>wk. mset (added (telling wk))) vs) + sum_list (map (\<lambda>ev. mset (added (told_of ev))) evs) + mset (added acts)"

definition unseen :: "'w \<Rightarrow> 'x set \<Rightarrow> bool" where
  "unseen w X \<longleftrightarrow> (\<forall>u v. seen w u = Some v \<longrightarrow> tv_files v \<inter> X = {})"

definition clean :: "'w \<Rightarrow> ('x, 'm) action list \<Rightarrow> bool" where
  "clean w acts \<longleftrightarrow> acts = map Add (added acts) \<and> distinct (added acts) \<and> set (added acts) \<subseteq> stored w \<and> unseen w (set (added acts))"

definition files_ok :: "'w \<Rightarrow> 'x multiset \<Rightarrow> (bytes \<rightharpoonup> ('x, 'm) action list) \<Rightarrow> bool" where
  "files_ok w F staged \<longleftrightarrow>
     (\<forall>x. count F x \<le> 1) \<and> set_mset F \<subseteq> stored w \<and> unseen w (set_mset F)
     \<and> (\<forall>q acts. staged q = Some acts \<longrightarrow> clean w acts \<and> set (added acts) \<inter> set_mset F = {})"

lemma unseen_mono: "unseen w X \<Longrightarrow> invisible (seen w) (seen w') \<Longrightarrow> unseen w' X"
  unfolding unseen_def invisible_def
  by (metis empty_view_def inf_bot_left option.inject option.distinct(1) table_view.select_convs(3))

lemma unseen_Un: "unseen w (X \<union> Y) \<longleftrightarrow> unseen w X \<and> unseen w Y"
  unfolding unseen_def by blast

lemma clean_append: "clean w as \<Longrightarrow> clean w bs \<Longrightarrow> set (added as) \<inter> set (added bs) = {} \<Longrightarrow> clean w (as @ bs)"
  unfolding clean_def by (simp add: unseen_Un)

lemma clean_mono: "clean w acts \<Longrightarrow> stored w \<subseteq> stored w' \<Longrightarrow> invisible (seen w) (seen w') \<Longrightarrow> clean w' acts"
  by (auto simp: clean_def unseen_mono)

lemma files_mono:
  assumes "files_ok w F staged" "stored w \<subseteq> stored w'" "invisible (seen w) (seen w')"
  shows "files_ok w' F staged"
  using assms unseen_mono[OF _ assms(3)] clean_mono[OF _ assms(2,3)] unfolding files_ok_def by blast

lemma distinct_count: "(\<forall>x. count (mset xs) x \<le> 1) \<longleftrightarrow> distinct xs"
proof
  assume l: "\<forall>x. count (mset xs) x \<le> 1"
  have "count (mset xs) x = (if x \<in> set xs then 1 else 0)" for x
    using l[rule_format, of x] by (cases "x \<in> set xs") (simp_all add: le_Suc_eq)
  then show "distinct xs" by (simp add: distinct_count_atmost_1)
qed (simp add: distinct_count_atmost_1)

lemma files_fresh:
  assumes ok: "files_ok w F staged" and new: "fresh_in w w' xs"
    and later: "stored w \<subseteq> stored w'" "invisible (seen w) (seen w')"
  shows "files_ok w' (F + mset xs) staged"
proof -
  note ok' = files_mono[OF ok later]
  have d: "distinct xs" "set xs \<inter> stored w = {}" "set xs \<subseteq> stored w'" "unseen w (set xs)"
    using new by (auto simp: fresh_in_def unseen_def Int_commute)
  have "count (F + mset xs) x \<le> 1" for x
  proof (cases "x \<in> set xs")
    case True
    then have "x \<notin># F" using ok d(2) by (auto simp: files_ok_def)
    then show ?thesis using d(1) distinct_count[of xs] by (simp add: not_in_iff)
  next
    case False
    then have "count (mset xs) x = 0" by (simp add: count_eq_zero_iff)
    moreover have "count F x \<le> 1" using ok by (simp add: files_ok_def)
    ultimately show ?thesis unfolding count_union by linarith
  qed
  moreover have "set (added acts) \<inter> set_mset (F + mset xs) = {}" if "staged q = Some acts" for q acts
  proof -
    have "set (added acts) \<subseteq> stored w" "set (added acts) \<inter> set_mset F = {}"
      using ok that unfolding files_ok_def clean_def by blast+
    then show ?thesis using d(2) by auto
  qed
  moreover have "unseen w' (set_mset (F + mset xs))"
    using ok' unseen_mono[OF d(4) later(2)] by (simp add: files_ok_def unseen_Un)
  ultimately show ?thesis using ok' d(3) by (auto simp: files_ok_def)
qed

text \<open>The files of a block join those of its table.\<close>

lemma files_staged:
  assumes ok: "files_ok w (F + mset (added acts)) staged" and acts: "acts = map Add (added acts)"
  shows "files_ok w F (staged(q \<mapsto> (case staged q of Some before \<Rightarrow> before | None \<Rightarrow> []) @ acts))"
proof -
  let ?before = "case staged q of Some before \<Rightarrow> before | None \<Rightarrow> []"
  have c: "count F x + count (mset (added acts)) x \<le> 1" for x
    using ok by (simp add: files_ok_def)
  have F: "\<forall>x. count F x \<le> 1" using c by (meson add_leD1)
  have "\<forall>x. count (mset (added acts)) x \<le> 1" using c by (meson add_leD2)
  then have d: "distinct (added acts)" using distinct_count by blast
  have dis: "set (added acts) \<inter> set_mset F = {}"
  proof -
    have "x \<notin># F" if "x \<in> set (added acts)" for x
    proof -
      have "0 < count (mset (added acts)) x" using that by simp
      then have "count F x = 0" using c[of x] by linarith
      then show ?thesis by (simp add: not_in_iff)
    qed
    then show ?thesis by blast
  qed
  have u: "unseen w (set_mset F)" "unseen w (set (added acts))" and st: "set (added acts) \<subseteq> stored w" "set_mset F \<subseteq> stored w"
    using ok by (simp_all add: files_ok_def unseen_Un)
  have b: "clean w ?before" "set (added ?before) \<inter> (set_mset F \<union> set (added acts)) = {}"
    using ok by (cases "staged q"; simp add: files_ok_def clean_def unseen_def)+
  have "clean w acts" using acts d u st by (simp add: clean_def)
  then have "clean w (?before @ acts)" using b by (intro clean_append) auto
  moreover have "set (added (?before @ acts)) \<inter> set_mset F = {}" using b(2) dis by auto
  ultimately show ?thesis using ok F u st unfolding files_ok_def by simp blast
qed

lemma pool_files_at:
  assumes "i < length vs"
  shows "pool_files (vs[i := wk]) evs acts + mset (added (telling (vs ! i))) = pool_files vs evs acts + mset (added (telling wk))"
proof -
  have "sum_list (map (\<lambda>wk. mset (added (telling wk))) (vs[i := wk])) + mset (added (telling (vs ! i)))
      = sum_list (map (\<lambda>wk. mset (added (telling wk))) vs) + mset (added (telling wk))"
    using sum_list_at[of i "map (\<lambda>wk. mset (added (telling wk))) vs" "mset (added (telling wk))"] assms by (simp add: map_update)
  then show ?thesis unfolding pool_files_def by (metis (no_types, lifting) union_assoc union_commute)
qed

lemma pool_files_same:
  assumes "i < length vs" "telling wk = telling (vs ! i)"
  shows "pool_files (vs[i := wk]) evs acts = pool_files vs evs acts"
  using pool_files_at[OF assms(1), of wk evs acts] assms(2) by simp

lemma pool_files_mapped:
  "(\<And>wk. telling (f wk) = telling wk) \<Longrightarrow> pool_files (map f vs) evs acts = pool_files vs evs acts"
  by (simp add: pool_files_def comp_def)

subsection \<open>The two together, by stage\<close>

fun rows_ok :: "stage \<Rightarrow> block_ctx \<Rightarrow> bytes list \<Rightarrow> ('b, 'v, 'x, 'm) pool_worker list \<Rightarrow> ('x, 'm) worker_event list
    \<Rightarrow> ('x, 'm) action list \<Rightarrow> (bytes \<rightharpoonup> ('x, 'm) action list) \<Rightarrow> 'w \<Rightarrow> bool" where
  "rows_ok Idle ctx ls vs evs acts staged w =
     ((\<forall>wk \<in> set vs. ws_blocks (wk_state wk) = Map.empty) \<and> acts = [] \<and> files_ok w (pool_files vs evs acts) staged)"
| "rows_ok (Opened g) ctx ls vs evs acts staged w =
     (g = cx_generation ctx \<and> cx_arity ctx = length (cx_columns ctx) \<and> acts = []
      \<and> accounted False ctx ls vs evs acts \<and> files_ok w (pool_files vs evs acts) staged)"
| "rows_ok (Closing g a) ctx ls vs evs acts staged w =
     (g = cx_generation ctx \<and> cx_arity ctx = length (cx_columns ctx) \<and> acts = map Add (added acts)
      \<and> accounted True ctx ls vs evs acts \<and> files_ok w (pool_files vs evs acts) staged)"
| "rows_ok Over ctx ls vs evs acts staged w = True"

lemma rows_files: "st \<noteq> Over \<Longrightarrow> rows_ok st ctx ls vs evs acts staged w \<Longrightarrow> files_ok w (pool_files vs evs acts) staged"
  by (cases st) auto

lemma rows_mono:
  assumes "rows_ok st ctx ls vs evs acts staged w" "stored w \<subseteq> stored w'" "invisible (seen w) (seen w')"
  shows "rows_ok st ctx ls vs evs acts staged w'"
  using assms files_mono by (cases st) auto

lemma rows_works:
  assumes ok: "rows_ok st ctx ls vs evs acts staged w" and pool: "pool_ok st vs evs"
    and i: "i < length vs" "vs ! i = wk" and wk: "wk_pc wk = Working" "wk_queue wk = j # q"
    and job: "job_step A D j (wk_state wk) w = (r, w')"
  shows "rows_ok st ctx ls (vs[i := after_job r (wk\<lparr>wk_queue := q\<rparr>)]) evs acts staged w'"
proof (cases "st = Over")
  case False
  let ?wk = "after_job r (wk\<lparr>wk_queue := q\<rparr>)"
  have fit: "worker_fits st wk" using pool i list_all_at unfolding pool_ok_def by metis
  have later: "stored w \<subseteq> stored w'" "invisible (seen w) (seen w')"
    using kept.job_step_R[of w A j "wk_state wk"] same.job_step_R[of A j "wk_state wk" w] job by simp_all
  have idle: "st \<noteq> Idle" using fit wk(2) by (cases st) (auto simp: at_rest_def)
  define closing where "closing \<longleftrightarrow> (\<exists>a. st = Closing (cx_generation ctx) a)"
  obtain a where st: "st = Opened (cx_generation ctx) \<and> \<not> closing \<or> st = Closing (cx_generation ctx) a \<and> closing"
    using ok idle False by (cases st) (auto simp: closing_def)
  have acc: "accounted closing ctx ls vs evs acts" and arity: "cx_arity ctx = length (cx_columns ctx)"
    using ok st by auto
  have acc': "accounted closing ctx ls (vs[i := ?wk]) evs acts"
    by (rule accounted_works[OF acc i wk fit st arity job])
  have "wk \<in> set vs" using i nth_mem by blast
  then have kn: "knows closing ctx wk" using acc wk(1) by (auto simp: accounted_def lost_def)
  have new: "fresh_in w w' (added (telling ?wk))"
  proof (cases "lost ?wk")
    case True
    then have "telling ?wk = []" by (auto simp: lost_def telling_def split: worker_pc.splits worker_event.splits)
    then show ?thesis by simp
  next
    case False
    then show ?thesis using after_job_account[OF wk fit st kn arity job] by blast
  qed
  have "telling wk = []" using wk(1) by (simp add: telling_def)
  then have "pool_files (vs[i := ?wk]) evs acts = pool_files vs evs acts + mset (added (telling ?wk))"
    using pool_files_at[OF i(1), of ?wk evs acts] i(2) by simp
  then have "files_ok w' (pool_files (vs[i := ?wk]) evs acts) staged"
    using files_fresh[OF rows_files[OF False ok] new later] by simp
  then show ?thesis using ok st acc' by auto
qed simp

lemma rows_tells:
  assumes ok: "rows_ok st ctx ls vs evs acts staged w" and pool: "pool_ok st vs evs"
    and i: "i < length vs" "vs ! i = wk" and wk: "wk_pc wk = Telling ev"
  shows "rows_ok st ctx ls (vs[i := wk\<lparr>wk_pc := after_telling ev\<rparr>]) (evs @ [ev]) acts staged w"
proof (cases "st = Over")
  case False
  let ?wk = "wk\<lparr>wk_pc := after_telling ev\<rparr>"
  have fit: "worker_fits st wk" using pool i list_all_at unfolding pool_ok_def by metis
  have idle: "st \<noteq> Idle" using fit wk by (cases st) (auto simp: at_rest_def)
  define closing where "closing \<longleftrightarrow> (\<exists>a. st = Closing (cx_generation ctx) a)"
  obtain a where st: "st = Opened (cx_generation ctx) \<and> \<not> closing \<or> st = Closing (cx_generation ctx) a \<and> closing"
    using ok idle False by (cases st) (auto simp: closing_def)
  have acc: "accounted closing ctx ls vs evs acts" using ok st by auto
  have acc': "accounted closing ctx ls (vs[i := ?wk]) (evs @ [ev]) acts"
    by (rule accounted_tells[OF acc i wk fit st])
  have "telling wk = told_of ev" "telling ?wk = []" using wk by (cases ev; simp add: telling_def)+
  then have "pool_files (vs[i := ?wk]) (evs @ [ev]) acts = pool_files vs evs acts"
    using pool_files_at[OF i(1), of ?wk evs acts] i(2) by (auto simp: pool_files_def ac_simps)
  then show ?thesis using ok st acc' by auto
qed simp

lemma rows_leaves:
  assumes ok: "rows_ok st ctx ls vs evs acts staged w" and pool: "pool_ok st vs evs"
    and i: "i < length vs" "vs ! i = wk" and wk: "wk_pc wk = Leaving"
  shows "rows_ok st ctx ls (vs[i := wk\<lparr>wk_pc := Gone, wk_queue := q\<rparr>]) evs acts staged w"
proof -
  have "worker_fits st wk" using pool i list_all_at unfolding pool_ok_def by metis
  then have idle: "st \<noteq> Idle" using wk by (cases st) (auto simp: at_rest_def)
  have "pool_files (vs[i := wk\<lparr>wk_pc := Gone, wk_queue := q\<rparr>]) evs acts = pool_files vs evs acts"
    by (rule pool_files_same) (use i wk in \<open>simp_all add: telling_def\<close>)
  then show ?thesis using ok idle accounted_leaves[OF _ i wk] by (cases st) auto
qed

lemma rows_opens:
  assumes ok: "rows_ok Idle ctx0 ls0 vs evs acts staged w" and pool: "pool_ok Idle vs evs"
    and arity: "cx_arity ctx = length (cx_columns ctx)"
  shows "rows_ok (Opened (cx_generation ctx)) ctx [] (map (\<lambda>wk. wk\<lparr>wk_queue := wk_queue wk @ [Open ctx]\<rparr>) vs) evs [] staged w"
proof -
  have "evs = []" "\<forall>wk \<in> set vs. at_rest wk \<and> ws_blocks (wk_state wk) = Map.empty"
    using ok pool by (auto simp: pool_ok_def list_all_iff)
  moreover have "pool_files (map (\<lambda>wk. wk\<lparr>wk_queue := wk_queue wk @ [Open ctx]\<rparr>) vs) evs acts = pool_files vs evs acts"
    by (rule pool_files_mapped) (simp add: telling_def)
  ultimately show ?thesis using ok arity accounted_opens[of vs ctx] by auto
qed

lemma rows_feeds:
  assumes ok: "rows_ok (Opened g) ctx ls vs evs acts staged w" and k: "k < length vs"
  shows "rows_ok (Opened g) ctx (ls @ fst (rows p)) (vs[k := (vs ! k)\<lparr>wk_queue := wk_queue (vs ! k) @ [Rows g p]\<rparr>]) evs acts staged w"
proof -
  have "pool_files (vs[k := (vs ! k)\<lparr>wk_queue := wk_queue (vs ! k) @ [Rows g p]\<rparr>]) evs acts = pool_files vs evs acts"
    by (rule pool_files_same[OF k]) (simp add: telling_def)
  then show ?thesis using ok accounted_feeds[OF _ k, of ctx ls evs acts p] by auto
qed

lemma rows_closes:
  assumes ok: "rows_ok (Opened g) ctx ls vs evs acts staged w"
  shows "rows_ok (Closing g 0) ctx ls (map (\<lambda>wk. wk\<lparr>wk_queue := wk_queue wk @ [Close g]\<rparr>) vs) evs acts staged w"
proof -
  have "pool_files (map (\<lambda>wk. wk\<lparr>wk_queue := wk_queue wk @ [Close g]\<rparr>) vs) evs acts = pool_files vs evs acts"
    by (rule pool_files_mapped) (simp add: telling_def)
  then show ?thesis using ok accounted_closes[of ctx ls vs evs acts] by auto
qed

lemma rows_collects:
  assumes ok: "rows_ok (Closing g a) ctx ls vs (Closed cl # evs) acts staged w"
  shows "rows_ok (Closing g (Suc a)) ctx ls vs evs (acts @ bc_staged cl) staged w \<and> closed_ok cl"
proof -
  have cl: "closed_ok cl" using ok by (auto simp: accounted_def)
  then have "bc_staged cl = map Add (added (bc_staged cl))" by (auto simp: closed_ok_def)
  then have "acts @ bc_staged cl = map Add (added (acts @ bc_staged cl))" using ok by simp
  moreover have "pool_files vs evs (acts @ bc_staged cl) = pool_files vs (Closed cl # evs) acts"
    by (simp add: pool_files_def ac_simps)
  ultimately show ?thesis using ok cl accounted_collects[of True ctx ls vs cl evs acts] by auto
qed

lemma rows_closed:
  assumes ok: "rows_ok (Closing g a) ctx ls vs evs acts staged w" and pool: "pool_ok Idle vs evs"
  shows "rows_ok Idle ctx [] vs evs [] (staged(q \<mapsto> (case staged q of Some before \<Rightarrow> before | None \<Rightarrow> []) @ acts)) w
    \<and> file_rows acts = mset (map (denote_in A ctx) ls)"
proof -
  have e: "evs = []" and rest: "\<forall>wk \<in> set vs. at_rest wk" using pool by (auto simp: pool_ok_def list_all_iff)
  have acc: "accounted True ctx ls vs [] acts" using ok e by simp
  note fin = accounted_closed[OF acc rest]
  have "pool_files vs evs acts = pool_files vs evs [] + mset (added acts)" by (simp add: pool_files_def)
  then have "files_ok w (pool_files vs evs []) (staged(q \<mapsto> (case staged q of Some before \<Rightarrow> before | None \<Rightarrow> []) @ acts))"
    using ok files_staged[of w "pool_files vs evs []" acts staged q] by simp
  then show ?thesis using fin by simp
qed

end

end
