(* ===== verification/Load_Exact.thy ===== *)
theory Load_Exact
  imports Load_Targets Load_Account
begin

section \<open>The rows of a load\<close>

text \<open>
  Along every run the rows are accounted for: what is staged for a table are the rows its finished blocks
  denote, and those of the open block are on their way. The statistics count them.
\<close>

definition fits_block :: "load_config \<Rightarrow> block_ctx \<Rightarrow> dump_block \<Rightarrow> bool" where
  "fits_block config ctx blk \<longleftrightarrow> cx_columns ctx = db_columns blk \<and> cx_limits ctx = lc_limits config
     \<and> cx_wide_numeric_as_decimal ctx = lc_wide_numeric_as_decimal config \<and> cx_native_arrays ctx = lc_native_arrays config"

text \<open>The rows of a block: what its lines denote, where they denote anything.\<close>

definition block_rows :: "('f, 'b, 'a, 'r) arrow_ops \<Rightarrow> load_config \<Rightarrow> dump_block \<Rightarrow> 'f entry list option list" where
  "block_rows A config blk =
     map (denote A (lc_limits config) (lc_wide_numeric_as_decimal config) (lc_native_arrays config) (db_columns blk)) (db_lines blk)"

lemma denoted_rows: "fits_block config ctx blk \<Longrightarrow> map (denote_in A ctx) (db_lines blk) = block_rows A config blk"
  by (simp add: fits_block_def block_rows_def denote_in_def)

fun acts_of :: "('t, 'x, 'm) reader_pc \<Rightarrow> ('x, 'm) action list" where
  "acts_of (Collecting co _) = co_actions co"
| "acts_of _ = []"

text \<open>The block under way and those finished, for a reader that is or is not closing one.\<close>

definition current_block :: "replay \<Rightarrow> open_block option \<Rightarrow> dump_block option" where
  "current_block rp closing = (case closing of None \<Rightarrow> rp_open rp | Some _ \<Rightarrow> Some (last (rp_blocks rp)))"

definition done_blocks :: "replay \<Rightarrow> open_block option \<Rightarrow> dump_block list" where
  "done_blocks rp closing = (case closing of None \<Rightarrow> rp_blocks rp | Some _ \<Rightarrow> butlast (rp_blocks rp))"

lemma block_simps [simp]: "current_block rp None = rp_open rp" "current_block rp (Some b) = Some (last (rp_blocks rp))"
  "done_blocks rp None = rp_blocks rp" "done_blocks rp (Some b) = butlast (rp_blocks rp)"
  by (simp_all add: current_block_def done_blocks_def)

definition staged_for :: "(bytes \<rightharpoonup> ('x, 'm) action list) \<Rightarrow> bytes \<Rightarrow> ('x, 'm) action list" where
  "staged_for staged q = (case staged q of None \<Rightarrow> [] | Some acts \<Rightarrow> acts)"

text \<open>An event that leads to no job leaves the blocks as they are.\<close>

lemma proceeds_replay:
  assumes ev: "on_event env ev ld tasks w = Some (Inr (Proceed ld'), tasks', w')"
    and f: "follows (en_config env) (en_low env) evs None ld"
  shows "rp_blocks (replay_of (en_config env) (en_low env) (evs @ [ev])) = rp_blocks (replay_of (en_config env) (en_low env) evs)
    \<and> rp_open (replay_of (en_config env) (en_low env) (evs @ [ev])) = rp_open (replay_of (en_config env) (en_low env) evs)
    \<and> w' = w \<and> ld_staged ld' = ld_staged ld \<and> ld_tables ld' = ld_tables ld \<and> ld_total_rows ld' = ld_total_rows ld
    \<and> ld_current ld' = ld_current ld"
proof -
  let ?rp = "replay_of (en_config env) (en_low env) evs"
  obtain o' where fit: "open_fits (en_config env) o' (ld_current ld) (ld_skipping ld) (rp_open ?rp)"
    using f by (auto simp: follows_def)
  have skip: "rp_open ?rp = None" if "ld_skipping ld \<or> ld_current ld = None"
    using fit that by (cases o') (auto split: if_splits)
  show ?thesis
  proof (cases ev)
    case (DumpVersion v d)
    then show ?thesis using ev by (auto simp: on_event_def on_version_def split: option.splits if_splits)
  next
    case (TableEvent def)
    then show ?thesis using ev by (auto simp: on_event_def on_table_def Let_def split: if_splits)
  next
    case (CopyStart table columns)
    then have c: "on_copy_start env table columns ld tasks w = Some (Inr (Proceed ld'), w')"
      using ev by (auto simp: on_event_def)
    from c show ?thesis
    proof (cases rule: on_copy_startE)
      case skips
      then show ?thesis using CopyStart skip by simp
    next
      case (starts pairs p w1)
      from starts(2) show ?thesis by (rule start_blockE) simp
    qed
  next
    case (CopyRows payload)
    then show ?thesis using ev skip by (auto simp: on_event_def on_copy_rows_def split: option.splits if_splits)
  next
    case (CopyEnd table)
    then show ?thesis using ev skip by (auto simp: on_event_def on_copy_end_def split: option.splits if_splits)
  qed
qed

context load_stack
begin

definition booked :: "load_config \<Rightarrow> dump_block list \<Rightarrow> ('t, 'x, 'm, 'i) loader \<Rightarrow> bool" where
  "booked config blks ld \<longleftrightarrow>
     (\<forall>q. file_rows (staged_for (ld_staged ld) q)
        = sum_list (map (\<lambda>b. if block_name b = q then mset (block_rows A config b) else {#}) blks))
     \<and> map (\<lambda>t. (ts_table t, ts_rows t)) (ld_tables ld) = map (\<lambda>b. (block_name b, length (db_lines b))) blks
     \<and> ld_total_rows ld = sum_list (map (\<lambda>b. length (db_lines b)) blks)"

lemma booked_same:
  "booked config blks ld \<Longrightarrow> ld_staged ld' = ld_staged ld \<Longrightarrow> ld_tables ld' = ld_tables ld \<Longrightarrow>
     ld_total_rows ld' = ld_total_rows ld \<Longrightarrow> booked config blks ld'"
  by (simp add: booked_def)

lemma booked_block:
  assumes ok: "booked config blks ld" and d: "block_done cb co ld = Inr ld'"
    and name: "ob_qualified (co_block co) = block_name blk"
    and rows: "file_rows (co_actions co) = mset (block_rows A config blk)" "co_rows co = size (file_rows (co_actions co))"
  shows "booked config (blks @ [blk]) ld'"
proof -
  let ?q = "ob_qualified (co_block co)"
  have ld': "ld_staged ld' = (ld_staged ld)(?q \<mapsto> staged_for (ld_staged ld) ?q @ co_actions co)"
    "ld_tables ld' = ld_tables ld @ [stats_of co]" "ld_total_rows ld' = ld_total_rows ld + co_rows co"
    using d by (auto simp: block_done_def notify_def Let_def staged_for_def split: if_splits option.splits)
  have "staged_for (ld_staged ld') q = staged_for (ld_staged ld) q @ (if q = ?q then co_actions co else [])" for q
    by (simp add: ld'(1) staged_for_def)
  moreover have "length (db_lines blk) = co_rows co" using rows by (simp add: block_rows_def)
  moreover have "ts_table (stats_of co) = ?q" "ts_rows (stats_of co) = co_rows co" by (simp_all add: stats_of_def Let_def)
  ultimately show ?thesis using ok ld'(2,3) name rows(1) by (auto simp: booked_def)
qed

definition rows_inv :: "('f, 'b, 'a, 'r, 'w, 's, 't, 'k, 'x, 'm, 'v, 'i) loader_env \<Rightarrow> event list
    \<Rightarrow> ('b, 'v, 't, 'k, 'x, 'm, 'i, 'w) config \<Rightarrow> bool" where
  "rows_inv env evs c \<longleftrightarrow> (reader_phase (cf_pc c) = 1 \<longrightarrow>
     (let rp = replay_of (en_config env) (en_low env) evs; closing = closing_of (cf_pc c);
          st = stage_of (cf_pc c) (ld_current (cf_loader c))
      in booked (en_config env) (done_blocks rp closing) (cf_loader c)
         \<and> (\<exists>ctx lines. rows_ok st ctx lines (with_pending (jobs_of (cf_pc c)) (cf_workers c)) (cf_events c) (acts_of (cf_pc c))
               (ld_staged (cf_loader c)) (cf_world c)
             \<and> (st \<noteq> Idle \<longrightarrow> (\<exists>blk. current_block rp closing = Some blk \<and> fits_block (en_config env) ctx blk \<and> lines = db_lines blk)))
         \<and> (\<forall>co events. cf_pc c = Collecting co events \<longrightarrow> co_rows co = size (file_rows (co_actions co)))))"

lemma rows_invD:
  assumes "rows_inv env evs c" "reader_phase (cf_pc c) = 1"
  obtains ctx lines where
    "booked (en_config env) (done_blocks (replay_of (en_config env) (en_low env) evs) (closing_of (cf_pc c))) (cf_loader c)"
    "rows_ok (stage_of (cf_pc c) (ld_current (cf_loader c))) ctx lines (with_pending (jobs_of (cf_pc c)) (cf_workers c))
        (cf_events c) (acts_of (cf_pc c)) (ld_staged (cf_loader c)) (cf_world c)"
    "stage_of (cf_pc c) (ld_current (cf_loader c)) \<noteq> Idle \<Longrightarrow>
       \<exists>blk. current_block (replay_of (en_config env) (en_low env) evs) (closing_of (cf_pc c)) = Some blk
         \<and> fits_block (en_config env) ctx blk \<and> lines = db_lines blk"
    "\<And>co events. cf_pc c = Collecting co events \<Longrightarrow> co_rows co = size (file_rows (co_actions co))"
  using assms by (auto simp: rows_inv_def Let_def)

lemma rows_invI:
  assumes "booked (en_config env) (done_blocks (replay_of (en_config env) (en_low env) evs) (closing_of (cf_pc c))) (cf_loader c)"
    and "rows_ok (stage_of (cf_pc c) (ld_current (cf_loader c))) ctx sofar (with_pending (jobs_of (cf_pc c)) (cf_workers c))
        (cf_events c) (acts_of (cf_pc c)) (ld_staged (cf_loader c)) (cf_world c)"
    and "stage_of (cf_pc c) (ld_current (cf_loader c)) \<noteq> Idle \<Longrightarrow>
       \<exists>blk. current_block (replay_of (en_config env) (en_low env) evs) (closing_of (cf_pc c)) = Some blk
         \<and> fits_block (en_config env) ctx blk \<and> sofar = db_lines blk"
    and "\<And>co events. cf_pc c = Collecting co events \<Longrightarrow> co_rows co = size (file_rows (co_actions co))"
  shows "rows_inv env evs c"
  unfolding rows_inv_def Let_def using assms by blast

text \<open>Same place in the dump, same loader: what happens in the pool and in the storage.\<close>

lemma rows_inv_pool:
  assumes ok: "rows_inv env evs c" and c': "cf_pc c' = cf_pc c" "cf_loader c' = cf_loader c"
    and keep: "\<And>ctx lines. reader_phase (cf_pc c) = 1 \<Longrightarrow>
        rows_ok (stage_of (cf_pc c) (ld_current (cf_loader c))) ctx lines (with_pending (jobs_of (cf_pc c)) (cf_workers c))
          (cf_events c) (acts_of (cf_pc c)) (ld_staged (cf_loader c)) (cf_world c) \<Longrightarrow>
        rows_ok (stage_of (cf_pc c) (ld_current (cf_loader c))) ctx lines (with_pending (jobs_of (cf_pc c)) (cf_workers c'))
          (cf_events c') (acts_of (cf_pc c)) (ld_staged (cf_loader c)) (cf_world c')"
  shows "rows_inv env evs c'"
  using ok keep unfolding rows_inv_def c' Let_def by blast

text \<open>An event that leads to jobs.\<close>

lemma rows_dispatch:
  assumes ok: "rows_inv env evs c" and pc: "cf_pc c = Handling (ev # others)"
    and pool: "load_ok env c" and n: "0 < en_threads env" and d: "en_delta env = D"
    and f: "follows (en_config env) (en_low env) evs None (cf_loader c)"
    and ev: "on_event env ev (cf_loader c) (cf_tasks c) (cf_world c) = Some (Inr (Dispatch ld jobs block), tasks, w)"
  shows "rows_inv env (evs @ [ev]) (c\<lparr>cf_tasks := tasks, cf_world := w, cf_loader := ld, cf_pc := Sending jobs block others\<rparr>)"
proof -
  let ?rp = "replay_of (en_config env) (en_low env) evs"
  have len: "length (cf_workers c) = en_threads env" using pool by (simp add: load_ok_def)
  have pok: "pool_ok (block_stage (ld_current (cf_loader c))) (cf_workers c) (cf_events c)"
    using pool pc by (simp add: load_ok_def)
  have ph: "reader_phase (cf_pc c) = 1" using pc by simp
  obtain ctx lines where b: "booked (en_config env) (rp_blocks ?rp) (cf_loader c)"
    and r: "rows_ok (block_stage (ld_current (cf_loader c))) ctx lines (cf_workers c) (cf_events c) [] (ld_staged (cf_loader c)) (cf_world c)"
    and at: "block_stage (ld_current (cf_loader c)) \<noteq> Idle \<Longrightarrow>
       \<exists>blk. rp_open ?rp = Some blk \<and> fits_block (en_config env) ctx blk \<and> lines = db_lines blk"
    by (rule rows_invD[OF ok ph]) (simp add: pc)
  have later: "stored (cf_world c) \<subseteq> stored w" "invisible (seen (cf_world c)) (seen w)"
    using kept.on_event_R[OF d ev] shown.on_event_R[OF d ev] by blast+
  from ev show ?thesis
  proof (cases rule: on_event_dispatches)
    case (opens table columns pairs q w1 opened)
    let ?g = "Suc (ld_generation (cf_loader c))"
    let ?ctx = "ctx_for (en_config env) ?g pairs (schema_of_pairs (en_config env) pairs) opened"
    have idle: "ld_current (cf_loader c) = None" and wtd: "wanted (en_config env) table"
      and cols: "declared_columns (en_low env) (ld_defs (cf_loader c)) table columns = pairs"
      using opens(3) by (auto simp: starts_block_def declared_columns_def)
    have rp': "replay_of (en_config env) (en_low env) (evs @ [ev]) =
        ?rp\<lparr>rp_open := Some \<lparr>db_table = table, db_columns = pairs, db_lines = []\<rparr>\<rparr>"
      using opens(1) wtd cols f by (simp add: follows_def)
    have "rows_ok Idle ctx lines (cf_workers c) (cf_events c) [] (ld_staged (cf_loader c)) w"
      using rows_mono[OF r later] idle by simp
    from rows_opens[OF this _, of ?ctx] have
      "rows_ok (Opened ?g) ?ctx [] (map (\<lambda>wk. wk\<lparr>wk_queue := wk_queue wk @ [Open ?ctx]\<rparr>) (cf_workers c)) (cf_events c) []
        (ld_staged (cf_loader c)) w"
      using pok idle by (simp add: ctx_for_def)
    moreover have "fits_block (en_config env) ?ctx \<lparr>db_table = table, db_columns = pairs, db_lines = []\<rparr>"
      by (simp add: fits_block_def ctx_for_def)
    ultimately show ?thesis
      by (intro rows_invI[where ctx = ?ctx and sofar = "[]"])
        (simp_all add: rp' opens(5-8) booked_same[OF b] block_for_def len[symmetric] with_pending_all del: replay_of_simps rows_ok.simps)
  next
    case (feeds bl payload)
    let ?k = "ld_round_robin (cf_loader c) mod en_threads env"
    obtain blk where blk: "rp_open ?rp = Some blk" "fits_block (en_config env) ctx blk" "lines = db_lines blk"
      using at feeds(3) by auto
    have rp': "replay_of (en_config env) (en_low env) (evs @ [ev]) =
        ?rp\<lparr>rp_open := Some (blk\<lparr>db_lines := db_lines blk @ fst (rows payload)\<rparr>)\<rparr>"
      using feeds(1) blk(1) by simp
    have k: "?k < length (cf_workers c)" using n len by simp
    have "rows_ok (Opened (ob_generation bl)) ctx (lines @ fst (rows payload))
        ((cf_workers c)[?k := (cf_workers c ! ?k)\<lparr>wk_queue := wk_queue (cf_workers c ! ?k) @ [Rows (ob_generation bl) payload]\<rparr>])
        (cf_events c) [] (ld_staged (cf_loader c)) (cf_world c)"
      by (rule rows_feeds[OF _ k]) (use r feeds(3) in simp)
    moreover have "fits_block (en_config env) ctx (blk\<lparr>db_lines := db_lines blk @ fst (rows payload)\<rparr>)"
      using blk(2) by (simp add: fits_block_def)
    ultimately show ?thesis
      by (intro rows_invI[where ctx = ctx and sofar = "lines @ fst (rows payload)"])
        (simp_all add: rp' feeds(3-8) booked_same[OF b] blk(3) with_pending_one[OF k] del: replay_of_simps rows_ok.simps)
  next
    case (closes bl)
    obtain blk where blk: "rp_open ?rp = Some blk" "fits_block (en_config env) ctx blk" "lines = db_lines blk"
      using at closes(3) by auto
    have rp': "replay_of (en_config env) (en_low env) (evs @ [ev]) = ?rp\<lparr>rp_open := None, rp_blocks := rp_blocks ?rp @ [blk]\<rparr>"
      using closes(1) blk(1) by simp
    have "rows_ok (Closing (ob_generation bl) 0) ctx lines
        (map (\<lambda>wk. wk\<lparr>wk_queue := wk_queue wk @ [Close (ob_generation bl)]\<rparr>) (cf_workers c))
        (cf_events c) [] (ld_staged (cf_loader c)) (cf_world c)"
      by (rule rows_closes) (use r closes(3) in simp)
    then show ?thesis
      by (intro rows_invI[where ctx = ctx and sofar = lines])
        (simp_all add: rp' closes(4-8) booked_same[OF b] blk len[symmetric] with_pending_all del: replay_of_simps rows_ok.simps)
  qed
qed

text \<open>The end of a block.\<close>

lemma rows_collected:
  assumes ok: "rows_inv env evs c" and pc: "cf_pc c = Collecting co others" "en_threads env \<le> co_acked co"
    and pool: "load_ok env c" and f: "follows (en_config env) (en_low env) evs (Some (co_block co)) (cf_loader c)"
    and d: "block_done (en_callback env) co (cf_loader c) = Inr ld"
  shows "rows_inv env evs (c\<lparr>cf_loader := ld, cf_pc := Handling others\<rparr>)"
proof -
  let ?rp = "replay_of (en_config env) (en_low env) evs"
  let ?q = "ob_qualified (co_block co)"
  obtain bs blk where rp: "rp_blocks ?rp = bs @ [blk]" "same_block (co_block co) blk" and cur: "ld_current (cf_loader c) = None"
    using f by (auto simp: follows_def)
  obtain ctx lines where b: "booked (en_config env) bs (cf_loader c)"
    and r: "rows_ok (Closing (ob_generation (co_block co)) (co_acked co)) ctx lines (cf_workers c) (cf_events c) (co_actions co)
        (ld_staged (cf_loader c)) (cf_world c)"
    and at: "fits_block (en_config env) ctx blk" "lines = db_lines blk"
    and count: "co_rows co = size (file_rows (co_actions co))"
    by (rule rows_invD[OF ok]) (simp_all add: pc(1) rp(1) del: rows_ok.simps)
  have idle: "pool_ok Idle (cf_workers c) (cf_events c)"
    using pool pool_closed[of "ob_generation (co_block co)" "co_acked co" "cf_workers c" "cf_events c"] pc
    by (simp add: load_ok_def)
  note fin = rows_closed[OF r idle, of ?q]
  have rows: "file_rows (co_actions co) = mset (block_rows A (en_config env) blk)"
    using conjunct2[OF fin] unfolding at(2) denoted_rows[OF at(1)] .
  have "booked (en_config env) (bs @ [blk]) ld"
    by (rule booked_block[OF b d _ rows count]) (use rp(2) in \<open>simp add: same_block_def\<close>)
  moreover have "ld_current ld = None" "ld_staged ld = (ld_staged (cf_loader c))(?q \<mapsto>
      (case ld_staged (cf_loader c) ?q of Some before \<Rightarrow> before | None \<Rightarrow> []) @ co_actions co)"
    using d cur by (auto simp: block_done_def notify_def Let_def split: if_splits option.splits)
  ultimately show ?thesis using fin
    by (intro rows_invI[where ctx = ctx and sofar = "[]"]) (simp_all add: rp(1) del: rows_ok.simps)
qed

lemma rows_inv_late: "reader_phase (cf_pc c) \<noteq> 1 \<Longrightarrow> rows_inv env evs c"
  by (simp add: rows_inv_def)

text \<open>The reader goes from one place to the next, and the pool and the storage stay as they are.\<close>

lemma rows_inv_moves:
  assumes ok: "rows_inv env evs c" and ph: "reader_phase (cf_pc c) = 1"
    and same: "closing_of (cf_pc c') = closing_of (cf_pc c)" "ld_current (cf_loader c') = ld_current (cf_loader c)"
      "stage_of (cf_pc c') (ld_current (cf_loader c)) = stage_of (cf_pc c) (ld_current (cf_loader c))"
      "with_pending (jobs_of (cf_pc c')) (cf_workers c') = with_pending (jobs_of (cf_pc c)) (cf_workers c)"
      "cf_events c' = cf_events c" "cf_world c' = cf_world c" "acts_of (cf_pc c') = acts_of (cf_pc c)"
      "ld_staged (cf_loader c') = ld_staged (cf_loader c)" "ld_tables (cf_loader c') = ld_tables (cf_loader c)"
      "ld_total_rows (cf_loader c') = ld_total_rows (cf_loader c)"
    and rp: "rp_blocks (replay_of (en_config env) (en_low env) evs') = rp_blocks (replay_of (en_config env) (en_low env) evs)"
      "rp_open (replay_of (en_config env) (en_low env) evs') = rp_open (replay_of (en_config env) (en_low env) evs)"
    and new: "\<And>co events. cf_pc c' = Collecting co events \<Longrightarrow> co_rows co = size (file_rows (co_actions co))"
  shows "rows_inv env evs' c'"
proof -
  have blocks: "done_blocks (replay_of (en_config env) (en_low env) evs') cl = done_blocks (replay_of (en_config env) (en_low env) evs) cl"
    "current_block (replay_of (en_config env) (en_low env) evs') cl = current_block (replay_of (en_config env) (en_low env) evs) cl"
    for cl using rp by (cases cl; simp)+
  obtain ctx sofar where inv:
    "booked (en_config env) (done_blocks (replay_of (en_config env) (en_low env) evs) (closing_of (cf_pc c))) (cf_loader c)"
    "rows_ok (stage_of (cf_pc c) (ld_current (cf_loader c))) ctx sofar (with_pending (jobs_of (cf_pc c)) (cf_workers c))
        (cf_events c) (acts_of (cf_pc c)) (ld_staged (cf_loader c)) (cf_world c)"
    "stage_of (cf_pc c) (ld_current (cf_loader c)) \<noteq> Idle \<Longrightarrow>
       \<exists>blk. current_block (replay_of (en_config env) (en_low env) evs) (closing_of (cf_pc c)) = Some blk
         \<and> fits_block (en_config env) ctx blk \<and> sofar = db_lines blk"
    "\<And>co events. cf_pc c = Collecting co events \<Longrightarrow> co_rows co = size (file_rows (co_actions co))"
    by (rule rows_invD[OF ok ph]) (rule that)
  show ?thesis
    by (rule rows_invI[where ctx = ctx and sofar = sofar])
      (use inv new in \<open>simp_all add: same blocks booked_same[OF inv(1)] del: rows_ok.simps\<close>)
qed

lemma queued_after_job:
  "after_job r (wk\<lparr>wk_queue := q @ js\<rparr>) = (after_job r (wk\<lparr>wk_queue := q\<rparr>))\<lparr>wk_queue := wk_queue (after_job r (wk\<lparr>wk_queue := q\<rparr>)) @ js\<rparr>"
  by (auto simp: after_job_def split: option.splits sum.splits prod.splits)

lemma rows_step:
  assumes st: "load_step env c l c'" and env: "en_delta env = D" "en_arrow env = A" "0 < en_threads env"
    and pool: "load_ok env c" and fo: "follow_ok env (events_of ls) c" and ok: "rows_inv env (events_of ls) c"
  shows "rows_inv env (events_of (ls @ [l])) c'"
proof (cases "reader_phase (cf_pc c') = 1")
  case False
  then show ?thesis by (rule rows_inv_late)
next
  case live: True
  have ph: "reader_phase (cf_pc c) = 1" using late_steps[OF st, of ls] live by (cases "cf_pc c") auto
  have f: "follows (en_config env) (en_low env) (events_of ls) (closing_of (cf_pc c)) (cf_loader c)"
    using fo ph by (simp add: follow_ok_def)
  have pok: "pool_ok (stage_of (cf_pc c) (ld_current (cf_loader c))) (with_pending (jobs_of (cf_pc c)) (cf_workers c)) (cf_events c)"
    using pool by (simp add: load_ok_def)
  from st show ?thesis
  proof (cases rule: load_step.cases)
    case reads
    from reads(3) show ?thesis
      by (cases rule: read_turnE)
        (use reads(1,2) live in \<open>auto simp: stop_def intro!: rows_inv_moves[OF ok ph] simp del: replay_of_simps\<close>)
  next
    case (handles events)
    from handles(3) show ?thesis
    proof (cases rule: event_turnE)
      case (read_on ld)
      then show ?thesis using handles
        by (auto simp: notify_def Let_def split: if_splits intro!: rows_inv_moves[OF ok ph])
    next
      case (proceeded ev others ld tasks w)
      then have l: "events_of (ls @ [l]) = events_of ls @ [ev]" using handles(1) by simp
      have f': "follows (en_config env) (en_low env) (events_of ls) None (cf_loader c)" using f handles(2) by simp
      note pr = proceeds_replay[OF proceeded(2) f']
      show ?thesis unfolding l
        by (rule rows_inv_moves[OF ok ph]) (use pr handles(2) proceeded(3) in \<open>simp_all del: replay_of_simps\<close>)
    next
      case (dispatched ev others ld jobs block tasks w)
      then have l: "events_of (ls @ [l]) = events_of ls @ [ev]" using handles(1) by simp
      show ?thesis unfolding l dispatched(3)
        by (rule rows_dispatch[OF ok _ pool env(3,1) _ dispatched(2)]) (use handles(2) dispatched(1) f in simp_all)
    qed (use live in \<open>simp_all add: stop_def\<close>)
  next
    case (sends i j jobs block events wk)
    then have "stage_of (Sending jobs block events) cur = stage_of (cf_pc c) cur" for cur by (cases block) auto
    then show ?thesis using sends
      by (auto simp: set_worker_def with_pending_sent intro!: rows_inv_moves[OF ok ph])
  next
    case (sent_all block events)
    then show ?thesis
      by (cases block) (auto simp: sent_turn_def new_collected_def intro!: rows_inv_moves[OF ok ph])
  next
    case (collects co events cl evs)
    obtain ctx sofar where inv:
      "booked (en_config env) (butlast (rp_blocks (replay_of (en_config env) (en_low env) (events_of ls)))) (cf_loader c)"
      "rows_ok (Closing (ob_generation (co_block co)) (co_acked co)) ctx sofar (cf_workers c)
        (Closed cl # evs) (co_actions co) (ld_staged (cf_loader c)) (cf_world c)"
      "\<exists>blk. last (rp_blocks (replay_of (en_config env) (en_low env) (events_of ls))) = blk
         \<and> fits_block (en_config env) ctx blk \<and> sofar = db_lines blk"
      "co_rows co = size (file_rows (co_actions co))"
      by (rule rows_invD[OF ok ph]) (use collects in \<open>simp del: rows_ok.simps\<close>)
    have cl: "rows_ok (Closing (ob_generation (co_block co)) (Suc (co_acked co))) ctx sofar (cf_workers c) evs
        (co_actions co @ bc_staged cl) (ld_staged (cf_loader c)) (cf_world c)" "bc_rows cl = size (file_rows (bc_staged cl))"
      using rows_collects[OF inv(2)] by (simp_all add: closed_ok_def closed_total_def file_rows_def del: rows_ok.simps)
    show ?thesis
      by (rule rows_invI[where ctx = ctx and sofar = sofar])
        (use collects inv cl in \<open>auto simp: collect_def simp del: rows_ok.simps\<close>)
  next
    case (collected_all co events)
    have f': "follows (en_config env) (en_low env) (events_of ls) (Some (co_block co)) (cf_loader c)"
      using f collected_all(3) by simp
    show ?thesis
    proof (cases "block_done (en_callback env) co (cf_loader c)")
      case (Inl e)
      then show ?thesis using collected_all live by (simp add: done_turn_def stop_def)
    next
      case (Inr ld)
      from rows_collected[OF ok collected_all(3,4) pool f' this] show ?thesis
        using collected_all Inr by (simp add: done_turn_def)
    qed
  next
    case (works i wk j q r w)
    let ?js = "jobs_for i (jobs_of (cf_pc c))"
    have "rows_inv env (events_of ls) c'"
    proof (rule rows_inv_pool[OF ok])
      fix ctx sofar
      assume "rows_ok (stage_of (cf_pc c) (ld_current (cf_loader c))) ctx sofar (with_pending (jobs_of (cf_pc c)) (cf_workers c))
          (cf_events c) (acts_of (cf_pc c)) (ld_staged (cf_loader c)) (cf_world c)"
      from rows_works[OF this pok, of i "wk\<lparr>wk_queue := wk_queue wk @ ?js\<rparr>" j "q @ ?js" r w]
      show "rows_ok (stage_of (cf_pc c) (ld_current (cf_loader c))) ctx sofar (with_pending (jobs_of (cf_pc c)) (cf_workers c'))
          (cf_events c') (acts_of (cf_pc c)) (ld_staged (cf_loader c)) (cf_world c')"
        using works env by (simp add: set_worker_def with_pending_update queued_after_job del: rows_ok.simps)
    qed (use works in \<open>simp_all add: set_worker_def\<close>)
    then show ?thesis using works(1) by simp
  next
    case (tells i wk ev)
    let ?js = "jobs_for i (jobs_of (cf_pc c))"
    have "rows_inv env (events_of ls) c'"
    proof (rule rows_inv_pool[OF ok])
      fix ctx sofar
      assume "rows_ok (stage_of (cf_pc c) (ld_current (cf_loader c))) ctx sofar (with_pending (jobs_of (cf_pc c)) (cf_workers c))
          (cf_events c) (acts_of (cf_pc c)) (ld_staged (cf_loader c)) (cf_world c)"
      from rows_tells[OF this pok, of i "wk\<lparr>wk_queue := wk_queue wk @ ?js\<rparr>" ev]
      show "rows_ok (stage_of (cf_pc c) (ld_current (cf_loader c))) ctx sofar (with_pending (jobs_of (cf_pc c)) (cf_workers c'))
          (cf_events c') (acts_of (cf_pc c)) (ld_staged (cf_loader c)) (cf_world c')"
        using tells by (simp add: set_worker_def with_pending_update worker_swap del: rows_ok.simps)
    qed (use tells in \<open>simp_all add: set_worker_def\<close>)
    then show ?thesis using tells(1) by simp
  next
    case (leaves i wk)
    let ?js = "jobs_for i (jobs_of (cf_pc c))"
    have "rows_inv env (events_of ls) c'"
    proof (rule rows_inv_pool[OF ok])
      fix ctx sofar
      assume "rows_ok (stage_of (cf_pc c) (ld_current (cf_loader c))) ctx sofar (with_pending (jobs_of (cf_pc c)) (cf_workers c))
          (cf_events c) (acts_of (cf_pc c)) (ld_staged (cf_loader c)) (cf_world c)"
      from rows_leaves[OF this pok, of i "wk\<lparr>wk_queue := wk_queue wk @ ?js\<rparr>" ?js]
      show "rows_ok (stage_of (cf_pc c) (ld_current (cf_loader c))) ctx sofar (with_pending (jobs_of (cf_pc c)) (cf_workers c'))
          (cf_events c') (acts_of (cf_pc c)) (ld_staged (cf_loader c)) (cf_world c')"
        using leaves by (simp add: set_worker_def with_pending_update worker_swap del: rows_ok.simps)
    qed (use leaves in \<open>simp_all add: set_worker_def\<close>)
    then show ?thesis using leaves(1) by simp
  next
    case (preloads t name r w)
    have later: "stored (cf_world c) \<subseteq> stored w" "invisible (seen (cf_world c)) (seen w)"
      using kept.preload_R[of "cf_world c" "en_alnum env" "lc_output_uri (en_config env)" name "en_store env" "lc_storage_options (en_config env)"]
        shown.preload_R[of "cf_world c" "en_alnum env" "lc_output_uri (en_config env)" name "en_store env" "lc_storage_options (en_config env)"]
        preloads env(1) by simp_all
    have "rows_inv env (events_of ls) c'"
      by (rule rows_inv_pool[OF ok]) (use preloads rows_mono[OF _ later] in \<open>simp_all del: rows_ok.simps\<close>)
    then show ?thesis using preloads(1) by simp
  qed (use live in \<open>simp_all add: stop_def set_worker_def conclude_turn_def split: prod.splits\<close>)
qed

lemma rows_run:
  assumes r: "run (load_step env) (start_config env input w0) ls c"
    and env: "en_delta env = D" "en_arrow env = A" "0 < en_threads env"
  shows "rows_inv env (events_of ls) c \<and> load_ok env c"
  using r
proof (rule run_snoc_induct)
  have none: "sum_list (replicate n {#}) = {#}" for n by (induction n) simp_all
  have "rows_ok Idle ctx [] (replicate (en_threads env) idle_worker) [] [] Map.empty w0" for ctx
    by (simp add: pool_files_def none files_ok_def unseen_def telling_def idle_worker_def new_worker_def)
  then have "rows_inv env (events_of []) (start_config env input w0)"
    by (intro rows_invI[where sofar = "[]"])
      (simp_all add: start_config_def new_loader_def booked_def staged_for_def del: rows_ok.simps)
  then show "rows_inv env (events_of []) (start_config env input w0) \<and> load_ok env (start_config env input w0)"
    using start_ok[OF env(3)] by blast
next
  fix a l b ls'
  assume r: "run (load_step env) (start_config env input w0) ls' a" and st: "load_step env a l b"
    and ok: "rows_inv env (events_of ls') a \<and> load_ok env a"
  show "rows_inv env (events_of (ls' @ [l])) b \<and> load_ok env b"
    using rows_step[OF st env conjunct2[OF ok] follow_run[OF r] conjunct1[OF ok]] load_ok_step[OF conjunct2[OF ok] env(3) st]
    by (rule conjI)
qed

end

end
