(* ===== verification/Load_Publish.thy ===== *)
theory Load_Publish
  imports Load_Exact History_Props
begin

section \<open>What a load publishes\<close>

text \<open>
  Phase two takes each table from what it was to what its block denotes, in one version, whatever the order
  of the commits; and it touches no other table but the load history.
\<close>

subsection \<open>The location of a table\<close>

definition table_at :: "('f, 'b, 'a, 'r, 'w, 's, 't, 'k, 'x, 'm, 'v, 'i) loader_env \<Rightarrow> bytes \<Rightarrow> bytes \<Rightarrow> bool" where
  "table_at env q uri \<longleftrightarrow>
     (\<exists>name. qualified_name name = q \<and> table_uri (en_alnum env) (lc_output_uri (en_config env)) name = Inr uri)"

lemma table_uri_inj: "table_uri alnum prefix a = Inr u \<Longrightarrow> table_uri alnum prefix b = Inr u \<Longrightarrow> a = b"
  by (auto simp: table_uri_def and_then_eq_Inr dest!: split_path intro: name_parts_inj)

lemma table_at_inj: "table_at env q u \<Longrightarrow> table_at env q' u \<Longrightarrow> q = q'"
  unfolding table_at_def using table_uri_inj by blast

lemma manifest_at: "table_uri (en_alnum env) (lc_output_uri (en_config env)) manifest_table = Inr u \<Longrightarrow> table_at env MANIFEST_NAME u"
  by (auto simp: table_at_def manifest_table_def qualified_name_def intro!: exI[of _ manifest_table])

lemma manifest_name: "qualified_name t = MANIFEST_NAME \<Longrightarrow> reserved_collision t"
proof -
  assume q: "qualified_name t = MANIFEST_NAME"
  have "CHR ''.'' \<notin> set MANIFEST_NAME" by (simp add: MANIFEST_NAME_def)
  then have "tn_schema t = None"
    unfolding q[symmetric] by (cases "tn_schema t") (simp_all add: qualified_name_def)
  then show ?thesis using q by (simp add: qualified_name_def reserved_collision_def)
qed

subsection \<open>What becomes of a block\<close>

text \<open>
  The table of a block, in the world \<open>w\<close> after the load, compared with \<open>w0\<close> before it: at version \<open>n\<close>, one
  more than before, with the rows the lines of the block denote, after those it had when the load appends,
  and with the schema of the block.
\<close>

definition published :: "('w \<Rightarrow> bytes \<Rightarrow> ('k, 'x) table_view option) \<Rightarrow> ('x \<Rightarrow> 'f entry list multiset)
    \<Rightarrow> ('f, 'b, 'a, 'r, 'w, 's, 't, 'k, 'x, 'm, 'v, 'i) loader_env \<Rightarrow> 'w \<Rightarrow> 'w \<Rightarrow> dump_block \<Rightarrow> nat \<Rightarrow> bool" where
  "published seen contents env w0 w blk n \<longleftrightarrow>
     (\<exists>uri old new. table_at env (block_name blk) uri
        \<and> (seen w0 uri = Some old \<or> seen w0 uri = None \<and> (\<exists>k. old = empty_view k))
        \<and> seen w uri = Some new \<and> tv_version new = n \<and> n = Suc (tv_version old)
        \<and> image_mset Some (rows_in contents (tv_files new)) =
            (if lc_mode (en_config env) = Append then image_mset Some (rows_in contents (tv_files old)) else {#})
            + mset (block_rows (en_arrow env) (en_config env) blk)
        \<and> (lc_mode (en_config env) \<noteq> ErrorIfExists \<longrightarrow>
             (\<exists>k. dl_kernel (en_delta env) (schema_of_pairs (en_config env) (db_columns blk)) = Inr k \<and> set (tv_schema new) = set k)))"

lemma published_cong:
  assumes "published seen contents env w0 w blk n" "\<And>u. table_at env (block_name blk) u \<Longrightarrow> seen w' u = seen w u"
  shows "published seen contents env w0 w' blk n"
  using assms unfolding published_def by metis

context delta_lake
begin

lemma commit_turn_other:
  assumes "commit_turn D mode tg w = (r, w')" "u \<noteq> location (ct_table tg)"
  shows "seen w' u = seen w u"
proof -
  define sch where "sch = (if \<not> drift_is_empty (ct_drift tg) then Some (ct_schema tg) else None)"
  have w': "w' = snd (commit_table D (ct_table tg) (ct_actions tg) mode sch w)"
    using assms(1) unfolding commit_turn_def sch_def[symmetric]
    by (cases "commit_table D (ct_table tg) (ct_actions tg) mode sch w") (auto simp: then_w_def split: sum.splits)
  show ?thesis
  proof (cases "commit_actions D w (ct_table tg) (ct_actions tg) mode sch")
    case (Inl e)
    then show ?thesis using w' by (simp add: commit_table_def)
  next
    case (Inr acts)
    obtain q w1 where q: "dl_commit D w (ct_table tg) acts (save_mode_of mode) = (q, w1)" by fastforce
    have "w' = w1" using w' Inr q by (cases q) (auto simp: commit_table_def delta_w_def then_w_def delta_res_def)
    then show ?thesis using commit_law[OF q] assms(2) by (auto split: sum.splits)
  qed
qed

lemma commit_turn_ok:
  assumes cm: "commit_turn D mode tg w = (Inr n, w')" and acts: "ct_actions tg = map Add xs"
    and v: "loaded (ct_table tg) = Some v" "seen w (location (ct_table tg)) = Some v"
    and k: "dl_kernel D (ct_schema tg) = Inr k" "ct_drift tg = diff_schema (dl_shown D) (tv_schema v) k"
      "mode = Append \<longrightarrow> drift_is_empty (ct_drift tg)" "mode = ErrorIfExists \<longrightarrow> tv_files v = {}"
    and new: "distinct xs" "set xs \<inter> tv_files v = {}"
  shows "\<exists>new. seen w' (location (ct_table tg)) = Some new \<and> tv_version new = n \<and> n = Suc (tv_version v)
    \<and> rows_in contents (tv_files new) = (if mode = Append then rows_in contents (tv_files v) else {#}) + sum_list (map contents xs)
    \<and> (mode \<noteq> ErrorIfExists \<longrightarrow> set (tv_schema new) = set k)"
proof -
  let ?sch = "if \<not> drift_is_empty (ct_drift tg) then Some (ct_schema tg) else None"
  obtain t' where ct: "commit_table D (ct_table tg) (map Add xs) mode ?sch w = (Inr (n, t'), w')"
    using cm unfolding commit_turn_def acts by (elim then_w_InrE) (auto split: prod.splits intro: that)
  have fin: "finite (tv_files v)" "distinct (map fst (tv_schema v))" using view_law[OF v(2)] by auto
  obtain s where s: "n = Suc (tv_version v)" "seen w' = (seen w)(location (ct_table tg) \<mapsto> \<lparr>tv_version = n, tv_schema = s,
         tv_files = (if mode = Overwrite then {} else tv_files v) \<union> set xs\<rparr>)"
    "s = (case ?sch of Some a \<Rightarrow> if mode = Overwrite then (case dl_kernel D a of Inr k \<Rightarrow> k | Inl m \<Rightarrow> []) else tv_schema v
           | None \<Rightarrow> tv_schema v)"
    using commit_ok[OF ct v] by blast
  have "set s = set k" if "mode \<noteq> ErrorIfExists"
  proof (cases "drift_is_empty (ct_drift tg)")
    case True
    then show ?thesis using s(3) drift_empty_iff[OF fin(2) kernel_law[OF k(1)]] k(2) by simp
  next
    case False
    then show ?thesis using s(3) k(1,3) that by (cases mode) auto
  qed
  moreover have "rows_in contents ((if mode = Overwrite then {} else tv_files v) \<union> set xs) =
      (if mode = Append then rows_in contents (tv_files v) else {#}) + sum_list (map contents xs)"
    using fin(1) new k(4)
    by (cases mode) (auto simp: rows_in_def sum.union_disjoint sum_list_distinct_conv_sum_set Int_commute)
  ultimately show ?thesis using s(1,2) by simp
qed

end

subsection \<open>Phase two\<close>

lemma take_staged_eq:
  "distinct (map ct_qualified ts) \<Longrightarrow>
     take_staged ts staged = map (\<lambda>t. t\<lparr>ct_actions := staged_for staged (ct_qualified t)\<rparr>) ts"
proof (induction ts staged rule: take_staged.induct)
  case (2 t ts staged)
  have "staged_for (staged(ct_qualified t := None)) (ct_qualified u) = staged_for staged (ct_qualified u)" if "u \<in> set ts" for u
  proof -
    have "ct_qualified u \<in> ct_qualified ` set ts" using that by (rule imageI)
    then have "ct_qualified u \<noteq> ct_qualified t" using 2(2) by auto
    then show ?thesis by (simp add: staged_for_def)
  qed
  then have "map (\<lambda>u. u\<lparr>ct_actions := staged_for (staged(ct_qualified t := None)) (ct_qualified u)\<rparr>) ts =
      map (\<lambda>u. u\<lparr>ct_actions := staged_for staged (ct_qualified u)\<rparr>) ts" by (intro map_cong) simp_all
  moreover have "take_staged ts (staged(ct_qualified t := None)) =
      map (\<lambda>u. u\<lparr>ct_actions := staged_for (staged(ct_qualified t := None)) (ct_qualified u)\<rparr>) ts"
    using 2 by (simp del: fun_upd_apply)
  ultimately show ?case by (simp add: staged_for_def[of staged "ct_qualified t"] del: fun_upd_apply)
qed simp

lemma sum_of_one:
  assumes "distinct (map f xs)" "x \<in> set xs"
  shows "sum_list (map (\<lambda>y. if f y = f x then g y else 0) xs) = (g x :: 'z::comm_monoid_add)"
  using assms
proof (induction xs)
  case (Cons y ys)
  have z: "sum_list (map (\<lambda>y. if f y = f x then g y else 0) ys) = 0" if "f x \<notin> f ` set ys"
    using that by (induction ys) auto
  show ?case
  proof (cases "f y = f x")
    case True
    then have "y = x" using Cons.prems by (auto simp: image_iff)
    then show ?thesis using z Cons.prems by simp
  next
    case False
    then show ?thesis using Cons by auto
  qed
qed simp

lemma set_version_tables [simp]:
  "map (\<lambda>t. (ts_table t, ts_rows t)) (set_version q n ts) = map (\<lambda>t. (ts_table t, ts_rows t)) ts"
  by (induction ts) auto

lemma versions_tables:
  "map (\<lambda>t. (ts_table t, ts_rows t)) (foldl (\<lambda>ts (q, v). set_version q v ts) ts succ) = map (\<lambda>t. (ts_table t, ts_rows t)) ts"
  by (induction succ arbitrary: ts) auto

text \<open>The version of a table with the given name, where names are distinct.\<close>

lemma set_version_nth:
  assumes "distinct (map ts_table ts)" "i < length ts"
  shows "ts_delta_version (set_version q n ts ! i) = (if ts_table (ts ! i) = q then n else ts_delta_version (ts ! i))"
  using assms
proof (induction ts arbitrary: i)
  case (Cons t ts)
  have "ts_table (ts ! j) \<noteq> ts_table t" if "j < length ts" for j
    using Cons.prems(1) nth_mem[OF that] by (metis distinct.simps(2) imageI list.set_map list.simps(9))
  then show ?case using Cons by (cases i) auto
qed simp

lemma set_version_names: "map ts_table (set_version q n ts) = map ts_table ts"
  by (induction ts) auto

lemma versions_nth:
  assumes "distinct (map ts_table ts)" "i < length ts" "distinct (map fst succ)"
  shows "ts_delta_version (foldl (\<lambda>ts (q, v). set_version q v ts) ts succ ! i) =
    (case map_of succ (ts_table (ts ! i)) of None \<Rightarrow> ts_delta_version (ts ! i) | Some n \<Rightarrow> n)"
  using assms
proof (induction succ arbitrary: ts)
  case (Cons p succ)
  obtain q n where p: "p = (q, n)" by fastforce
  let ?ts = "set_version q n ts"
  have len: "length ?ts = length ts" using arg_cong[OF set_version_names, of length q n ts] by simp
  have nth: "ts_table (?ts ! i) = ts_table (ts ! i)" using Cons.prems(2) len set_version_names[of q n ts] by (metis nth_map)
  have "ts_delta_version (foldl (\<lambda>ts (q, v). set_version q v ts) ?ts succ ! i) =
    (case map_of succ (ts_table (?ts ! i)) of None \<Rightarrow> ts_delta_version (?ts ! i) | Some n \<Rightarrow> n)"
    using Cons p len by (intro Cons.IH) (simp_all add: set_version_names)
  moreover have "map_of succ q = None" using Cons.prems(3) p by (simp add: map_of_eq_None_iff)
  ultimately show ?case using nth set_version_nth[OF Cons.prems(1,2), of q n] p by (auto split: option.splits)
qed simp

lemma successes_in: "set (successes outs) = {(q, n). (q, Inr n) \<in> set outs}"
proof (induction outs)
  case (Cons p outs)
  then show ?case by (cases p; cases "snd p") auto
qed simp

lemma successes_distinct: "distinct (map fst outs) \<Longrightarrow> distinct (map fst (successes outs))"
proof (induction outs)
  case (Cons p outs)
  have "q \<in> fst ` set outs" if "(q, n) \<in> set (successes outs)" for q n
    using that by (force simp: successes_in)
  then show ?case using Cons by (cases p; cases "snd p") auto
qed simp

text \<open>What a load that reports \<open>rep\<close> has made of the blocks of the dump.\<close>

definition delivered :: "('w \<Rightarrow> bytes \<Rightarrow> ('k, 'x) table_view option) \<Rightarrow> ('x \<Rightarrow> 'f entry list multiset)
    \<Rightarrow> ('f, 'b, 'a, 'r, 'w, 's, 't, 'k, 'x, 'm, 'v, 'i) loader_env \<Rightarrow> 'w \<Rightarrow> 'w \<Rightarrow> dump_block list \<Rightarrow> load_report \<Rightarrow> bool" where
  "delivered seen contents env w0 w blks rep \<longleftrightarrow>
     map (\<lambda>t. (ts_table t, ts_rows t)) (lr_tables rep) = map (\<lambda>b. (block_name b, length (db_lines b))) blks
     \<and> lr_total_rows rep = sum_list (map (\<lambda>b. length (db_lines b)) blks)
     \<and> (distinct (map block_name blks) \<longrightarrow>
          list_all2 (\<lambda>b t. published seen contents env w0 w b (ts_delta_version t)) blks (lr_tables rep)
          \<and> (\<forall>u. seen w u \<noteq> seen w0 u \<longrightarrow> (\<exists>b \<in> set blks. table_at env (block_name b) u)
               \<or> lc_write_manifest (en_config env) \<and> table_at env MANIFEST_NAME u))"

lemma delivered_cong: "delivered seen contents env w0 w blks rep \<Longrightarrow> seen w' = seen w \<Longrightarrow> delivered seen contents env w0 w' blks rep"
  unfolding delivered_def published_def by simp

context load_stack
begin

text \<open>A target that has yet to be committed, with the rows of its block staged in new files.\<close>

definition pending :: "('f, 'b, 'a, 'r, 'w, 's, 't, 'k, 'x, 'm, 'v, 'i) loader_env \<Rightarrow> 'w \<Rightarrow> 'w
    \<Rightarrow> ('t, 'x, 'm) commit_target \<Rightarrow> dump_block \<Rightarrow> bool" where
  "pending env w0 w tg blk \<longleftrightarrow> target_ok env w0 w tg blk
     \<and> ct_actions tg = map Add (added (ct_actions tg)) \<and> distinct (added (ct_actions tg))
     \<and> (\<forall>v. seen w (location (ct_table tg)) = Some v \<longrightarrow> set (added (ct_actions tg)) \<inter> tv_files v = {})
     \<and> file_rows (ct_actions tg) = mset (block_rows A (en_config env) blk)"

lemma pending_at: "pending env w0 w tg blk \<Longrightarrow>
    table_at env (block_name blk) (location (ct_table tg)) \<and> ct_qualified tg = block_name blk"
  unfolding pending_def target_ok_def table_at_def by blast

lemma pending_cong:
  assumes "pending env w0 w tg blk" "seen w' (location (ct_table tg)) = seen w (location (ct_table tg))"
  shows "pending env w0 w' tg blk"
  using assms(1) unfolding pending_def target_ok_def assms(2) .

abbreviation "published_in env w0 w blk n \<equiv> published seen contents env w0 w blk n"

lemma pending_commits:
  assumes p: "pending env w0 w tg blk" and env: "en_arrow env = A" "en_delta env = D"
    and cm: "commit_turn D (lc_mode (en_config env)) tg w = (Inr n, w')"
  shows "published_in env w0 w' blk n"
proof -
  let ?u = "location (ct_table tg)"
  obtain v k where v: "ct_schema tg = schema_of_pairs (en_config env) (db_columns blk)"
    "loaded (ct_table tg) = Some v" "seen w ?u = Some v"
    "dl_kernel D (ct_schema tg) = Inr k" "ct_drift tg = diff_schema (dl_shown D) (tv_schema v) k"
    "lc_mode (en_config env) = Append \<longrightarrow> drift_is_empty (ct_drift tg)"
    "lc_mode (en_config env) = ErrorIfExists \<longrightarrow> tv_files v = {}"
    "seen w0 ?u = Some v \<or> seen w0 ?u = None \<and> (\<exists>k. v = empty_view k)"
    using p unfolding pending_def target_ok_def by blast
  have acts: "ct_actions tg = map Add (added (ct_actions tg))" "distinct (added (ct_actions tg))"
    "set (added (ct_actions tg)) \<inter> tv_files v = {}"
    "file_rows (ct_actions tg) = mset (block_rows A (en_config env) blk)"
    using p v(3) unfolding pending_def by blast+
  obtain new where new: "seen w' ?u = Some new" "tv_version new = n" "n = Suc (tv_version v)"
    "rows_in contents (tv_files new) = (if lc_mode (en_config env) = Append then rows_in contents (tv_files v) else {#})
       + sum_list (map contents (added (ct_actions tg)))"
    "lc_mode (en_config env) \<noteq> ErrorIfExists \<longrightarrow> set (tv_schema new) = set k"
    using commit_turn_ok[OF cm acts(1) v(2-7) acts(2,3)] by blast
  have "image_mset Some (sum_list (map contents (added (ct_actions tg)))) = mset (block_rows A (en_config env) blk)"
    using acts(4) by (simp add: file_rows_def)
  then have "image_mset Some (rows_in contents (tv_files new)) =
      (if lc_mode (en_config env) = Append then image_mset Some (rows_in contents (tv_files v)) else {#})
      + mset (block_rows A (en_config env) blk)"
    using new(4) by simp
  then show ?thesis
    unfolding published_def env using pending_at[OF p] new v(1,4,8) by (intro exI[of _ ?u] exI[of _ v] exI[of _ new]) auto
qed

definition phase_two :: "('f, 'b, 'a, 'r, 'w, 's, 't, 'k, 'x, 'm, 'v, 'i) loader_env \<Rightarrow> 'w \<Rightarrow> dump_block list \<Rightarrow> 'w
    \<Rightarrow> ('t, 'x, 'm) commit_target list \<Rightarrow> (bytes \<times> nat res) list \<Rightarrow> bool" where
  "phase_two env w0 blks w targets outcomes \<longleftrightarrow>
     (\<forall>tg \<in> set targets. \<exists>blk \<in> set blks. pending env w0 w tg blk)
     \<and> (\<forall>blk \<in> set blks. block_name blk \<in> ct_qualified ` set targets
          \<or> (\<exists>r. (block_name blk, r) \<in> set outcomes \<and> (\<forall>n. r = Inr n \<longrightarrow> published_in env w0 w blk n)))
     \<and> distinct (map ct_qualified targets @ map fst outcomes)
     \<and> (\<forall>u. seen w u \<noteq> seen w0 u \<longrightarrow> (\<exists>blk \<in> set blks. table_at env (block_name blk) u))"

lemma phase_two_cong: "phase_two env w0 blks w targets outcomes \<Longrightarrow> seen w' = seen w \<Longrightarrow> phase_two env w0 blks w' targets outcomes"
  unfolding phase_two_def pending_def target_ok_def published_def by simp

lemma phase_two_commits:
  assumes ph: "phase_two env w0 blks w targets outcomes" and names: "distinct (map block_name blks)"
    and i: "i < length targets" and env: "en_arrow env = A" "en_delta env = D"
    and cm: "commit_turn D (lc_mode (en_config env)) (targets ! i) w = (r, w')"
  shows "phase_two env w0 blks w' (take i targets @ drop (Suc i) targets) (outcomes @ [(ct_qualified (targets ! i), r)])"
proof -
  let ?tg = "targets ! i" and ?rest = "take i targets @ drop (Suc i) targets"
  have split: "targets = take i targets @ ?tg # drop (Suc i) targets" using i by (rule id_take_nth_drop)
  have mset: "mset targets = add_mset ?tg (mset ?rest)" by (subst split) simp
  have set: "set targets = insert ?tg (set ?rest)" using arg_cong[OF mset, of set_mset] by simp
  have "mset (map ct_qualified targets) = add_mset (ct_qualified ?tg) (mset (map ct_qualified ?rest))"
    using arg_cong[OF mset, of "image_mset ct_qualified"] by simp
  moreover have d: "distinct (map ct_qualified targets @ map fst outcomes)" using ph by (simp add: phase_two_def)
  ultimately have new: "distinct (ct_qualified ?tg # map ct_qualified ?rest @ map fst outcomes)"
    using mset_eq_imp_distinct_iff[of "map ct_qualified targets @ map fst outcomes"
      "ct_qualified ?tg # map ct_qualified ?rest @ map fst outcomes"] by simp
  obtain blk where blk: "blk \<in> set blks" "pending env w0 w ?tg blk"
    using ph nth_mem[OF i] unfolding phase_two_def by blast
  note at = pending_at[OF blk(2)]
  have other: "seen w' u = seen w u" if "table_at env q u" "q \<noteq> ct_qualified ?tg" for q u
    using commit_turn_other[OF cm, of u] table_at_inj[of env q u "block_name blk"] at that by auto
  show ?thesis unfolding phase_two_def
  proof (intro conjI ballI allI impI)
    fix tg
    assume tg: "tg \<in> set ?rest"
    have "ct_qualified tg \<in> ct_qualified ` set ?rest" using tg by (rule imageI)
    then have n: "ct_qualified tg \<noteq> ct_qualified ?tg" using new by auto
    have "tg \<in> set targets" using tg set by blast
    then obtain b where b: "b \<in> set blks" "pending env w0 w tg b" using ph unfolding phase_two_def by blast
    have "pending env w0 w' tg b"
      by (rule pending_cong[OF b(2) other]) (use pending_at[OF b(2)] n in auto)
    then show "\<exists>b \<in> set blks. pending env w0 w' tg b" using b(1) by blast
  next
    fix b
    assume b: "b \<in> set blks"
    show "block_name b \<in> ct_qualified ` set ?rest \<or> (\<exists>r'. (block_name b, r') \<in> set (outcomes @ [(ct_qualified ?tg, r)])
        \<and> (\<forall>n. r' = Inr n \<longrightarrow> published_in env w0 w' b n))"
    proof (cases "block_name b = ct_qualified ?tg")
      case True
      then have "b = blk" using b blk(1) at names by (simp add: distinct_map inj_on_def)
      moreover have "published_in env w0 w' blk n" if "r = Inr n" for n
        using pending_commits[OF blk(2) env] cm that by simp
      ultimately show ?thesis using True by auto
    next
      case False
      have keep: "published_in env w0 w' b n" if "published_in env w0 w b n" for n
        by (rule published_cong[OF that other]) (use False in auto)
      have "block_name b \<in> ct_qualified ` set targets
          \<or> (\<exists>r. (block_name b, r) \<in> set outcomes \<and> (\<forall>n. r = Inr n \<longrightarrow> published_in env w0 w b n))"
        using ph b unfolding phase_two_def by blast
      then show ?thesis using False keep set by auto
    qed
  next
    show "distinct (map ct_qualified ?rest @ map fst (outcomes @ [(ct_qualified ?tg, r)]))" using new by auto
  next
    fix u
    assume u: "seen w' u \<noteq> seen w0 u"
    show "\<exists>b \<in> set blks. table_at env (block_name b) u"
    proof (cases "u = location (ct_table ?tg)")
      case True
      then show ?thesis using blk(1) at by blast
    next
      case False
      then have "seen w u \<noteq> seen w0 u" using u commit_turn_other[OF cm] by simp
      then show ?thesis using ph by (auto simp: phase_two_def)
    qed
  qed
qed

text \<open>The end of phase one is the start of phase two.\<close>

lemma target_ok_actions: "target_ok env w0 w (tg\<lparr>ct_actions := a\<rparr>) blk = target_ok env w0 w tg blk"
  by (simp add: target_ok_def)

lemma staged_pending:
  assumes t: "target_ok env w0 w tg blk" and b: "booked (en_config env) blks ld" "blk \<in> set blks" "distinct (map block_name blks)"
    and f: "files_ok w F (ld_staged ld)"
  shows "pending env w0 w (tg\<lparr>ct_actions := staged_for (ld_staged ld) (ct_qualified tg)\<rparr>) blk"
proof -
  let ?acts = "staged_for (ld_staged ld) (ct_qualified tg)"
  have q: "ct_qualified tg = block_name blk" using t by (simp add: target_ok_def)
  have c: "clean w ?acts"
    using f by (cases "ld_staged ld (ct_qualified tg)") (auto simp: staged_for_def files_ok_def clean_def unseen_def)
  have "file_rows ?acts = mset (block_rows A (en_config env) blk)"
    using b(1) sum_of_one[OF b(3,2), of "\<lambda>b. mset (block_rows A (en_config env) b)"] q by (simp add: booked_def)
  then show ?thesis using t c unfolding pending_def target_ok_actions clean_def unseen_def by auto
qed

lemma phase_two_starts:
  assumes t: "targets_ok env w0 blks tasks ld w" and b: "booked (en_config env) blks ld" "distinct (map block_name blks)"
    and f: "files_ok w F (ld_staged ld)"
  shows "phase_two env w0 blks w (take_staged (ld_targets ld) (ld_staged ld)) []"
proof -
  let ?f = "\<lambda>tg. tg\<lparr>ct_actions := staged_for (ld_staged ld) (ct_qualified tg)\<rparr>"
  have all: "list_all2 (target_ok env w0 w) (ld_targets ld) blks"
    and seen: "\<And>u. seen w u \<noteq> seen w0 u \<Longrightarrow> u \<in> (\<lambda>tg. location (ct_table tg)) ` set (ld_targets ld)"
    using t by (auto simp: targets_ok_def)
  have "map ct_qualified (ld_targets ld) = map block_name blks"
    using all by (induction rule: list_all2_induct) (auto simp: target_ok_def)
  note names = this
  have ts: "take_staged (ld_targets ld) (ld_staged ld) = map ?f (ld_targets ld)"
    using b(2) names by (intro take_staged_eq) simp
  have "\<exists>blk \<in> set blks. pending env w0 w (?f tg) blk" if tg: "tg \<in> set (ld_targets ld)" for tg
  proof -
    obtain i where i: "i < length (ld_targets ld)" "tg = ld_targets ld ! i" using tg by (auto simp: in_set_conv_nth)
    then have blk: "target_ok env w0 w tg (blks ! i)" "blks ! i \<in> set blks"
      using list_all2_nthD[OF all i(1)] list_all2_lengthD[OF all] by simp_all
    show ?thesis using staged_pending[OF blk(1) b(1) blk(2) b(2) f] blk(2) by blast
  qed
  note pend = this
  have "\<exists>blk \<in> set blks. table_at env (block_name blk) u" if u: "seen w u \<noteq> seen w0 u" for u
  proof -
    obtain tg where "tg \<in> set (ld_targets ld)" "u = location (ct_table (?f tg))" using seen[OF u] by auto
    then show ?thesis using pend pending_at by metis
  qed
  moreover have "map ct_qualified (map ?f (ld_targets ld)) = map block_name blks" using names by (simp add: o_def)
  moreover have "block_name blk \<in> ct_qualified ` set (map ?f (ld_targets ld))" if "blk \<in> set blks" for blk
    using that calculation(2) by (metis imageI set_map)
  ultimately show ?thesis using pend b(2) unfolding phase_two_def ts by auto
qed

text \<open>The conclusion: every commit made, its version reported, and the history appended.\<close>

lemma concluded:
  assumes b: "booked (en_config env) blks ld" and d: "en_delta env = D"
    and r: "\<And>blk. blk \<in> set blks \<Longrightarrow> \<not> (lc_write_manifest (en_config env) \<and> reserved_collision (db_table blk))"
    and ph: "distinct (map block_name blks) \<Longrightarrow> phase_two env w0 blks w [] outs"
    and c: "conclude env v outs n ld w = (Inr rep, w')"
  shows "delivered seen contents env w0 w' blks rep"
proof -
  let ?ts = "foldl (\<lambda>ts (q, v). set_version q v ts) (ld_tables ld) (successes outs)"
  have ok: "first_failure outs = None" and rep: "lr_tables rep = ?ts" "lr_total_rows rep = ld_total_rows ld"
    using c by (auto simp: conclude_def tally_eq Let_def then_w_def split: option.splits if_splits prod.splits sum.splits)
  have other: "lc_write_manifest (en_config env) \<and> table_at env MANIFEST_NAME u" if u: "seen w' u \<noteq> seen w u" for u
  proof (cases "lc_write_manifest (en_config env)")
    case False
    then show ?thesis using c ok u by (auto simp: conclude_def tally_eq Let_def)
  next
    case True
    then obtain report lid where "append_history (en_delta env) (en_alnum env) (en_mk_batch env) (en_clock env)
        (lc_output_uri (en_config env)) (lc_storage_options (en_config env)) report w = (Inr lid, w')"
      using c ok by (auto simp: conclude_def tally_eq Let_def elim: then_w_InrE)
    from append_history_ok[OF this[unfolded d]] show ?thesis
      using True u manifest_at[of env] by (auto split: if_splits)
  qed
  have tabs: "map (\<lambda>t. (ts_table t, ts_rows t)) (ld_tables ld) = map (\<lambda>b. (block_name b, length (db_lines b))) blks"
    using b by (simp add: booked_def)
  have "published_in env w0 w' (blks ! i) (ts_delta_version (?ts ! i))"
    if names: "distinct (map block_name blks)" and i: "i < length blks" for i
  proof -
    have tn: "map ts_table (ld_tables ld) = map block_name blks"
      using arg_cong[OF tabs, of "map fst"] by (simp add: o_def)
    then have l: "i < length (ld_tables ld)" using i by (metis length_map)
    have name: "ts_table (ld_tables ld ! i) = block_name (blks ! i)" using tn i l by (metis nth_map)
    have blk: "blks ! i \<in> set blks" using i by simp
    obtain m where m: "(block_name (blks ! i), Inr m) \<in> set outs" "published_in env w0 w (blks ! i) m"
      using ph[OF names] blk ok unfolding phase_two_def no_failure by fastforce
    have ds: "distinct (map fst (successes outs))" using ph[OF names] by (simp add: phase_two_def successes_distinct)
    have "map_of (successes outs) (block_name (blks ! i)) = Some m" using m(1) ds by (simp add: successes_in)
    then have "ts_delta_version (?ts ! i) = m"
      using versions_nth[of "ld_tables ld" i "successes outs"] tn names l ds name by simp
    moreover have "seen w' u = seen w u" if u: "table_at env (block_name (blks ! i)) u" for u
    proof (rule ccontr)
      assume "seen w' u \<noteq> seen w u"
      from other[OF this] have "lc_write_manifest (en_config env)" "block_name (blks ! i) = MANIFEST_NAME"
        using table_at_inj[OF u] by auto
      then show False using r[OF blk] manifest_name[of "db_table (blks ! i)"] by (simp add: block_name_def)
    qed
    ultimately show ?thesis using published_cong[OF m(2)] by simp
  qed
  moreover have "length ?ts = length blks" using arg_cong[OF tabs, of length] arg_cong[OF versions_tables, of length "ld_tables ld" "successes outs"] by simp
  ultimately have "distinct (map block_name blks) \<Longrightarrow>
      list_all2 (\<lambda>b t. published_in env w0 w' b (ts_delta_version t)) blks ?ts"
    by (simp add: list_all2_conv_all_nth)
  moreover have "(\<exists>blk \<in> set blks. table_at env (block_name blk) u) \<or> lc_write_manifest (en_config env) \<and> table_at env MANIFEST_NAME u"
    if "distinct (map block_name blks)" "seen w' u \<noteq> seen w0 u" for u
    using that ph other[of u] unfolding phase_two_def by metis
  ultimately show ?thesis using rep tabs versions_tables b by (simp add: delivered_def booked_def)
qed

text \<open>Along every run.\<close>

definition publishes :: "('f, 'b, 'a, 'r, 'w, 's, 't, 'k, 'x, 'm, 'v, 'i) loader_env \<Rightarrow> 'w \<Rightarrow> event list
    \<Rightarrow> ('b, 'v, 't, 'k, 'x, 'm, 'i, 'w) config \<Rightarrow> bool" where
  "publishes env w0 evs c \<longleftrightarrow>
     (let blks = dump_blocks (en_config env) (en_low env) evs
      in (\<forall>v targets outs n. cf_pc c = Committing v targets outs n \<longrightarrow>
            booked (en_config env) blks (cf_loader c)
            \<and> (\<forall>blk \<in> set blks. \<not> (lc_write_manifest (en_config env) \<and> reserved_collision (db_table blk)))
            \<and> (distinct (map block_name blks) \<longrightarrow> phase_two env w0 blks (cf_world c) targets outs))
         \<and> (\<forall>rep. cf_pc c = Finished (Inr rep) \<longrightarrow> delivered seen contents env w0 (cf_world c) blks rep))"

lemma quiet_publishes:
  assumes "publishes env w0 evs c" "cf_pc c' = cf_pc c" "cf_loader c' = cf_loader c" "seen (cf_world c') = seen (cf_world c)"
  shows "publishes env w0 evs c'"
  using assms(1) phase_two_cong[OF _ assms(4)] delivered_cong[of seen contents env w0 "cf_world c" _ _ "cf_world c'", OF _ assms(4)]
  unfolding publishes_def Let_def assms(2,3) by blast

lemma publishes_starts:
  assumes pc: "cf_pc c = ReadChunk" and d: "en_delta env = D"
    and inv: "rows_inv env evs c" "follow_ok env evs' c'" "targets_inv env w0 evs c"
    and e: "end_of_input ((cf_loader c)\<lparr>ld_input := input, ld_preloads := Map.empty\<rparr>) = Inr (v, targets)"
    and c': "c' = c\<lparr>cf_loader := (cf_loader c)\<lparr>ld_input := input, ld_preloads := Map.empty\<rparr>,
              cf_pc := Committing v targets [] (length targets)\<rparr>" "evs' = evs"
  shows "publishes env w0 evs c'"
proof -
  let ?rp = "replay_of (en_config env) (en_low env) evs"
  have none: "rp_open ?rp = None" using inv(2) c' by (simp add: follow_ok_def)
  have t: "targets_ok env w0 (rp_blocks ?rp) (cf_tasks c) (cf_loader c) (cf_world c)"
    using inv(3) pc none by (simp add: targets_inv_def begun_def)
  have ph: "reader_phase (cf_pc c) = 1" using pc by simp
  obtain ctx sofar where b: "booked (en_config env) (rp_blocks ?rp) (cf_loader c)"
    and r: "rows_ok (block_stage (ld_current (cf_loader c))) ctx sofar (cf_workers c) (cf_events c) [] (ld_staged (cf_loader c)) (cf_world c)"
    by (rule rows_invD[OF inv(1) ph]) (use pc in \<open>simp del: rows_ok.simps\<close>)
  have "block_stage (ld_current (cf_loader c)) \<noteq> Over" by (cases "ld_current (cf_loader c)") simp_all
  note files = rows_files[OF this r]
  have targets: "targets = take_staged (ld_targets (cf_loader c)) (ld_staged (cf_loader c))"
    using e by (auto simp: end_of_input_def and_then_eq_Inr)
  have "\<not> (lc_write_manifest (en_config env) \<and> reserved_collision (db_table blk))" if blk: "blk \<in> set (rp_blocks ?rp)" for blk
  proof -
    have all: "list_all2 (target_ok env w0 (cf_world c)) (ld_targets (cf_loader c)) (rp_blocks ?rp)"
      using t by (simp add: targets_ok_def)
    obtain i where i: "i < length (rp_blocks ?rp)" "blk = rp_blocks ?rp ! i" using blk by (auto simp: in_set_conv_nth)
    then have "target_ok env w0 (cf_world c) (ld_targets (cf_loader c) ! i) blk"
      using list_all2_nthD2[OF all i(1)] by simp
    then show ?thesis by (simp add: target_ok_def)
  qed
  moreover have "booked (en_config env) (rp_blocks ?rp) ((cf_loader c)\<lparr>ld_input := input, ld_preloads := Map.empty\<rparr>)"
    by (rule booked_same[OF b]) simp_all
  ultimately show ?thesis using phase_two_starts[OF t b _ files] c'(1) targets
    by (simp add: publishes_def dump_blocks_def)
qed

lemma publishes_step:
  assumes st: "load_step env c l c'" and env: "en_delta env = D" "en_arrow env = A"
    and inv: "rows_inv env (events_of ls) c" "follow_ok env (events_of (ls @ [l])) c'" "targets_inv env w0 (events_of ls) c"
    and ok: "publishes env w0 (events_of ls) c"
  shows "publishes env w0 (events_of (ls @ [l])) c'"
proof (cases "reader_phase (cf_pc c) = 1")
  case True
  from st True show ?thesis
  proof (cases rule: reader_moves)
    case (ended input v targets)
    have evs: "events_of (ls @ [l]) = events_of ls" using ended(1) by simp
    show ?thesis unfolding evs
      by (rule publishes_starts[OF ended(2) env(1) inv(1) _ inv(3) ended(4,5)]) (use inv(2) evs in auto)
  next
    case other
    then show ?thesis by (cases "cf_pc c'") (auto simp: publishes_def)
  qed (simp_all add: publishes_def)
next
  case False
  then have ph: "reader_phase (cf_pc c) = 0" by (cases "cf_pc c") auto
  note late = late_steps[OF st ph, of ls]
  let ?blks = "dump_blocks (en_config env) (en_low env) (events_of ls)"
  show ?thesis
  proof (cases "visible l")
    case quiet: False
    have nh: "l \<noteq> Event ev" for ev
      using st ph by (cases rule: load_step.cases) (auto split: list.splits)
    have "cf_pc c' = cf_pc c"
      using st by (cases rule: load_step.cases) (use ph quiet in \<open>auto simp: set_worker_def\<close>)
    then show ?thesis using quiet_publishes[OF ok _ _ quiet_seen[OF st nh env(1) quiet]] late by simp
  next
    case True
    from st show ?thesis
    proof (cases rule: load_step.cases)
      case (commits v targets outs n i r w)
      then have p: "booked (en_config env) ?blks (cf_loader c)"
        "\<forall>blk \<in> set ?blks. \<not> (lc_write_manifest (en_config env) \<and> reserved_collision (db_table blk))"
        "distinct (map block_name ?blks) \<Longrightarrow> phase_two env w0 ?blks (cf_world c) targets outs"
        using ok by (auto simp: publishes_def Let_def)
      show ?thesis using p(1,2) phase_two_commits[OF p(3) _ commits(4) env(2,1) commits(6)[unfolded env(1)]] commits(1,2)
        by (simp add: publishes_def Let_def)
    next
      case (concludes v outs n)
      then have p: "booked (en_config env) ?blks (cf_loader c)"
        "\<And>blk. blk \<in> set ?blks \<Longrightarrow> \<not> (lc_write_manifest (en_config env) \<and> reserved_collision (db_table blk))"
        "distinct (map block_name ?blks) \<Longrightarrow> phase_two env w0 ?blks (cf_world c) [] outs"
        using ok by (auto simp: publishes_def Let_def)
      obtain r w where c: "conclude env v outs n (cf_loader c) (cf_world c) = (r, w)" by fastforce
      have "delivered seen contents env w0 w ?blks rep" if "r = Inr rep" for rep
        by (rule concluded[OF p(1) env(1) p(2,3) c[unfolded that]])
      then show ?thesis using c concludes(1,2) by (simp add: publishes_def Let_def conclude_turn_def)
    qed (use True ph in \<open>auto split: list.splits\<close>)
  qed
qed

lemma publishes_run:
  assumes r: "run (load_step env) (start_config env input w0) ls c"
    and env: "en_delta env = D" "en_arrow env = A" "0 < en_threads env"
  shows "publishes env w0 (events_of ls) c"
  using r
proof (rule run_snoc_induct)
  show "publishes env w0 (events_of []) (start_config env input w0)" by (simp add: publishes_def start_config_def)
next
  fix a l b ls'
  assume run: "run (load_step env) (start_config env input w0) ls' a" and st: "load_step env a l b"
    and ok: "publishes env w0 (events_of ls') a"
  have "run (load_step env) (start_config env input w0) (ls' @ [l]) b" using run st by (auto simp: run_snoc)
  from publishes_step[OF st env(1,2) conjunct1[OF rows_run[OF run env]] follow_run[OF this] targets_run[OF run env(1)] ok]
  show "publishes env w0 (events_of (ls' @ [l])) b" .
qed

lemma delivered_run:
  assumes "run (load_step env) (start_config env input w0) ls c" "en_delta env = D" "en_arrow env = A" "0 < en_threads env"
    and "cf_pc c = Finished (Inr rep)"
  shows "whole_dump env input (events_of ls)
    \<and> delivered seen contents env w0 (cf_world c) (dump_blocks (en_config env) (en_low env) (events_of ls)) rep"
  using scan_run_ok[OF assms(1)] publishes_run[OF assms(1-4)] assms(5) by (simp add: publishes_def Let_def)

end

text \<open>
  C1. A load that succeeds has published the dump, however its reader, workers, preloads and commits
  interleaved and however the input was cut into chunks. The events it acted on are those of the whole
  input, read to its end. Its report has one entry per COPY block of a wanted table, in the order of the
  dump, with the number of lines of the block, and their total. And where no table has two blocks, the
  table of each block has gone up by exactly one version, the one reported: every line of the block denotes
  a row, and these are the rows of the table, with those it had before when the load appends; it has the
  schema the block declares; and no other location of the lake has changed, but that of the load history
  when the load records one.
\<close>

theorem load_publishes_the_dump:
  assumes "load_stack (en_arrow env) held btype acontents atype batch_columns (en_delta env)
      seen location loaded schema_of contents batch_rows buffered stored"
    and "run (load_step env) (start_config env input w) ls c" "cf_pc c = Finished (Inr rep)" "0 < en_threads env"
  shows "whole_dump env input (events_of ls)
    \<and> delivered seen contents env w (cf_world c) (dump_blocks (en_config env) (en_low env) (events_of ls)) rep"
  by (rule load_stack.delivered_run[OF assms(1,2) refl refl assms(4,3)])

end
