(* ===== verification/Load_Demo.thy ===== *)
theory Load_Demo
  imports Load_Exec Load_Publish
begin

section \<open>A load in memory\<close>

text \<open>
  A dump of one table loaded by two workers into a lake in memory, with the builders that are lists: the
  concrete input of the properties of the pipeline.
\<close>


text \<open>The rows of a batch that is kept by columns.\<close>

definition rows_of_columns :: "'e list list \<Rightarrow> 'e list list" where
  "rows_of_columns columns = (case columns of [] \<Rightarrow> [] | c # _ \<Rightarrow> map (\<lambda>k. map (\<lambda>col. col ! k) columns) [0..<length c])"

definition demo_chunks :: "bytes list" where
  "demo_chunks =
     [''-- Dumped from database version 16.1'' @ [NL] @ ''-- Dumped by pg_dump version 16.1'' @ [NL]
        @ ''CREATE TABLE public.t (id bigint);'' @ [NL] @ ''COPY public.t (id) FROM stdin;'' @ [NL] @ ''1'' @ [NL],
      ''2'' @ [NL, BSL] @ ''.'' @ [NL]]"

text \<open>The chunks of an input, one after the other.\<close>

fun next_of :: "bytes list \<Rightarrow> (bytes option res \<times> bytes list) option" where
  "next_of [] = Some (Inr None, [])"
| "next_of (c # cs) = Some (Inr (Some c), cs)"

definition demo_env where
  "demo_env next =
     \<lparr>en_config = default_config\<lparr>lc_output_uri := ''/lake'', lc_batch_rows := 2, lc_batch_bytes := 50,
        lc_limits := \<lparr>max_field_bytes = 50, max_row_bytes = 100, max_columns = 4\<rparr>, lc_write_manifest := False\<rparr>, en_threads = 2,
      en_arrow = list_arrow (\<lambda>x. x) (\<lambda>x. x), en_delta = lake_ops rows_of_columns, en_store = (), en_alnum = \<lambda>_. False,
      en_low = map to_ascii_lower, en_next = next, en_count = \<lambda>_. 0, en_compression = CompNone,
      en_callback = \<lambda>_. True, en_mk_batch = \<lambda>_ cs. Inr (map (map entry_of) cs), en_clock = \<lambda>_. 0\<rparr>"

text \<open>The table is there already, with a row and another type.\<close>

definition demo_before :: "float_val entry list mem_lake" where
  "demo_before = \<lparr>ml_tables = [(''/lake/public/t'',
      \<lparr>mt_version = 4, mt_schema = [(''id'', DInt32)], mt_files = [(7, [[Val (VInt 9)]])]\<rparr>)], ml_next = 7\<rparr>"

definition demo_table :: "float_val entry list mem_table" where
  "demo_table = \<lparr>mt_version = 5, mt_schema = [(''id'', DInt64)],
      mt_files = [(15, [[Val (VInt 2)]]), (23, [[Val (VInt 1)]])]\<rparr>"

definition demo_moves :: "move list" where
  "demo_moves = replicate 3 Reader @ [Preloader 0] @ replicate 16 Reader @ replicate 4 (Worker 1) @ [Reader]
     @ replicate 4 (Worker 0) @ replicate 6 Reader @ [Worker 1, Worker 1, Worker 0, Worker 0]"

definition demo_start where
  "demo_start = start_config (demo_env next_of) demo_chunks demo_before"

definition demo_played where
  "demo_played = play (demo_env next_of) demo_moves demo_start"

definition demo_labels where
  "demo_labels = fst (the demo_played)"

definition demo_end where
  "demo_end = snd (the demo_played)"

definition demo_stats :: table_stats where
  "demo_stats =
     \<lparr>ts_table = ''public.t'', ts_schema_drift = no_drift\<lparr>dr_retyped := [(''id'', ''integer'', ''other'')]\<rparr>, ts_rows = 2,
      ts_batches = 2, ts_delta_version = 5, ts_null_substitutions = [], ts_text_fallback_columns = []\<rparr>"

definition demo_outcome :: load_report where
  "demo_outcome =
     \<lparr>lr_dumped_by = 16, lr_from_database = Some 16, lr_compression = ''none'', lr_bytes_read = 0, lr_total_rows = 2,
      lr_tables = [demo_stats], lr_missing_tables = [], lr_unexpected_tables = [], lr_load_id = None\<rparr>"

definition demo_block :: dump_block where
  "demo_block = \<lparr>db_table = demo_name,
     db_columns = [(''id'', \<lparr>rt_pg = BigInt, rt_is_array = False, rt_array_dimensions = 0, rt_recognised = True, rt_source = ''bigint''\<rparr>)],
     db_lines = [''1'', ''2'']\<rparr>"

definition demo_blocks where
  "demo_blocks ls = dump_blocks (en_config (demo_env next_of)) (en_low (demo_env next_of)) (events_of ls)"

lemma demo_evaluated:
  "case demo_played of None \<Rightarrow> False | Some (ls, c) \<Rightarrow>
     ((case cf_pc c of Finished r \<Rightarrow> r = Inr demo_outcome | _ \<Rightarrow> False)
       \<and> map_of (ml_tables (cf_world c)) ''/lake/public/t'' = Some demo_table
       \<and> committed ls = [(''public.t'', Inr 5)] \<and> Concluded \<in> set ls \<and> all_gone (cf_workers c)
       \<and> demo_blocks ls = [demo_block])"
  by code_simp

lemma demo_run:
  "run (load_step (demo_env next_of)) demo_start demo_labels demo_end" "cf_pc demo_end = Finished (Inr demo_outcome)"
  "map_of (ml_tables (cf_world demo_end)) ''/lake/public/t'' = Some demo_table"
  "committed demo_labels = [(''public.t'', Inr 5)]" "Concluded \<in> set demo_labels" "all_gone (cf_workers demo_end)"
  "demo_blocks demo_labels = [demo_block]"
proof -
  obtain ls c where p: "demo_played = Some (ls, c)" using demo_evaluated by (auto split: option.splits)
  have eq: "demo_labels = ls" "demo_end = c" unfolding demo_labels_def demo_end_def p by simp_all
  note facts = demo_evaluated[unfolded p, simplified]
  then obtain r where "cf_pc c = Finished r" by (cases "cf_pc c") auto
  then show "cf_pc demo_end = Finished (Inr demo_outcome)" using facts eq by simp
  show "run (load_step (demo_env next_of)) demo_start demo_labels demo_end"
    unfolding eq by (rule play_run[OF p[unfolded demo_played_def]])
  show "map_of (ml_tables (cf_world demo_end)) ''/lake/public/t'' = Some demo_table"
    "committed demo_labels = [(''public.t'', Inr 5)]" "Concluded \<in> set demo_labels" "all_gone (cf_workers demo_end)"
    "demo_blocks demo_labels = [demo_block]"
    unfolding eq using facts by simp_all
qed

text \<open>The stack: builders that are lists, batches by columns, and a lake that numbers its files.\<close>

lemma rows_of_transposed:
  assumes "0 < n" "\<And>row. row \<in> set got \<Longrightarrow> length row = n"
  shows "rows_of_columns (transposed n got) = got"
proof -
  have c: "transposed n got = map (\<lambda>row. row ! 0) got # map (\<lambda>i. map (\<lambda>row. row ! i) got) [1..<n]"
    using assms(1) by (simp add: transposed_def upt_conv_Cons)
  have "map (\<lambda>col. col ! k) (transposed n got) = got ! k" if "k < length got" for k
    by (rule nth_equalityI) (use assms that in \<open>simp_all add: transposed_def\<close>)
  then have "map (\<lambda>k. map (\<lambda>col. col ! k) (transposed n got)) [0..<length got] = got"
    by (intro nth_equalityI) simp_all
  then show ?thesis using c by (simp add: rows_of_columns_def)
qed

interpretation stack: load_stack "list_arrow r32 r64" snd fst snd fst "\<lambda>r. r" "lake_ops rows_of_columns"
    mem_seen fst "\<lambda>h. map_option mem_view (snd h)" AList.clearjunk "\<lambda>x. mset (snd x)" "\<lambda>b. mset (rows_of_columns b)"
    "\<lambda>wr. mset (snd wr)" "\<lambda>w. {x. fst x \<le> ml_next w}" for r32 r64
  by unfold_locales
    (auto simp: lake_ops_def mem_create_def mem_put_def mem_flush_def mem_fresh_def rows_of_transposed Let_def split: if_splits)

text \<open>The run: what the table held is replaced, and the report says so.\<close>

theorem load_publishes_the_dump_witness:
  "whole_dump (demo_env next_of) demo_chunks (events_of demo_labels) \<and>
   published mem_seen (\<lambda>x. mset (snd x)) (demo_env next_of) demo_before (cf_world demo_end) demo_block 5 \<and>
   map ts_rows (lr_tables demo_outcome) = [2]"
proof -
  have env: "en_arrow (demo_env next_of) = list_arrow (\<lambda>x. x) (\<lambda>x. x)" "en_delta (demo_env next_of) = lake_ops rows_of_columns"
    "0 < en_threads (demo_env next_of)"
    by (simp_all add: demo_env_def)
  have "whole_dump (demo_env next_of) demo_chunks (events_of demo_labels)
    \<and> delivered mem_seen (\<lambda>x. mset (snd x)) (demo_env next_of) demo_before (cf_world demo_end) (demo_blocks demo_labels) demo_outcome"
    unfolding demo_blocks_def
    by (rule load_publishes_the_dump[of "demo_env next_of", unfolded env(1,2), OF stack.load_stack_axioms
          demo_run(1)[unfolded demo_start_def] demo_run(2) env(3)])
  then show ?thesis unfolding demo_run(7)
    by (auto simp: delivered_def demo_outcome_def demo_stats_def demo_block_def)
qed

theorem load_is_two_phase_witness:
  "run (load_step (demo_env next_of)) demo_start demo_labels demo_end \<and> cf_pc demo_end = Finished (Inr demo_outcome) \<and>
   list_all (\<lambda>(q, r). \<exists>v. r = Inr v) (committed demo_labels) \<and> committed demo_labels = [(''public.t'', Inr 5)]"
proof -
  have d: "en_delta (demo_env next_of) = lake_ops rows_of_columns" by (simp add: demo_env_def)
  have "\<forall>(q, r) \<in> set (committed demo_labels). \<exists>v. r = Inr v"
    using load_is_two_phase[of "demo_env next_of", unfolded d, OF mem.delta_lake_axioms demo_run(1)[unfolded demo_start_def]]
      demo_run(2,4,5) by auto
  then show ?thesis using demo_run by (auto simp: list_all_iff)
qed

theorem load_always_finishes_witness:
  "0 < en_threads (demo_env next_of) \<and>
   \<not> (\<exists>f ls. f 0 = start_config (demo_env (next_chunk cursor_read)) (with_limits (concat demo_chunks) 100 100) demo_before \<and>
      (\<forall>i. load_step (demo_env (next_chunk cursor_read)) (f i) (ls i) (f (Suc i))))"
proof -
  have n: "en_next (demo_env (next_chunk cursor_read)) = next_chunk cursor_read" "0 < en_threads (demo_env nx)" for nx
    by (simp_all add: demo_env_def)
  have ends: "input_ends (en_next (demo_env (next_chunk cursor_read))) (cr_inv (\<lambda>s. s) (\<lambda>_. True))
      (\<lambda>cr. length (Dump_Reader.pending (\<lambda>s. s) cr))"
    unfolding n(1) by (rule chunks_end[OF cursor.byte_source_axioms])
  have i: "cr_inv (\<lambda>s. s) (\<lambda>_. True) (with_limits (concat demo_chunks) 100 100)" by (rule with_limits_inv) simp
  show ?thesis using load_always_finishes[OF n(2) ends i] n(2) by blast
qed

end
