(* ===== verification/Load_Stream.thy ===== *)
theory Load_Stream
  imports Load_Demo Object_Source
begin

section \<open>From the bytes of a dump to the tables\<close>

text \<open>
  What a load publishes, told of the stream of bytes alone: not of the chunks it happened to be read in,
  nor of the reader, the decompressor or the counter it was read through. With it the entry points of
  \<open>src/pipeline.rs\<close>: \<open>run\<close>, \<open>run_uri\<close> and \<open>run_file\<close>.
\<close>

subsection \<open>Chunks do not matter\<close>

lemma delivers_stream:
  assumes src: "byte_source rd rest ok" and inv: "cr_inv rest ok cr"
    and d: "delivers (next_chunk rd) cr chunks j" "next_chunk rd j = Some (Inr None, j')"
  shows "concat chunks = pending rest cr"
  using inv d(1)
proof (induction chunks arbitrary: cr)
  case Nil
  obtain r k where r: "next_chunk rd cr = Some (r, k)" "chunk_post rest ok cr r k"
    by (rule byte_source.next_chunk_post[OF src Nil(1)])
  have "r = Inr None" using r(1) d(2) Nil(2) by simp
  then show ?case using r(2) by (simp add: chunk_post_def)
next
  case (Cons c cs)
  obtain k where k: "next_chunk rd cr = Some (Inr (Some c), k)" "delivers (next_chunk rd) k cs j" using Cons(3) by auto
  obtain r k' where r: "next_chunk rd cr = Some (r, k')" "chunk_post rest ok cr r k'"
    by (rule byte_source.next_chunk_post[OF src Cons(2)])
  then have "chunk_post rest ok cr (Inr (Some c)) k" using k(1) by simp
  then show ?case using Cons.IH[OF _ k(2)] by (simp add: chunk_post_def Let_def)
qed

text \<open>The replay of a line, and of the lines an event stands for.\<close>

fun line_step :: "load_config \<Rightarrow> (bytes \<Rightarrow> bytes) \<Rightarrow> event \<Rightarrow> replay \<Rightarrow> replay" where
  "line_step config low (CopyRows l) rp = rp\<lparr>rp_open := map_option (\<lambda>b. b\<lparr>db_lines := db_lines b @ [l]\<rparr>) (rp_open rp)\<rparr>"
| "line_step config low ev rp = replay_step config low ev rp"

lemma fold_rows: "fold (line_step config low) (map CopyRows ls) rp =
    rp\<lparr>rp_open := map_option (\<lambda>b. b\<lparr>db_lines := db_lines b @ ls\<rparr>) (rp_open rp)\<rparr>"
proof (induction ls arbitrary: rp)
  case Nil
  show ?case by (cases "rp_open rp") simp_all
next
  case (Cons l ls)
  then show ?case by (cases "rp_open rp") simp_all
qed

lemma fold_view: "fold (line_step config low) (view ev) rp = replay_step config low ev rp"
  by (cases ev) (simp_all add: fold_rows)

lemma fold_views: "fold (line_step config low) (views evs) rp = fold (replay_step config low) evs rp"
  by (induction evs arbitrary: rp) (simp_all add: fold_view)

lemma blocks_of_views: "views evs = views evs' \<Longrightarrow> dump_blocks config low evs = dump_blocks config low evs'"
  unfolding dump_blocks_def replay_of_def by (metis fold_views)

lemma first_scanner_pending: "sc_pending (first_scanner config) = []"
  "(first_scanner config)\<lparr>sc_pending := []\<rparr> = first_scanner config"
  by (simp_all add: first_scanner_def new_scanner_def set_excluded_schemas_def split: option.split)

lemma scan_finish_pending: "scan_finish (s\<lparr>sc_pending := p\<rparr>) = scan_finish s"
  by (simp add: scan_finish_def)

text \<open>A whole dump, read from a stream, is scanned as the lines of the stream are.\<close>

lemma whole_dump_lines:
  assumes src: "byte_source rd rest ok" "en_next env = next_chunk rd" and inv: "cr_inv rest ok cr"
    and w: "whole_dump env cr evs" and one: "list_all single_cr (butlast (split_on NL (pending rest cr)))"
  shows "\<exists>s ref. scan_lines (butlast (split_on NL (pending rest cr))) (first_scanner (en_config env)) = Inr (s, ref)
    \<and> scan_finish s = Inr () \<and> dump_blocks config low evs = dump_blocks config low ref"
proof -
  let ?s0 = "first_scanner (en_config env)" and ?ls = "butlast (split_on NL (pending rest cr))"
  obtain chunks j j' s where d: "delivers (next_chunk rd) cr chunks j" "next_chunk rd j = Some (Inr None, j')"
    "feed_all chunks ?s0 = Inr (s, evs)" "scan_finish s = Inr ()"
    using w src(2) by (auto simp: whole_dump_def)
  have c: "concat chunks = pending rest cr" by (rule delivers_stream[OF src(1) inv d(1,2)])
  have ref: "agrees (feed_all chunks ?s0) (scan_lines ?ls ?s0) (last (split_on NL (pending rest cr)))"
    using feed_all_lines[of ?s0 chunks, unfolded first_scanner_pending append_Nil c] one by (simp add: list_all_iff)
  show ?thesis
  proof (cases "scan_lines ?ls ?s0")
    case (Inl e)
    then show ?thesis using ref d(3) by simp
  next
    case (Inr p)
    then show ?thesis using ref d(3,4) blocks_of_views[of evs] by (cases p) (auto simp: scan_finish_pending)
  qed
qed

lemma stream_delivered:
  assumes stack: "load_stack (en_arrow env) held btype acontents atype batch_columns (en_delta env)
      seen location loaded schema_of contents batch_rows buffered stored"
    and src: "byte_source rd rest ok" "en_next env = next_chunk rd" "cr_inv rest ok cr"
    and one: "list_all single_cr (butlast (split_on NL (pending rest cr)))"
    and r: "run (load_step env) (start_config env cr w) ls c" "cf_pc c = Finished (Inr rep)" "0 < en_threads env"
  shows "\<exists>s evs. scan_lines (butlast (split_on NL (pending rest cr))) (first_scanner (en_config env)) = Inr (s, evs)
    \<and> scan_finish s = Inr ()
    \<and> delivered seen contents env w (cf_world c) (dump_blocks (en_config env) (en_low env) evs) rep"
proof -
  note run = load_stack.delivered_run[OF stack r(1) refl refl r(3,2)]
  show ?thesis
    using whole_dump_lines[OF src conjunct1[OF run] one, of "en_config env" "en_low env"] conjunct2[OF run] by metis
qed

subsection \<open>The reader a load reads through\<close>

text \<open>
  \<open>drive\<close> reads the chunks of the opened input through the decompressor and the counter. \<open>run\<close>, \<open>run_uri\<close> and
  \<open>run_file\<close> differ in the source they hand to \<open>execute\<close>.
\<close>

fun input_read :: "'f reader \<Rightarrow> 'w get_fn \<Rightarrow> ('f, 'w) input reader" where
  "input_read file_read get (LocalFile f) n = (case file_read f n of (r, f') \<Rightarrow> (r, LocalFile f'))"
| "input_read file_read get (RemoteObject s) n = (case source_read get s n of (r, s') \<Rightarrow> (r, RemoteObject s'))"

definition reading ::
  "'s reader \<Rightarrow> 'g reader \<Rightarrow> ('g \<Rightarrow> 's counting) \<Rightarrow> compression
    \<Rightarrow> ('f, 'b, 'a, 'r, 'w, 'u, 't, 'k, 'x, 'm, 'v, ('s counting, 'g) opened chunk_reader) loader_env
    \<Rightarrow> ('f, 'b, 'a, 'r, 'w, 'u, 't, 'k, 'x, 'm, 'v, ('s counting, 'g) opened chunk_reader) loader_env" where
  "reading rd gz_rd gz_inner compression env =
     env\<lparr>en_next := next_chunk (opened_read (counting_read rd) gz_rd),
         en_count := \<lambda>cr. bytes_consumed gz_inner (cr_inner cr), en_compression := compression\<rparr>"

definition load_from where
  "load_from rd gz_new gz_rd gz_inner env parallelism source w r w' \<longleftrightarrow>
     (case and_then source (open_input rd gz_new (en_config env)) of
        Inl e \<Rightarrow> executes env parallelism (Inl e) w r w'
      | Inr (compression, reader) \<Rightarrow> executes (reading rd gz_rd gz_inner compression env) parallelism (Inr reader) w r w')"

definition run_input where
  "run_input rd gz_new gz_rd gz_inner env parallelism input w r w' \<longleftrightarrow>
     load_from rd gz_new gz_rd gz_inner env parallelism (Inr input) w r w'"

definition run_file where
  "run_file rd gz_new gz_rd gz_inner open_file env parallelism path w r w' \<longleftrightarrow>
     (case open_file path of
        Inl m \<Rightarrow> r = Inl (IoError m) \<and> w' = w
      | Inr file \<Rightarrow> run_input rd gz_new gz_rd gz_inner env parallelism file w r w')"

definition run_uri where
  "run_uri rd gz_new gz_rd gz_inner parse open_file store_for head_of get env parallelism uri w r w' \<longleftrightarrow>
     load_from (input_read rd get) gz_new gz_rd gz_inner env parallelism
       (and_then (open_source parse open_file store_for head_of get uri (lc_storage_options (en_config env)))
          (\<lambda>(reader, size). Inr reader)) w r w'"

lemma counting_readE:
  assumes "counting_read rd s n = (Inr bs, s')"
  obtains t where "rd (ct_inner s) n = (Inr bs, t)" "ct_inner s' = t"
  using assms by (auto simp: counting_read_def split: prod.splits sum.splits)

lemma counting_byte_source:
  assumes "byte_source rd rest ok"
  shows "byte_source (counting_read rd) (\<lambda>s. rest (ct_inner s)) (\<lambda>s. ok (ct_inner s))"
proof (unfold_locales, goal_cases)
  case (1 s n bs s')
  then show ?case using byte_source.read_ok[OF assms] by (metis counting_readE)
next
  case (2 s n bs s')
  then show ?case using byte_source.read_rest[OF assms] by (metis counting_readE)
next
  case (3 s n bs s')
  then show ?case using byte_source.read_le[OF assms] by (metis counting_readE)
next
  case (4 s n s')
  then show ?case using byte_source.read_eof[OF assms] by (metis counting_readE)
qed

definition chain_rest :: "('s \<Rightarrow> bytes) \<Rightarrow> 's chain \<Rightarrow> bytes" where
  "chain_rest rest c = (if ch_done c then [] else ch_first c) @ rest (ch_second c)"

fun opened_rest :: "('s \<Rightarrow> bytes) \<Rightarrow> ('g \<Rightarrow> bytes) \<Rightarrow> ('s, 'g) opened \<Rightarrow> bytes" where
  "opened_rest rest inflated (OpenPlain c) = chain_rest rest c"
| "opened_rest rest inflated (OpenGzip g) = inflated g"

fun opened_ok :: "('s \<Rightarrow> bool) \<Rightarrow> ('g \<Rightarrow> bool) \<Rightarrow> ('s, 'g) opened \<Rightarrow> bool" where
  "opened_ok ok gok (OpenPlain c) = ok (ch_second c)"
| "opened_ok ok gok (OpenGzip g) = gok g"

lemma opened_byte_source:
  assumes s: "byte_source rd rest ok" and g: "byte_source gz_rd inflated gok"
  shows "byte_source (opened_read rd gz_rd) (opened_rest rest inflated) (opened_ok ok gok)"
proof -
  have c: "byte_source (chain_read rd) (chain_rest rest) (\<lambda>c. ok (ch_second c))"
    using byte_source.chain_byte_source[OF s] by (simp add: chain_rest_def[abs_def])
  show ?thesis
  proof (unfold_locales, goal_cases)
    case (1 x n bs x')
    then show ?case using byte_source.read_ok[OF c] byte_source.read_ok[OF g]
      by (cases x) (auto split: prod.splits)
  next
    case (2 x n bs x')
    then show ?case using byte_source.read_rest[OF c] byte_source.read_rest[OF g]
      by (cases x) (auto split: prod.splits)
  next
    case (3 x n bs x')
    then show ?case using byte_source.read_le[OF c] byte_source.read_le[OF g]
      by (cases x) (auto split: prod.splits)
  next
    case (4 x n x')
    then show ?case using byte_source.read_eof[OF c] byte_source.read_eof[OF g]
      by (cases x) (auto split: prod.splits)
  qed
qed

lemma open_input_stream:
  assumes src: "byte_source rd rest ok" "ok s"
    and gz: "\<And>c. ok (ct_inner (ch_second c)) \<Longrightarrow> gok (gz_new c) \<and>
        inflated (gz_new c) = gunzip (chain_rest (\<lambda>s. rest (ct_inner s)) c)"
    and o: "open_input rd gz_new config s = Inr (compression, cr)"
  defines "orest \<equiv> opened_rest (\<lambda>s. rest (ct_inner s)) inflated" and "ook \<equiv> opened_ok (\<lambda>s. ok (ct_inner s)) gok"
  shows "cr_inv orest ook cr \<and> pending orest cr = (if detect (take 4 (rest s)) = Gzip then gunzip (rest s) else rest s)"
proof -
  let ?s = "\<lparr>ct_inner = s, ct_count = 0\<rparr>"
  obtain reader where d: "decompressed (counting_read rd) gz_new ?s = Inr (compression, reader)"
    and cr: "cr = with_limits reader DEFAULT_CHUNK_BYTES (max_chunk_of config)"
    using o by (auto simp: open_input_def and_then_eq_Inr)
  have "ok (ct_inner ?s)" using src(2) by simp
  then obtain c where c: "compression = detect (take 4 (rest s))" "chain_rest (\<lambda>s. rest (ct_inner s)) c = rest s"
    "ok (ct_inner (ch_second c))" "reader = (if compression = Gzip then OpenGzip (gz_new c) else OpenPlain c)"
    using decompressed_post[OF counting_byte_source[OF src(1)] _ d] by (auto simp: chain_rest_def)
  have "ook reader" using c(3,4) gz[OF c(3)] by (simp add: ook_def)
  then show ?thesis using c gz[OF c(3)] with_limits_inv[of ook reader] by (simp add: cr orest_def)
qed

lemma delivered_before: "seen v = seen w \<Longrightarrow> delivered seen contents env v w' = delivered seen contents env w w'"
  by (simp add: delivered_def published_def fun_eq_iff)

lemma delivered_env [simp]:
  "delivered seen contents (reading rd gz_rd gz_inner compression env) = delivered seen contents env"
  "delivered seen contents (e\<lparr>en_store := s, en_threads := n\<rparr>) = delivered seen contents e"
  by (simp_all add: delivered_def published_def table_at_def reading_def fun_eq_iff)

lemma reading_simps [simp]:
  "en_config (reading rd gz_rd gz_inner compression env) = en_config env" "en_low (reading rd gz_rd gz_inner compression env) = en_low env"
  "en_arrow (reading rd gz_rd gz_inner compression env) = en_arrow env" "en_delta (reading rd gz_rd gz_inner compression env) = en_delta env"
  "en_next (reading rd gz_rd gz_inner compression env) = next_chunk (opened_read (counting_read rd) gz_rd)"
  by (simp_all add: reading_def)

text \<open>A load run by \<open>execute\<close> on an input that was opened.\<close>

lemma executes_publishes:
  assumes stack: "load_stack (en_arrow env) held btype acontents atype batch_columns (en_delta env)
      seen location loaded schema_of contents batch_rows buffered stored"
    and src: "byte_source rd rest ok" "en_next env = next_chunk rd" "cr_inv rest ok cr"
    and one: "list_all single_cr (butlast (split_on NL (pending rest cr)))" and par: "parallelism \<noteq> Some 0"
    and x: "executes env parallelism (Inr cr) w (Inr rep) w'"
  shows "\<exists>s evs. scan_lines (butlast (split_on NL (pending rest cr))) (first_scanner (en_config env)) = Inr (s, evs)
    \<and> scan_finish s = Inr ()
    \<and> delivered seen contents env w w' (dump_blocks (en_config env) (en_low env) evs) rep"
  using x
proof (cases rule: executes.cases)
  case (ran store w1 input ls c)
  let ?env = "env\<lparr>en_store := store, en_threads := pool_size (en_config env) parallelism\<rparr>"
  have lake: "delta_lake (en_delta env) seen location loaded schema_of contents batch_rows buffered"
    using stack by (simp add: load_stack_def)
  have w1: "seen w1 = seen w" by (rule delta_lake.resolve_seen[OF lake ran(3)])
  have "0 < en_threads ?env" using par by (auto simp: pool_size_def split: option.splits)
  from stream_delivered[OF _ src(1) _ src(3) one, of ?env held btype acontents atype batch_columns seen location loaded
      schema_of contents batch_rows buffered stored w1 ls c rep] this
  show ?thesis using stack src(2) ran delivered_before[of seen w1 w contents env, OF w1] by simp
qed

lemma load_from_publishes:
  assumes stack: "load_stack (en_arrow env) held btype acontents atype batch_columns (en_delta env)
      seen location loaded schema_of contents batch_rows buffered stored"
    and src: "byte_source rd rest ok" "ok s" "byte_source gz_rd inflated gok"
    and gz: "\<And>c. ok (ct_inner (ch_second c)) \<Longrightarrow> gok (gz_new c) \<and>
        inflated (gz_new c) = gunzip (chain_rest (\<lambda>s. rest (ct_inner s)) c)"
    and par: "parallelism \<noteq> Some 0"
    and r: "load_from rd gz_new gz_rd gz_inner env parallelism (Inr s) w (Inr rep) w'"
  defines "stream \<equiv> if detect (take 4 (rest s)) = Gzip then gunzip (rest s) else rest s"
  assumes one: "list_all single_cr (butlast (split_on NL stream))"
  shows "\<exists>sc evs. scan_lines (butlast (split_on NL stream)) (first_scanner (en_config env)) = Inr (sc, evs)
    \<and> scan_finish sc = Inr () \<and> delivered seen contents env w w' (dump_blocks (en_config env) (en_low env) evs) rep"
proof -
  obtain compression cr where o: "open_input rd gz_new (en_config env) s = Inr (compression, cr)"
    and x: "executes (reading rd gz_rd gz_inner compression env) parallelism (Inr cr) w (Inr rep) w'"
    using r by (auto simp: load_from_def split: sum.splits elim: executes.cases)
  note cr = open_input_stream[where ok = ok and gok = gok and inflated = inflated and gunzip = gunzip, OF src(1,2) gz o]
  show ?thesis
    using executes_publishes[OF _ opened_byte_source[OF counting_byte_source[OF src(1)] src(3)] _ conjunct1[OF cr] _ par x,
      of held btype acontents atype batch_columns seen location loaded schema_of contents batch_rows buffered stored]
      stack one cr by (simp add: stream_def)
qed

text \<open>
  C2. What a load publishes depends on the bytes of the dump alone. A load run by \<open>execute\<close> on any chunk reader over
  any source that delivers a stream, and that returns a report, has published the blocks the scanner that
  takes the stream line by line finds in it: the stream is scanned to its end without an error, is
  complete, and each block of a wanted table is a table at its next version with exactly the rows of the
  block. (No line may end with two carriage returns; see \<open>straddling_row_loses_a_cr\<close>.)
\<close>

theorem load_publishes_the_stream:
  assumes "load_stack (en_arrow env) held btype acontents atype batch_columns (en_delta env)
      seen location loaded schema_of contents batch_rows buffered stored"
    and "byte_source rd rest ok" "en_next env = next_chunk rd" "cr_inv rest ok cr"
    and "list_all single_cr (butlast (split_on NL (pending rest cr)))" "parallelism \<noteq> Some 0"
    and "executes env parallelism (Inr cr) w (Inr rep) w'"
  shows "\<exists>s evs. scan_lines (butlast (split_on NL (pending rest cr))) (first_scanner (en_config env)) = Inr (s, evs)
    \<and> scan_finish s = Inr ()
    \<and> delivered seen contents env w w' (dump_blocks (en_config env) (en_low env) evs) rep"
  by (rule executes_publishes[OF assms])

text \<open>The dump of \<open>Load_Demo\<close> read through the chunk reader, here in one chunk.\<close>

declare chunk_loop.simps [code]

definition stream_env where
  "stream_env = demo_env (next_chunk cursor_read)"

definition stream_input where
  "stream_input = with_limits (concat demo_chunks) 200 200"

definition stream_moves :: "move list" where
  "stream_moves = [Reader, Reader, Reader, Preloader 0, Reader, Reader, Worker 0, Reader, Worker 1, Reader, Reader, Reader,
     Worker 0, Reader, Reader, Reader, Worker 0, Worker 0, Reader, Worker 1, Worker 1] @ replicate 8 Reader
     @ [Worker 0, Worker 0, Worker 1, Worker 1]"

definition stream_outcome :: load_report where
  "stream_outcome = demo_outcome\<lparr>lr_tables := [demo_stats\<lparr>ts_batches := 1\<rparr>]\<rparr>"

lemma stream_evaluated:
  "case play stream_env stream_moves (start_config stream_env stream_input demo_before) of None \<Rightarrow> False
   | Some (ls, c) \<Rightarrow> (case cf_pc c of Finished r \<Rightarrow> r = Inr stream_outcome | _ \<Rightarrow> False) \<and> all_gone (cf_workers c)"
  by code_simp

lemma stream_executes: "\<exists>w'. executes stream_env (Some 2) (Inr stream_input) demo_before (Inr stream_outcome) w'"
proof -
  obtain ls c where p: "play stream_env stream_moves (start_config stream_env stream_input demo_before) = Some (ls, c)"
    using stream_evaluated by (auto split: option.splits)
  have fin: "cf_pc c = Finished (Inr stream_outcome)" "all_gone (cf_workers c)"
    using stream_evaluated unfolding p by (auto split: reader_pc.splits)
  have env: "stream_env\<lparr>en_store := (), en_threads := pool_size (en_config stream_env) (Some 2)\<rparr> = stream_env"
    by (simp add: stream_env_def demo_env_def pool_size_def default_config_def)
  have ok: "reject_managed_storage (lc_output_uri (en_config stream_env)) = Inr ()"
    by (simp add: stream_env_def demo_env_def) code_simp
  have store: "shared_store_resolve (en_delta stream_env) (lc_output_uri (en_config stream_env))
      (lc_storage_options (en_config stream_env)) demo_before = (Inr (), demo_before)"
    by (simp add: stream_env_def demo_env_def shared_store_resolve_def lake_ops_def delta_w_def delta_res_def)
  from executes.ran[where parallelism = "Some 2" and opened = "Inr stream_input", OF ok store refl, unfolded env, OF play_run[OF p] fin]
  show ?thesis by blast
qed

theorem load_publishes_the_stream_witness:
  "\<exists>w' s evs. scan_lines (butlast (split_on NL (concat demo_chunks))) (first_scanner (en_config stream_env)) = Inr (s, evs)
    \<and> scan_finish s = Inr ()
    \<and> delivered mem_seen (\<lambda>x. mset (snd x)) stream_env demo_before w' (dump_blocks (en_config stream_env) (en_low stream_env) evs)
        stream_outcome"
proof -
  have env: "en_arrow stream_env = list_arrow (\<lambda>x. x) (\<lambda>x. x)" "en_delta stream_env = lake_ops rows_of_columns"
    "en_next stream_env = next_chunk cursor_read"
    by (simp_all add: stream_env_def demo_env_def)
  obtain w' where w': "executes stream_env (Some 2) (Inr stream_input) demo_before (Inr stream_outcome) w'"
    using stream_executes by blast
  have p: "pending (\<lambda>s. s) stream_input = concat demo_chunks" by (simp add: stream_input_def)
  have inv: "cr_inv (\<lambda>s. s) (\<lambda>_. True) stream_input" unfolding stream_input_def by (rule with_limits_inv) simp
  have one: "list_all single_cr (butlast (split_on NL (pending (\<lambda>s. s) stream_input)))" unfolding p by code_simp
  have par: "Some 2 \<noteq> Some (0::nat)" by simp
  from load_publishes_the_stream[of stream_env, unfolded env(1,2), OF stack.load_stack_axioms cursor.byte_source_axioms env(3)
      inv one par w']
  show ?thesis unfolding p by blast
qed

end
