(* ===== verification/Python_Api.thy ===== *)
theory Python_Api
  imports Load_Stream
begin

section \<open>The Python interface\<close>

text \<open>
  \<open>src/python.rs\<close>: the arguments of \<open>stream_dump_to_delta\<close> as a \<open>load_config\<close>, the callback with its signals, the
  exceptions, and the report. An exception of the caller is a value of type \<open>'e\<close>; the one that is pending in the
  interpreter is a part of the state, beside the load's own (\<open>py_step\<close>). The locking of the
  interpreter and the conversion of Python objects (pyo3) are not modelled; \<open>dbg\<close> is Rust's \<open>Debug\<close> form of a
  string, which reads the Unicode tables.
\<close>

subsection \<open>Exceptions\<close>

datatype 'e py_error =
    PyKeyboardInterrupt bytes
  | PyIOError bytes
  | PartialCommitError bytes bytes nat nat
  | PyRuntimeError bytes
  | PyValueError bytes
  | Raised 'e

definition to_pyerr :: "error \<Rightarrow> 'e py_error" where
  "to_pyerr err =
     (let message = display err
      in case err of
           Interrupted \<Rightarrow> PyKeyboardInterrupt message
         | IoError _ \<Rightarrow> PyIOError message
         | CommitFailed table made tot _ \<Rightarrow> PartialCommitError message table made tot
         | DeltaError _ \<Rightarrow> PyRuntimeError message
         | ArrowError _ \<Rightarrow> PyRuntimeError message
         | Internal _ \<Rightarrow> PyRuntimeError message
         | _ \<Rightarrow> PyValueError message)"

definition parse_mode :: "(bytes \<Rightarrow> bytes) \<Rightarrow> bytes \<Rightarrow> 'e py_error + write_mode" where
  "parse_mode dbg mode =
     (if mode = ''overwrite'' then Inr Overwrite
      else if mode = ''append'' then Inr Append
      else if mode = ''error'' then Inr ErrorIfExists
      else Inl (PyValueError (''mode must be '' @ [CHR 0x27] @ ''overwrite'' @ [CHR 0x27] @ '', '' @ [CHR 0x27] @ ''append''
        @ [CHR 0x27] @ '' or '' @ [CHR 0x27] @ ''error'' @ [CHR 0x27] @ '', got '' @ dbg mode)))"

subsection \<open>Arguments\<close>

text \<open>
  The path of the dump as \<open>extract\<close> finds it: the text of a \<open>str\<close>, and for anything else what \<open>os.fspath\<close>
  makes of it, which may raise.
\<close>

record 'e path_arg =
  pth_text :: "bytes option"
  pth_fspath :: "'e + bytes"

definition dump_path_of :: "'e path_arg \<Rightarrow> 'e py_error + bytes" where
  "dump_path_of arg =
     (case pth_text arg of
        Some text \<Rightarrow> Inr text
      | None \<Rightarrow> (case pth_fspath arg of Inl err \<Rightarrow> Inl (Raised err) | Inr path \<Rightarrow> Inr (from_utf8_lossy path)))"

record py_args =
  pa_output_uri :: bytes
  pa_tables :: "bytes list option"
  pa_excluded_schemas :: "bytes list option"
  pa_wide_numeric_as_decimal :: bool
  pa_native_arrays :: bool
  pa_mode :: bytes
  pa_batch_rows :: nat
  pa_batch_bytes :: nat
  pa_threads :: "nat option"
  pa_commit_concurrency :: "nat option"
  pa_storage_options :: "options option"
  pa_expect_pg_major :: "nat option"
  pa_expect_tables :: "bytes list option"
  pa_write_manifest :: "bool option"
  pa_max_field_bytes :: "nat option"
  pa_max_row_bytes :: "nat option"
  pa_max_columns :: "nat option"

text \<open>What the signature gives when only the target is named.\<close>

definition default_args :: "bytes \<Rightarrow> py_args" where
  "default_args output_uri =
     \<lparr>pa_output_uri = output_uri, pa_tables = None, pa_excluded_schemas = None, pa_wide_numeric_as_decimal = False,
      pa_native_arrays = False, pa_mode = ''overwrite'', pa_batch_rows = 100000, pa_batch_bytes = 128 * 2 ^ 20,
      pa_threads = None, pa_commit_concurrency = None, pa_storage_options = None, pa_expect_pg_major = None,
      pa_expect_tables = None, pa_write_manifest = None, pa_max_field_bytes = None, pa_max_row_bytes = None,
      pa_max_columns = None\<rparr>"

definition unwrap_or :: "'y option \<Rightarrow> 'y \<Rightarrow> 'y" where
  "unwrap_or x d = (case x of Some y \<Rightarrow> y | None \<Rightarrow> d)"

definition config_of :: "(bytes \<Rightarrow> bytes) \<Rightarrow> py_args \<Rightarrow> 'e py_error + load_config" where
  "config_of dbg args =
     (case parse_mode dbg (pa_mode args) of
        Inl e \<Rightarrow> Inl e
      | Inr mode \<Rightarrow>
          Inr \<lparr>lc_output_uri = pa_output_uri args, lc_tables = pa_tables args, lc_excluded_schemas = pa_excluded_schemas args,
            lc_wide_numeric_as_decimal = pa_wide_numeric_as_decimal args, lc_native_arrays = pa_native_arrays args,
            lc_mode = mode, lc_batch_rows = pa_batch_rows args, lc_batch_bytes = pa_batch_bytes args,
            lc_threads = unwrap_or (pa_threads args) 0, lc_commit_concurrency = unwrap_or (pa_commit_concurrency args) 0,
            lc_storage_options = unwrap_or (pa_storage_options args) Map.empty,
            lc_expect_pg_major = pa_expect_pg_major args, lc_expect_tables = pa_expect_tables args,
            lc_limits =
              \<lparr>max_field_bytes = unwrap_or (pa_max_field_bytes args) (max_field_bytes default_limits),
               max_row_bytes = unwrap_or (pa_max_row_bytes args) (max_row_bytes default_limits),
               max_columns = unwrap_or (pa_max_columns args) (max_columns default_limits)\<rparr>,
            lc_write_manifest = unwrap_or (pa_write_manifest args) True\<rparr>)"

text \<open>The two interfaces have the same defaults.\<close>

lemma config_of_defaults: "config_of dbg (default_args uri) = Inr (default_config\<lparr>lc_output_uri := uri\<rparr>)"
  by (simp add: config_of_def default_args_def parse_mode_def default_config_def unwrap_or_def)

subsection \<open>The report\<close>

record py_table_stats =
  pt_table :: bytes
  pt_rows :: nat
  pt_batches :: nat
  pt_delta_version :: nat
  pt_null_substitutions :: "bytes \<rightharpoonup> nat"
  pt_text_fallback_columns :: "bytes \<rightharpoonup> bytes"
  pt_schema_drift :: "bytes \<rightharpoonup> bytes list list"

text \<open>A \<open>HashMap\<close> collected from a list of pairs: the last pair of a key counts.\<close>

definition hash_map :: "('y \<times> 'z) list \<Rightarrow> ('y \<rightharpoonup> 'z)" where
  "hash_map kvs = map_of (rev kvs)"

definition py_stats_of :: "table_stats \<Rightarrow> py_table_stats" where
  "py_stats_of s =
     \<lparr>pt_table = ts_table s, pt_rows = ts_rows s, pt_batches = ts_batches s, pt_delta_version = ts_delta_version s,
      pt_null_substitutions = hash_map (ts_null_substitutions s),
      pt_text_fallback_columns = hash_map (ts_text_fallback_columns s),
      pt_schema_drift = hash_map
        [(''added'', map (\<lambda>c. [c]) (dr_added (ts_schema_drift s))),
         (''removed'', map (\<lambda>c. [c]) (dr_removed (ts_schema_drift s))),
         (''retyped'', map (\<lambda>(column, was, now). [column, was, now]) (dr_retyped (ts_schema_drift s)))]\<rparr>"

definition py_stats_repr :: "(bytes \<Rightarrow> bytes) \<Rightarrow> py_table_stats \<Rightarrow> bytes" where
  "py_stats_repr dbg t =
     ''TableStats(table='' @ dbg (pt_table t) @ '', rows='' @ nat_str (pt_rows t) @ '', batches='' @ nat_str (pt_batches t)
     @ '', delta_version='' @ nat_str (pt_delta_version t) @ '')''"

record py_report =
  pr_dumped_by :: nat
  pr_from_database :: "nat option"
  pr_compression :: bytes
  pr_bytes_read :: nat
  pr_total_rows :: nat
  pr_tables :: "py_table_stats list"
  pr_missing_tables :: "bytes list"
  pr_unexpected_tables :: "bytes list"
  pr_load_id :: "bytes option"

definition py_report_of :: "load_report \<Rightarrow> py_report" where
  "py_report_of report =
     \<lparr>pr_dumped_by = lr_dumped_by report, pr_from_database = lr_from_database report, pr_compression = lr_compression report,
      pr_bytes_read = lr_bytes_read report, pr_total_rows = lr_total_rows report,
      pr_tables = map py_stats_of (lr_tables report), pr_missing_tables = lr_missing_tables report,
      pr_unexpected_tables = lr_unexpected_tables report, pr_load_id = lr_load_id report\<rparr>"

definition py_report_repr :: "py_report \<Rightarrow> bytes" where
  "py_report_repr r =
     (let extra = (if pr_missing_tables r \<noteq> [] then '', missing='' @ nat_str (length (pr_missing_tables r)) else [])
            @ (if pr_unexpected_tables r \<noteq> [] then '', unexpected='' @ nat_str (length (pr_unexpected_tables r)) else [])
      in ''LoadReport(dumped_by='' @ nat_str (pr_dumped_by r) @ '', tables='' @ nat_str (length (pr_tables r))
         @ '', total_rows='' @ nat_str (pr_total_rows r) @ extra @ '')'')"

subsection \<open>The callback\<close>

text \<open>
  At each update the signals are checked first, then the caller's function is called, if there is one (with
  its payload, whose making may raise as well). Both may raise; what they do may depend on everything
  they were told before. The answer is whether the load goes on, with the exception that is restored
  (\<open>err.restore\<close>), to be pending in the interpreter, if there is one.
\<close>

record 'e python =
  py_signals :: "progress list \<Rightarrow> 'e option"
  py_progress :: "(progress list \<Rightarrow> 'e option) option"

definition on_progress :: "'e python \<Rightarrow> progress list \<Rightarrow> bool \<times> 'e option" where
  "on_progress py updates =
     (case py_signals py updates of
        Some err \<Rightarrow> (False, Some err)
      | None \<Rightarrow>
          (case py_progress py of
             None \<Rightarrow> (True, None)
           | Some cb \<Rightarrow> (case cb updates of None \<Rightarrow> (True, None) | Some err \<Rightarrow> (False, Some err))))"

text \<open>The updates the callback is given by the next step of the reader, if it calls it.\<close>

definition asked :: "('f, 'b, 'a, 'r, 'w, 's, 't, 'k, 'x, 'm, 'v, 'i) loader_env
    \<Rightarrow> ('b, 'v, 't, 'k, 'x, 'm, 'i, 'w) config \<Rightarrow> progress list option" where
  "asked env c =
     (case cf_pc c of
        Handling [] \<Rightarrow> (case notify (\<lambda>_. True) None (cf_loader c) of Inl e \<Rightarrow> None | Inr ld \<Rightarrow> Some (ld_updates ld))
      | Collecting co events \<Rightarrow>
          if en_threads env \<le> co_acked co
          then (case block_done (\<lambda>_. True) co (cf_loader c) of Inl e \<Rightarrow> None | Inr ld \<Rightarrow> Some (ld_updates ld))
          else None
      | _ \<Rightarrow> None)"

text \<open>
  The load under Python: its state beside the exception that is pending. Its steps are the load's, and
  the step in which the reader asks the callback (it moves on from where it asks) also sets what is
  pending; an exception that is pending already stays so when nothing is restored. The label shows the
  call.
\<close>

definition python_env where
  "python_env py env config = env\<lparr>en_config := config, en_callback := \<lambda>updates. fst (on_progress py updates)\<rparr>"

inductive py_step ::
  "'e python \<Rightarrow> ('f, 'b, 'a, 'r, 'w, 's, 't, 'k, 'x, 'm, 'v, 'i) loader_env
    \<Rightarrow> ('b, 'v, 't, 'k, 'x, 'm, 'i, 'w) config \<times> 'e option \<Rightarrow> load_label \<times> progress list option
    \<Rightarrow> ('b, 'v, 't, 'k, 'x, 'm, 'i, 'w) config \<times> 'e option \<Rightarrow> bool" for py env where
  silent: "load_step env c l c' \<Longrightarrow> cf_pc c' = cf_pc c \<or> asked env c = None \<Longrightarrow>
     py_step py env (c, waiting) (l, None) (c', waiting)"
| reports: "load_step env c l c' \<Longrightarrow> cf_pc c' \<noteq> cf_pc c \<Longrightarrow> asked env c = Some updates \<Longrightarrow>
     on_progress py updates = (go, raised) \<Longrightarrow>
     py_step py env (c, waiting) (l, Some updates) (c', case raised of Some err \<Rightarrow> Some err | None \<Rightarrow> waiting)"

text \<open>The calls a run made.\<close>

definition calls_of :: "(load_label \<times> progress list option) list \<Rightarrow> progress list list" where
  "calls_of ls = concat (map (\<lambda>(l, call). case call of None \<Rightarrow> [] | Some updates \<Rightarrow> [updates]) ls)"

subsection \<open>The call\<close>

text \<open>What is left pending (\<open>PyErr::take\<close>) comes before the outcome of the load.\<close>

definition finish_call :: "'e option \<Rightarrow> load_report res \<Rightarrow> 'e py_error + py_report" where
  "finish_call waiting outcome =
     (case waiting of
        Some err \<Rightarrow> Inl (Raised err)
      | None \<Rightarrow> (case outcome of Inl err \<Rightarrow> Inl (to_pyerr err) | Inr report \<Rightarrow> Inr (py_report_of report)))"

text \<open>
  \<open>opened\<close> is what \<open>run_uri\<close> opens at a path with the settings. The load starts with nothing pending, and runs
  until the reader is done and every worker is joined. Beside the result and the lake it leaves, a call
  shows the calls it made of the callback.
\<close>

inductive stream_dump_to_delta ::
  "(bytes \<Rightarrow> bytes) \<Rightarrow> 'e python \<Rightarrow> ('f, 'b, 'a, 'r, 'w, 's, 't, 'k, 'x, 'm, 'v, 'i) loader_env \<Rightarrow> nat option
    \<Rightarrow> (bytes \<Rightarrow> load_config \<Rightarrow> 'i res) \<Rightarrow> 'e path_arg \<Rightarrow> py_args \<Rightarrow> 'w
    \<Rightarrow> progress list list \<Rightarrow> 'e py_error + py_report \<Rightarrow> 'w \<Rightarrow> bool"
  for dbg py env parallelism opened dump_path args w where
  bad_path: "dump_path_of dump_path = Inl e \<Longrightarrow> stream_dump_to_delta dbg py env parallelism opened dump_path args w [] (Inl e) w"
| bad_mode: "dump_path_of dump_path = Inr path \<Longrightarrow> config_of dbg args = Inl e \<Longrightarrow>
     stream_dump_to_delta dbg py env parallelism opened dump_path args w [] (Inl e) w"
| refused: "dump_path_of dump_path = Inr path \<Longrightarrow> config_of dbg args = (Inr config :: 'e py_error + load_config) \<Longrightarrow>
     reject_managed_storage (lc_output_uri config) = Inl e \<Longrightarrow>
     stream_dump_to_delta dbg py env parallelism opened dump_path args w [] (finish_call None (Inl e)) w"
| no_store: "dump_path_of dump_path = Inr path \<Longrightarrow> config_of dbg args = (Inr config :: 'e py_error + load_config) \<Longrightarrow>
     reject_managed_storage (lc_output_uri config) = Inr () \<Longrightarrow>
     shared_store_resolve (en_delta env) (lc_output_uri config) (lc_storage_options config) w = (Inl e, w1) \<Longrightarrow>
     stream_dump_to_delta dbg py env parallelism opened dump_path args w [] (finish_call None (Inl e)) w1"
| no_input: "dump_path_of dump_path = Inr path \<Longrightarrow> config_of dbg args = (Inr config :: 'e py_error + load_config) \<Longrightarrow>
     reject_managed_storage (lc_output_uri config) = Inr () \<Longrightarrow>
     shared_store_resolve (en_delta env) (lc_output_uri config) (lc_storage_options config) w = (Inr store, w1) \<Longrightarrow>
     opened path config = Inl e \<Longrightarrow>
     stream_dump_to_delta dbg py env parallelism opened dump_path args w [] (finish_call None (Inl e)) w1"
| ran: "dump_path_of dump_path = Inr path \<Longrightarrow> config_of dbg args = (Inr config :: 'e py_error + load_config) \<Longrightarrow>
     reject_managed_storage (lc_output_uri config) = Inr () \<Longrightarrow>
     shared_store_resolve (en_delta env) (lc_output_uri config) (lc_storage_options config) w = (Inr store, w1) \<Longrightarrow>
     opened path config = Inr input \<Longrightarrow>
     loading = (python_env py env config)\<lparr>en_store := store, en_threads := pool_size config parallelism\<rparr> \<Longrightarrow>
     run (py_step py loading) (start_config loading input w1, None) ls (c, waiting) \<Longrightarrow>
     cf_pc c = Finished r \<Longrightarrow> all_gone (cf_workers c) \<Longrightarrow>
     stream_dump_to_delta dbg py env parallelism opened dump_path args w (calls_of ls) (finish_call waiting r) (cf_world c)"

subsection \<open>An exception stops the load\<close>

lemma python_env_simps [simp]:
  "en_config (python_env py env config) = config" "en_delta (python_env py env config) = en_delta env"
  "en_arrow (python_env py env config) = en_arrow env" "en_low (python_env py env config) = en_low env"
  "en_next (python_env py env config) = en_next env" "en_alnum (python_env py env config) = en_alnum env"
  "en_callback (python_env py env config) updates = fst (on_progress py updates)"
  by (simp_all add: python_env_def)

text \<open>What the signals or the caller's function raise at an update.\<close>

definition raises :: "'e python \<Rightarrow> progress list \<Rightarrow> 'e option" where
  "raises py updates =
     (case py_signals py updates of
        Some err \<Rightarrow> Some err
      | None \<Rightarrow> Option.bind (py_progress py) (\<lambda>cb. cb updates))"

lemma on_progress_raises: "on_progress py updates = (raises py updates = None, raises py updates)"
  by (simp add: on_progress_def raises_def split: option.split)

lemma calls_of_snoc: "calls_of (ls @ [(l, call)]) = calls_of ls @ (case call of None \<Rightarrow> [] | Some updates \<Rightarrow> [updates])"
  by (simp add: calls_of_def)

lemma late_quiet:
  assumes "load_step env c l c'" "cf_pc c = Finished r"
  shows "\<not> visible l \<and> cf_pc c' = Finished r"
  using assms by (cases rule: load_step.cases) (auto simp: set_worker_def)

lemma asked_early: "asked env c = Some updates \<Longrightarrow> reader_phase (cf_pc c) = 1"
  by (auto simp: asked_def split: reader_pc.splits)

lemma asked_Finished: "cf_pc c = Finished r \<Longrightarrow> asked env c = None"
  by (simp add: asked_def)

lemma early_quiet:
  assumes "load_step env c l c'" "reader_phase (cf_pc c) = 1"
  shows "\<not> visible l"
  using assms by (cases rule: load_step.cases) (auto split: list.splits)

text \<open>The step that asks obeys the answer.\<close>

lemma notify_answer:
  assumes "notify (\<lambda>_. True) table ld = Inr ld'"
  shows "notify callback table ld = (if callback (ld_updates ld') then Inr ld' else Inl Interrupted)"
  using assms by (auto simp: notify_def Let_def)

lemma refused_stops:
  assumes "load_step env c l c'" "cf_pc c' \<noteq> cf_pc c" "asked env c = Some updates" "\<not> en_callback env updates"
  shows "cf_pc c' = Finished (Inl Interrupted)"
  using assms(1)
proof (cases rule: load_step.cases)
  case (handles events)
  have e: "events = []" using assms(3) handles(2) by (cases events) (simp_all add: asked_def)
  then obtain ld where ld: "notify (\<lambda>_. True) None (cf_loader c) = Inr ld" "ld_updates ld = updates"
    using assms(3) handles(2) by (auto simp: asked_def split: sum.splits)
  have "notify (en_callback env) None (cf_loader c) = Inl Interrupted" using notify_answer[OF ld(1)] assms(4) ld(2) by simp
  then show ?thesis using handles(3) e by (auto simp: event_turn_def stop_def)
next
  case (collected_all co events)
  obtain ld where ld: "block_done (\<lambda>_. True) co (cf_loader c) = Inr ld" "ld_updates ld = updates"
    using assms(3) collected_all by (auto simp: asked_def split: sum.splits)
  have "block_done (en_callback env) co (cf_loader c) = Inl Interrupted"
    using notify_answer[OF ld(1)[unfolded block_done_def Let_def]] assms(4) ld(2) by (simp add: block_done_def Let_def)
  then show ?thesis using collected_all(2) by (simp add: done_turn_def stop_def)
qed (use assms(2,3) in \<open>auto simp: asked_def set_worker_def\<close>)

lemma py_step_step: "py_step py env (c, waiting) x (c', waiting') \<Longrightarrow> load_step env c (fst x) c'"
  by (auto elim: py_step.cases)

lemma py_run_run: "run (py_step py env) (c, waiting) ls (c', waiting') \<Longrightarrow> run (load_step env) c (map fst ls) c'"
proof (induction ls arbitrary: c' waiting' rule: rev_induct)
  case (snoc x ls)
  then obtain d u where "run (py_step py env) (c, waiting) ls (d, u)" "py_step py env (d, u) x (c', waiting')"
    by (auto simp: run_snoc)
  then have "run (load_step env) c (map fst ls) d" "load_step env d (fst x) c'" using snoc.IH py_step_step by blast+
  then show ?case by (auto simp: run_snoc)
qed simp

text \<open>
  Along a run: nothing is pending as long as nothing was raised; what is pending was raised by the last
  call, and it has ended the load before anything of it could be seen.
\<close>

definition waiting_fits :: "'e python \<Rightarrow> (load_label \<times> progress list option) list
    \<Rightarrow> ('b, 'v, 't, 'k, 'x, 'm, 'i, 'w) config \<Rightarrow> 'e option \<Rightarrow> bool" where
  "waiting_fits py ls c waiting \<longleftrightarrow>
     (case waiting of
        None \<Rightarrow> \<forall>updates \<in> set (calls_of ls). raises py updates = None
      | Some e \<Rightarrow> calls_of ls \<noteq> [] \<and> raises py (last (calls_of ls)) = Some e
          \<and> (\<forall>updates \<in> set (butlast (calls_of ls)). raises py updates = None)
          \<and> cf_pc c = Finished (Inl Interrupted) \<and> list_all (\<lambda>l. \<not> visible l) (map fst ls))"

lemma waiting_step:
  assumes cb: "\<And>updates. en_callback env updates = fst (on_progress py updates)"
    and r: "run (load_step env) (start_config env input w) (map fst ls) c"
    and fits: "waiting_fits py ls c waiting" and st: "py_step py env (c, waiting) x (c', waiting')"
  shows "waiting_fits py (ls @ [x]) c' waiting'"
  using st
proof (cases rule: py_step.cases)
  case (silent l)
  then show ?thesis using fits late_quiet[of env c l c']
    by (auto simp: waiting_fits_def calls_of_snoc split: option.splits)
next
  case (reports l updates go raised)
  have none: "waiting = None" using fits reports(5) asked_Finished[of c _ env]
    by (cases waiting) (auto simp: waiting_fits_def)
  have raised: "raised = raises py updates" using reports(6) by (simp add: on_progress_raises)
  show ?thesis
  proof (cases raised)
    case None
    then show ?thesis using fits none raised reports by (auto simp: waiting_fits_def calls_of_snoc)
  next
    case (Some e)
    have "\<not> en_callback env updates" using Some raised by (simp add: cb on_progress_raises)
    then have fin: "cf_pc c' = Finished (Inl Interrupted)" using refused_stops[OF reports(3,4,5)] by simp
    note ph = asked_early[OF reports(5)]
    have "committed (map fst ls) = [] \<and> Concluded \<notin> set (map fst ls)" using outcome_run[OF r] ph by (cases "cf_pc c") auto
    then have "list_all (\<lambda>l. \<not> visible l) (map fst (ls @ [x]))"
      using committed_invisible[of "map fst ls"] early_quiet[OF reports(3) ph] reports(1) by simp
    moreover have "raises py updates = Some e" using Some raised by simp
    ultimately show ?thesis using fits none raised reports(1,2) fin
      by (simp add: waiting_fits_def calls_of_snoc)
  qed
qed

lemma waiting_run:
  assumes cb: "\<And>updates. en_callback env updates = fst (on_progress py updates)"
    and r: "run (py_step py env) (start_config env input w, None) ls (c, waiting)"
  shows "waiting_fits py ls c waiting"
  using r
proof (induction ls arbitrary: c waiting rule: rev_induct)
  case Nil
  then show ?case by (auto simp: waiting_fits_def calls_of_def)
next
  case (snoc x ls)
  then obtain d u where r: "run (py_step py env) (start_config env input w, None) ls (d, u)"
    and st: "py_step py env (d, u) x (c, waiting)"
    by (auto simp: run_snoc)
  show ?case by (rule waiting_step[OF cb py_run_run[OF r] snoc.IH[OF r] st])
qed


subsection \<open>What a caller may rely on\<close>

lemma raised_invisible:
  assumes lake: "delta_lake (en_delta loading) seen location loaded schema_of contents batch_rows buffered"
    and r: "run (py_step py loading) (start_config loading input w, None) ls (c, waiting)"
    and q: "list_all (\<lambda>l. \<not> visible l) (map fst ls)"
  shows "invisible (seen w) (seen (cf_world c))"
  using delta_lake.run_invisible[OF lake py_run_run[OF r] refl q] by (simp add: start_config_def)

lemma finish_call_Raised: "finish_call waiting outcome = Inl (Raised e) \<longleftrightarrow> waiting = Some e"
  by (auto simp: finish_call_def to_pyerr_def Let_def split: option.splits sum.splits error.splits)

lemma finish_call_Inr: "finish_call waiting outcome = Inr report \<longleftrightarrow> waiting = None \<and> (\<exists>rep. outcome = Inr rep \<and> report = py_report_of rep)"
  by (auto simp: finish_call_def split: option.splits sum.splits)

lemma config_of_mode:
  "config_of dbg args = Inr config \<Longrightarrow> pa_mode args \<in> {''overwrite'', ''append'', ''error''}"
  "config_of dbg args = Inl e \<Longrightarrow> \<exists>m. e = PyValueError m"
  by (auto simp: config_of_def parse_mode_def split: if_splits sum.splits)

lemma returned_delivered:
  assumes stack: "load_stack (en_arrow env) held btype acontents atype batch_columns (en_delta env)
      seen location loaded schema_of contents batch_rows buffered stored" and par: "parallelism \<noteq> Some 0"
    and w1: "seen w1 = seen w"
    and loading: "loading = (python_env py env config)\<lparr>en_store := store, en_threads := pool_size config parallelism\<rparr>"
    and r: "run (load_step loading) (start_config loading input w1) ls c" "cf_pc c = Finished (Inr rep)"
  shows "\<exists>evs. whole_dump loading input evs
    \<and> delivered seen contents loading w (cf_world c) (dump_blocks config (en_low env) evs) rep"
proof -
  have "0 < en_threads loading" using par by (auto simp: loading pool_size_def split: option.splits)
  from load_stack.delivered_run[OF stack r(1) _ _ this r(2)]
  have "whole_dump loading input (events_of ls)
    \<and> delivered seen contents loading w (cf_world c) (dump_blocks config (en_low env) (events_of ls)) rep"
    using delivered_before[of seen w1 w contents loading, OF w1] by (simp add: loading)
  then show ?thesis by (rule exI)
qed

subsection \<open>Playing a call\<close>

text \<open>The steps under Python as a function of the schedule.\<close>

definition py_turn :: "'e python \<Rightarrow> ('f, 'b, 'a, 'r, 'w, 's, 't, 'k, 'x, 'm, 'v, 'i) loader_env \<Rightarrow> move
    \<Rightarrow> ('b, 'v, 't, 'k, 'x, 'm, 'i, 'w) config \<times> 'e option
    \<Rightarrow> ((load_label \<times> progress list option) \<times> ('b, 'v, 't, 'k, 'x, 'm, 'i, 'w) config \<times> 'e option) option" where
  "py_turn py env m s =
     (case s of (c, waiting) \<Rightarrow>
        map_option (\<lambda>(l, c').
            (case (case m of Reader \<Rightarrow> asked env c | _ \<Rightarrow> None) of
               None \<Rightarrow> ((l, None), (c', waiting))
             | Some updates \<Rightarrow>
                 ((l, Some updates), (c', case snd (on_progress py updates) of Some err \<Rightarrow> Some err | None \<Rightarrow> waiting))))
          (move_turn env m c))"

fun py_play :: "'e python \<Rightarrow> ('f, 'b, 'a, 'r, 'w, 's, 't, 'k, 'x, 'm, 'v, 'i) loader_env \<Rightarrow> move list
    \<Rightarrow> ('b, 'v, 't, 'k, 'x, 'm, 'i, 'w) config \<times> 'e option
    \<Rightarrow> ((load_label \<times> progress list option) list \<times> ('b, 'v, 't, 'k, 'x, 'm, 'i, 'w) config \<times> 'e option) option" where
  "py_play py env [] s = Some ([], s)"
| "py_play py env (m # ms) s =
     (case py_turn py env m s of
        None \<Rightarrow> None
      | Some (x, t) \<Rightarrow> map_option (\<lambda>(xs, u). (x # xs, u)) (py_play py env ms t))"

lemma others_keep_pc:
  "worker_turn env i c = Some c' \<Longrightarrow> cf_pc c' = cf_pc c" "preload_turn env t c = Some c' \<Longrightarrow> cf_pc c' = cf_pc c"
  by (auto simp: worker_turn_def preload_turn_def set_worker_def Let_def
      split: if_splits worker_pc.splits list.splits reader_pc.splits prod.splits preload_task.splits)

lemma asking_moves_on:
  assumes "reader_turn env c = Some (l, c')" "asked env c = Some updates"
  shows "cf_pc c' \<noteq> cf_pc c"
  using assms
  by (auto simp: asked_def reader_turn_def event_turn_def done_turn_def stop_def
      split: reader_pc.splits list.splits if_splits sum.splits)

lemma py_turn_step:
  assumes "py_turn py env m (c, waiting) = Some (x, t)"
  shows "py_step py env (c, waiting) x t"
proof -
  obtain l c' where t: "move_turn env m c = Some (l, c')"
    using assms by (auto simp: py_turn_def split: option.splits)
  note st = move_turn_step[OF t]
  show ?thesis
  proof (cases "case m of Reader \<Rightarrow> asked env c | _ \<Rightarrow> None")
    case None
    then have "cf_pc c' = cf_pc c \<or> asked env c = None" using t by (cases m) (auto simp: others_keep_pc)
    moreover have "x = (l, None)" "t = (c', waiting)" using assms t None by (simp_all add: py_turn_def)
    ultimately show ?thesis using st py_step.silent by blast
  next
    case (Some updates)
    then have m: "m = Reader" "asked env c = Some updates" by (cases m; simp)+
    have "x = (l, Some updates)"
      "t = (c', case snd (on_progress py updates) of Some err \<Rightarrow> Some err | None \<Rightarrow> waiting)"
      using assms t Some by (simp_all add: py_turn_def)
    then show ?thesis
      using py_step.reports[OF st asking_moves_on[of env c l c' updates] m(2) prod.collapse[symmetric]] t m by simp
  qed
qed

lemma py_play_run: "py_play py env ms s = Some (xs, t) \<Longrightarrow> run (py_step py env) s xs t"
proof (induction ms arbitrary: s xs)
  case (Cons m ms)
  then obtain x u ys where "py_turn py env m s = Some (x, u)" "py_play py env ms u = Some (ys, t)" "xs = x # ys"
    by (auto split: option.splits)
  then show ?case using py_turn_step[of py env m "fst s" "snd s"] Cons.IH run_more[of "py_step py env"] by simp
qed simp

text \<open>A call whose progress function raises at the first update.\<close>

definition stop_python :: "bytes python" where
  "stop_python = \<lparr>py_signals = \<lambda>_. None, py_progress = Some (\<lambda>updates. if length updates = 1 then Some ''stop'' else None)\<rparr>"

definition stop_path :: "bytes path_arg" where
  "stop_path = \<lparr>pth_text = None, pth_fspath = Inr ''dump.sql''\<rparr>"

definition stop_env where
  "stop_env = (python_env stop_python (demo_env next_of) (default_config\<lparr>lc_output_uri := ''/lake''\<rparr>))\<lparr>en_store := (), en_threads := 2\<rparr>"

definition stop_moves :: "move list" where
  "stop_moves = [Reader, Reader, Reader, Preloader 0, Reader, Reader, Worker 0, Reader, Worker 1, Reader, Reader, Reader, Worker 0,
     Reader, Reader, Worker 0, Worker 0, Worker 1, Worker 1]"

definition stop_start where
  "stop_start = start_config stop_env demo_chunks demo_before"

lemma stop_evaluated:
  "case py_play stop_python stop_env stop_moves (stop_start, None) of None \<Rightarrow> False
   | Some (ls, c, waiting) \<Rightarrow> (case cf_pc c of Finished r \<Rightarrow> True | _ \<Rightarrow> False)
       \<and> map length (calls_of ls) = [1] \<and> waiting = Some ''stop'' \<and> all_gone (cf_workers c)"
  by code_simp

lemma stop_call:
  "\<exists>calls w'. stream_dump_to_delta (\<lambda>s. s) stop_python (demo_env next_of) (Some 2) (\<lambda>_ _. Inr demo_chunks) stop_path
     (default_args ''/lake'') demo_before calls (Inl (Raised ''stop'')) w' \<and> map length calls = [1]"
proof -
  let ?config = "default_config\<lparr>lc_output_uri := ''/lake''\<rparr>"
  obtain ls c waiting where p: "py_play stop_python stop_env stop_moves (stop_start, None) = Some (ls, c, waiting)"
    using stop_evaluated by (auto split: option.splits)
  note at = stop_evaluated[unfolded p option.case prod.case]
  obtain r where r: "cf_pc c = Finished r" using at by (auto split: reader_pc.splits)
  have gone: "all_gone (cf_workers c)" using at by simp
  have env: "stop_env = (python_env stop_python (demo_env next_of) ?config)\<lparr>en_store := (), en_threads := pool_size ?config (Some 2)\<rparr>"
    by (simp add: stop_env_def pool_size_def default_config_def)
  have path: "dump_path_of stop_path = Inr ''dump.sql''" by code_simp
  have ok: "reject_managed_storage (lc_output_uri ?config) = Inr ()" by simp code_simp
  have store: "shared_store_resolve (en_delta (demo_env next_of)) (lc_output_uri ?config) (lc_storage_options ?config) demo_before
      = (Inr (), demo_before)"
    by (simp add: demo_env_def shared_store_resolve_def lake_ops_def delta_w_def delta_res_def)
  have "finish_call waiting r = Inl (Raised ''stop'')" "map length (calls_of ls) = [1]" using at by (simp_all add: finish_call_def)
  with stream_dump_to_delta.ran[OF path config_of_defaults ok store refl env py_play_run[OF p[unfolded stop_start_def]] r gone]
  show ?thesis by metis
qed

text \<open>
  C5. What a call from Python comes to. An exception of the caller's own, a signal or what the progress
  function raises, stops the load: no update but the last the callback was called with raised anything,
  so it is never called again; and when the last one did, the call raises that very exception, and a
  reader of the lake sees nothing of the load but empty tables where there was none. The call raises such
  an exception in no other case but a path that could not be read, and then nothing was touched. When it
  returns a report, no update raised anything, the arguments were accepted, and the report mirrors that of
  a load which published the whole dump. A mode that is not one is a \<open>ValueError\<close> before anything is touched.
\<close>

theorem python_call_outcome:
  assumes "load_stack (en_arrow env) held btype acontents atype batch_columns (en_delta env)
      seen location loaded schema_of contents batch_rows buffered stored"
    and "parallelism \<noteq> Some 0"
    and "stream_dump_to_delta dbg (py :: 'e python) env parallelism opened dump_path args w calls result w'"
  shows "(\<forall>updates \<in> set (butlast calls). raises py updates = None)
    \<and> (\<forall>e. calls \<noteq> [] \<and> raises py (last calls) = Some e \<longrightarrow> result = Inl (Raised e) \<and> invisible (seen w) (seen w'))
    \<and> (\<forall>e. result = Inl (Raised e) \<longrightarrow>
         calls \<noteq> [] \<and> raises py (last calls) = Some e \<or> dump_path_of dump_path = Inl (Raised e) \<and> calls = [] \<and> w' = w)
    \<and> (\<forall>report. result = Inr report \<longrightarrow> (\<forall>updates \<in> set calls. raises py updates = None) \<and>
         (\<exists>path config rep input evs. dump_path_of dump_path = Inr path
            \<and> config_of dbg args = (Inr config :: 'e py_error + load_config) \<and> opened path config = Inr input
            \<and> report = py_report_of rep \<and> whole_dump (python_env py env config) input evs
            \<and> delivered seen contents (python_env py env config) w w' (dump_blocks config (en_low env) evs) rep))
    \<and> (\<forall>path. dump_path_of dump_path = Inr path \<and> pa_mode args \<notin> {''overwrite'', ''append'', ''error''} \<longrightarrow>
         (\<exists>m. result = Inl (PyValueError m)) \<and> calls = [] \<and> w' = w)"
  using assms(3)
proof (cases rule: stream_dump_to_delta.cases)
  case (ran path config store w1 input loading ls c waiting r)
  note lake = load_stack.axioms(2)[OF assms(1)]
  have w1: "seen w1 = seen w" by (rule delta_lake.resolve_seen[OF lake ran(7)])
  have lake': "delta_lake (en_delta loading) seen location loaded schema_of contents batch_rows buffered"
    using lake by (simp add: ran(9))
  have fits: "waiting_fits py ls c waiting" by (rule waiting_run[OF _ ran(10)]) (simp add: ran(9))
  have mode: "pa_mode args \<in> {''overwrite'', ''append'', ''error''}" by (rule config_of_mode(1)[OF ran(5)])
  show ?thesis
  proof (cases waiting)
    case (Some e)
    then show ?thesis using fits ran(1-4) mode w1 raised_invisible[OF lake' ran(10)]
      by (auto simp: waiting_fits_def finish_call_Raised finish_call_Inr)
  next
    case None
    have calm: "\<forall>updates \<in> set calls. raises py updates = None" using fits None ran(1) by (simp add: waiting_fits_def)
    have 1: "\<exists>rep evs. report = py_report_of rep \<and> whole_dump (python_env py env config) input evs
      \<and> delivered seen contents (python_env py env config) w w' (dump_blocks config (en_low env) evs) rep"
      if res: "result = Inr report" for report
    proof -
      obtain rep where rep: "r = Inr rep" "report = py_report_of rep" using res ran(2) by (auto simp: finish_call_Inr)
      from returned_delivered[OF assms(1,2) w1 ran(9) py_run_run[OF ran(10)], of rep] ran(11) rep(1) obtain evs where
        "whole_dump loading input evs" "delivered seen contents loading w (cf_world c) (dump_blocks config (en_low env) evs) rep"
        by auto
      then have "whole_dump (python_env py env config) input evs"
        "delivered seen contents (python_env py env config) w w' (dump_blocks config (en_low env) evs) rep"
        using ran(3) by (simp_all add: ran(9) whole_dump_def)
      then show ?thesis using rep(2) by blast
    qed
    have 2: "\<forall>updates \<in> set (butlast calls). raises py updates = None" using calm by (auto dest: in_set_butlastD)
    have 3: "\<not> (calls \<noteq> [] \<and> raises py (last calls) = Some e)" for e using calm last_in_set[of calls] by force
    have 4: "result \<noteq> Inl (Raised e)" for e using ran(2) None by (simp add: finish_call_Raised)
    show ?thesis using 1 2 3 4 calm mode ran(4,5,8) by blast
  qed
qed (auto simp: finish_call_Raised finish_call_Inr dest: config_of_mode)


theorem python_call_outcome_witness:
  "\<exists>calls w'. stream_dump_to_delta (\<lambda>s. s) stop_python (demo_env next_of) (Some 2) (\<lambda>_ _. Inr demo_chunks) stop_path
      (default_args ''/lake'') demo_before calls (Inl (Raised ''stop'')) w'
    \<and> length calls = 1 \<and> raises stop_python (last calls) = Some ''stop'' \<and> invisible (mem_seen demo_before) (mem_seen w')"
proof -
  have env: "en_arrow (demo_env next_of) = list_arrow (\<lambda>x. x) (\<lambda>x. x)" "en_delta (demo_env next_of) = lake_ops rows_of_columns"
    by (simp_all add: demo_env_def)
  obtain calls w' where w': "stream_dump_to_delta (\<lambda>s. s) stop_python (demo_env next_of) (Some 2) (\<lambda>_ _. Inr demo_chunks) stop_path
      (default_args ''/lake'') demo_before calls (Inl (Raised ''stop'')) w'" and one: "map length calls = [1]"
    using stop_call by (elim exE conjE)
  have n: "length calls = 1" "calls \<noteq> []" using one by auto
  then have last: "raises stop_python (last calls) = Some ''stop''"
    using one by (cases calls) (auto simp: raises_def stop_python_def)
  have "Some 2 \<noteq> Some (0::nat)" by simp
  from python_call_outcome[of "demo_env next_of", unfolded env, OF stack.load_stack_axioms this w']
  have "invisible (mem_seen demo_before) (mem_seen w')" using last n(2) by blast
  then show ?thesis using w' n(1) last by blast
qed

end
