(* ===== verification/Spec2Isabelle.thy ===== *)
theory Spec2Isabelle
  imports Scan_Parse Dump_Reader Value_Props Bounded_Chan Object_Source Arrow_Laws History_Props Python_Api
begin

text \<open>
  Verification of pgdelta, a loader that streams a plain-text PostgreSQL dump into Delta Lake tables
  (a Rust library with Python bindings, \<open>src/src/\<close>).

  The program. The reader thread (\<open>drive\<close> in \<open>pipeline.rs\<close>) opens a dump, local or in an object store
  (\<open>source.rs\<close>), decompresses it and cuts it into chunks of whole lines (\<open>dump.rs\<close>), and scans the
  chunks for the version comment, the \<open>CREATE TABLE\<close> statements and the \<open>COPY\<close> blocks (\<open>scan.rs\<close>). The
  declared column types are resolved (\<open>types.rs\<close>). The rows of a block go, over bounded channels
  (\<open>chan.rs\<close>), to a pool of workers, which decode the fields (\<open>copy.rs\<close>), convert the values
  (\<open>values.rs\<close>), build Arrow batches (\<open>builders.rs\<close>) and write Parquet files without committing them
  (\<open>sink.rs\<close>). When the whole dump has been read, phase two commits every table and appends a record to
  the load history (\<open>manifest.rs\<close>). Every failure is a value of \<open>Error\<close> (\<open>error.rs\<close>).

  The theories, each with the code it models under the names the code has.

  \<^item> \<open>Prelude\<close>, \<open>Rust_Std\<close>, \<open>Codecs\<close>: bytes, results, the parts of Rust's library the code uses; \<open>Errors\<close>: \<open>error.rs\<close>.
  \<^item> \<open>Copy_Text\<close>: \<open>copy.rs\<close>, from the escapes of a field to \<open>decode_row\<close>; \<open>Dump_Reader\<close>: \<open>dump.rs\<close>.
  \<^item> \<open>Sql_Scan\<close>, \<open>Scan_Parse\<close>: \<open>scan.rs\<close>, the scanner as a state machine and the SQL parsers.
  \<^item> \<open>Pg_Types\<close>: \<open>types.rs\<close>; \<open>Pg_Values\<close>, \<open>Value_Laws\<close>, \<open>Value_Props\<close>: \<open>values.rs\<close>.
  \<^item> \<open>Transitions\<close>: runs of step relations, shared; \<open>Bounded_Chan\<close>: \<open>chan.rs\<close> with its threads;
    \<open>Object_Source\<close>: \<open>source.rs\<close>.
  \<^item> \<open>Arrow_Build\<close>, \<open>Arrow_Laws\<close>: \<open>builders.rs\<close>; \<open>Delta_Sink\<close>, \<open>Sink_Laws\<close>, \<open>Sink_Props\<close>: \<open>sink.rs\<close>.
  \<^item> \<open>Load_Report\<close>, \<open>Load_History\<close>, \<open>History_Props\<close>: the settings and the report of \<open>pipeline.rs\<close>, and \<open>manifest.rs\<close>.
  \<^item> \<open>Decode_Worker\<close>, \<open>Load_Reader\<close>, \<open>Load_Pipeline\<close>: \<open>pipeline.rs\<close>: what a job does to a worker, what an
    event does to the reader, and all of it running together as the step relation \<open>load_step\<close>.
  \<^item> \<open>Load_Pool\<close>, \<open>Load_Live\<close>, \<open>Load_World\<close>, \<open>Load_Phases\<close>: the invariant of the pool, termination, what the
    pipeline does to the storage, and the two phases. \<open>Load_Exec\<close>, \<open>Load_Demo\<close>: the step relation as a
    function that plays a schedule, and a load in memory played on it.
  \<^item> \<open>Load_Replay\<close>: what a dump says, read from its events in order, the specification of the pipeline.
    \<open>Load_Rows\<close>, \<open>Load_Account\<close>, \<open>Load_Exact\<close>: the rows of a line, of a worker and of a block, and that none is
    lost or doubled on the way from the reader to the staged files. \<open>Load_Targets\<close>: the tables opened.
    \<open>Load_Publish\<close>: what the commits publish, and the correctness of a load. \<open>Load_Stream\<close>: the same told of
    the bytes of the dump, with the entry points \<open>run\<close>, \<open>run_uri\<close> and \<open>run_file\<close>.
  \<^item> \<open>Python_Api\<close>: \<open>python.rs\<close>, the call from Python with its settings, its callback and its exceptions.

  Third-party code is a parameter of the definitions that use it, with what the code relies on stated as
  a locale: \<open>byte_source\<close> (a reader), \<open>arrow_api\<close> (Arrow's builders and arrays), \<open>delta_lake\<close> (deltalake: what a
  reader of a table sees, the effect of a commit, the rows of the files written), and \<open>load_stack\<close>, which joins
  the last two: a batch written holds the rows of its columns, and files are never reused; \<open>record_batches\<close>
  says the same of \<open>RecordBatch::try_new\<close> for the history. Each is interpreted:
  \<open>byte_source\<close> on the chained reader of the code and on a cursor, \<open>arrow_api\<close> on builders that are
  lists, \<open>delta_lake\<close> on a lake in memory, \<open>load_stack\<close> on the two together, \<open>record_batches\<close>
  on batches of table names. gzip, the object store's requests, the Unicode tables, the rounding of
  decimals to floats, the URL parser, the clock and the progress callback are functions the definitions
  take. \<open>ordered_system\<close>, \<open>settling_system\<close> and \<open>stable_system\<close> are the shared arguments about runs,
  interpreted on the channel and on the pipeline; \<open>write_order\<close> and \<open>world_order\<close> carry a relation between
  storage worlds through every operation of the sink and every step of the pipeline.

  What the lemmas show. Text: the escapes, the fields and the rows of \<open>COPY\<close> are read back exactly, within
  the limits, however the input is chunked. Scanner: chunking does not matter, a scan that finishes is
  complete, the parsers read back what \<open>pg_dump\<close> writes. Types and values: a conversion is exact, in range,
  silent about the value when it fails, and NULL only for NaN and the infinities. Channel: a bounded queue
  that loses no wakeup. Sources: a remote dump is exact or an error. Builders: a batch holds the rows
  appended. Sink: paths are safe and distinct, drift is exact, and a load through the sink shows nothing
  before its commit and exactly its rows after. History: the rows of a load, under an identifier that sorts by
  time. Pipeline: every load ends; nothing is visible before
  phase two, the result says what became of every commit, and a load that succeeds has published, in one
  version of each table, exactly the rows the lines of the dump denote (\<open>load_publishes_the_dump\<close>); what it
  publishes depends on the bytes of the dump alone (\<open>load_publishes_the_stream\<close>, and with the decompressor and
  the counter of \<open>drive\<close> in front, \<open>load_from_publishes\<close>). Python: the exception that is pending is part of the
  state (\<open>py_step\<close>); one that a signal or the callback raises stops the load, is what the call raises, and
  leaves nothing to see (\<open>python_call_outcome\<close>).

  Bounds. Bytes are characters, \<open>usize\<close> and \<open>u64\<close> counters are naturals (a counter of rows or bytes does
  not reach 2^64), and arithmetic that can wrap or overflow in the code is written out: 64-bit days and
  microseconds, 128-bit decimals, 32-bit list offsets, the \<open>i64\<close> and \<open>i32\<close> columns of the history. No
  fuel is used: loops are functions with a measure, and where the code may not return (a reader, a
  source, the channel) the model is a step relation or \<open>partial_function\<close>, with termination proved
  (\<open>all_chunks_partition\<close>, \<open>load_always_finishes\<close>). A panic of the code is \<open>None\<close>.

  Atomicity. In \<open>Bounded_Chan\<close> every critical section is a step. In \<open>load_step\<close> a channel operation is one
  step (it is what \<open>chan_refines_queue\<close> allows), and so is a job of a worker, a preload and a commit, so the
  calls of different threads on the storage interleave at that grain. A preload that is aborted at the
  end of the input may still run in the model.

  Not modelled: \<open>lib.rs\<close> (re-exports), the registration of the Python module and the conversion of Python
  objects, the construction of the runtime and the threads in \<open>execute\<close>, accessors, and the capacity hints
  of vectors. A task or a runtime call that fails because the runtime itself is gone is not modelled
  either.
\<close>

end
